(* ===== verification/Prelude.thy ===== *)
theory Prelude
  imports Main "HOL-Library.Word" "HOL-Library.Multiset"
begin

text \<open>
  What the components share: the machine types of the sources, the ways a C or C++ call can
  go wrong as values, sequencing of fallible calls, and bounds-checked access to a
  \<open>std::vector\<close> or C array that is modelled as a list.
\<close>

section \<open>Machine types\<close>

text \<open>\<open>std::size_t\<close> and \<open>ptrdiff_t\<close> on x86-64, and \<open>uint32_t\<close> / \<open>unsigned int\<close>.\<close>

type_synonym size_t = "64 word"
type_synonym u32 = "32 word"

section \<open>Errors as values\<close>

text \<open>
  \<open>UndefinedBehaviour\<close>: an out-of-bounds access or a call through a null pointer.
  \<open>DivisionByZero\<close>: an integer division by zero (undefined in C++, a trap on x86-64).
  \<open>OutOfRange\<close>: the exception of \<open>std::vector::at\<close> and \<open>std::array::at\<close>.
  \<open>Diverges\<close>: a busy wait that never ends when no other thread runs.
\<close>

datatype cxx_error =
    UndefinedBehaviour
  | DivisionByZero
  | OutOfRange
  | LengthError
  | Diverges

text \<open>Sequencing: the first failing call ends the computation.\<close>

definition andThen :: "'e + 'a \<Rightarrow> ('a \<Rightarrow> 'e + 'b) \<Rightarrow> 'e + 'b" where
  "andThen r f = (case r of Inl e \<Rightarrow> Inl e | Inr x \<Rightarrow> f x)"

lemma andThen_simps [simp]:
  "andThen (Inl e) f = Inl e"
  "andThen (Inr x) f = f x"
  by (simp_all add: andThen_def)

lemma andThen_eq_Inr:
  "andThen r f = Inr y \<longleftrightarrow> (\<exists>x. r = Inr x \<and> f x = Inr y)"
  by (cases r) auto

section \<open>Vectors\<close>

definition vget :: "'a list \<Rightarrow> size_t \<Rightarrow> cxx_error + 'a" where
  "vget xs i = (if unat i < length xs then Inr (xs ! unat i) else Inl UndefinedBehaviour)"

definition vset :: "'a list \<Rightarrow> size_t \<Rightarrow> 'a \<Rightarrow> cxx_error + 'a list" where
  "vset xs i x = (if unat i < length xs then Inr (xs[unat i := x]) else Inl UndefinedBehaviour)"

definition vsize :: "'a list \<Rightarrow> size_t" where
  "vsize xs = of_nat (length xs)"

lemma vget_in [simp]: "unat i < length xs \<Longrightarrow> vget xs i = Inr (xs ! unat i)"
  by (simp add: vget_def)

lemma vset_in [simp]: "unat i < length xs \<Longrightarrow> vset xs i x = Inr (xs[unat i := x])"
  by (simp add: vset_def)

lemma vget_out: "length xs \<le> unat i \<Longrightarrow> vget xs i = Inl UndefinedBehaviour"
  by (simp add: vget_def)

lemma vset_out: "length xs \<le> unat i \<Longrightarrow> vset xs i x = Inl UndefinedBehaviour"
  by (simp add: vset_def)

section \<open>Word arithmetic\<close>

lemma unat_inc:
  fixes a :: "'n::len word"
  assumes "a < b"
  shows "unat (a + 1) = Suc (unat a)"
  using assms by unat_arith

lemma unat_inc_bound:
  fixes a :: size_t
  assumes "unat a < m" "m < 2 ^ 64"
  shows "unat (a + 1) = Suc (unat a)"
  using assms by (simp add: unat_word_ariths)

lemma unat_dec:
  fixes a :: "'n::len word"
  assumes "0 < a"
  shows "unat (a - 1) = unat a - 1"
  using assms by unat_arith

lemma unat_of_nat_size_t [simp]: "k < 2 ^ 64 \<Longrightarrow> unat (of_nat k :: size_t) = k"
  by (simp add: unat_of_nat)

lemma vsize_unat: "length xs < 2 ^ 64 \<Longrightarrow> unat (vsize xs) = length xs"
  by (simp add: vsize_def)

lemma unat_lt_2_64 [simp]: "unat (a :: size_t) < 18446744073709551616"
  using unsigned_less [of a] by simp

lemma unat_le_max [simp]: "unat (a :: size_t) \<le> 18446744073709551615"
  using unat_lt_2_64 [of a] by linarith

section \<open>Lists\<close>

lemma upt_Suc_Cons: "i < j \<Longrightarrow> [i..<j] = i # [Suc i..<j]"
  by (rule upt_conv_Cons)

lemma mset_drop_nth:
  "k < length xs \<Longrightarrow> mset (drop k xs) = add_mset (xs ! k) (mset (drop (Suc k) xs))"
  by (metis Cons_nth_drop_Suc mset.simps(2))

lemma mset_take_drop_nth:
  assumes "k < length xs"
  shows "mset xs = add_mset (xs ! k) (mset (take k xs @ drop (Suc k) xs))"
proof -
  have "mset xs = mset (take k xs @ xs ! k # drop (Suc k) xs)"
    using id_take_nth_drop [OF assms] by simp
  then show ?thesis by simp
qed

lemma drop_list_update_cons:
  "k < length xs \<Longrightarrow> drop k (xs[k := x]) = x # drop (Suc k) xs"
  by (metis Cons_nth_drop_Suc drop_update_cancel length_list_update lessI nth_list_update_eq)

lemma length_filter_update:
  assumes "k < length xs"
  shows "length (filter P (xs[k := x])) + (if P (xs ! k) then 1 else 0) =
    length (filter P xs) + (if P x then 1 else 0)"
proof -
  have "length (filter P xs) = length (filter P (take k xs @ xs ! k # drop (Suc k) xs))"
    using id_take_nth_drop [OF assms] by simp
  with assms show ?thesis by (simp add: upd_conv_take_nth_drop)
qed

text \<open>Replacing an element changes what a list of lists holds by what the two elements give.\<close>

lemma mset_concat_update:
  assumes "k < length xs"
  shows "mset (concat (map f (xs[k := x]))) + mset (f (xs ! k)) = mset (concat (map f xs)) + mset (f x)"
proof -
  have "mset (concat (map f xs)) = mset (concat (map f (take k xs @ xs ! k # drop (Suc k) xs)))"
    using id_take_nth_drop [OF assms] by simp
  with assms show ?thesis by (simp add: upd_conv_take_nth_drop)
qed

lemma sum_list_map_update:
  fixes f :: "'a \<Rightarrow> nat"
  shows "k < length xs \<Longrightarrow> sum_list (map f (xs[k := x])) + f (xs ! k) = sum_list (map f xs) + f x"
  by (induction xs arbitrary: k) (auto simp: nth_Cons' split: nat.splits)

lemma mset_subset_eq_concat:
  "k < length xs \<Longrightarrow> mset (f (xs ! k)) \<subseteq># mset (concat (map f xs))"
proof (induction xs arbitrary: k)
  case (Cons x xs)
  show ?case
  proof (cases k)
    case (Suc j)
    with Cons have "mset (f (xs ! j)) \<subseteq># mset (concat (map f xs))" by simp
    then show ?thesis by (simp add: Suc subset_mset.add_increasing)
  qed simp
qed simp

lemma mset_subset_eq_concat2:
  assumes "j < length xs" "k < length xs" "j \<noteq> k"
  shows "mset (f (xs ! j)) + mset (f (xs ! k)) \<subseteq># mset (concat (map f xs))"
  using assms
proof (induction xs arbitrary: j k)
  case (Cons x xs)
  show ?case
  proof (cases j)
    case 0
    then obtain k' where "k = Suc k'" using Cons.prems(3) by (cases k) auto
    with 0 mset_subset_eq_concat [of k' xs f] Cons.prems(2) show ?thesis by simp
  next
    case (Suc j')
    show ?thesis
    proof (cases k)
      case 0
      with Suc mset_subset_eq_concat [of j' xs f] Cons.prems(1) show ?thesis
        by (simp add: add.commute)
    next
      case (Suc k')
      with \<open>j = Suc j'\<close> Cons.IH [of j' k'] Cons.prems have
        "mset (f (xs ! j')) + mset (f (xs ! k')) \<subseteq># mset (concat (map f xs))" by simp
      with Suc \<open>j = Suc j'\<close> show ?thesis by (simp add: subset_mset.add_increasing)
    qed
  qed
qed simp

lemma count_distinct: "distinct xs \<Longrightarrow> count (mset xs) x \<le> 1"
  by (simp add: distinct_count_atmost_1)

lemma distinct_if_count: "(\<And>x. count (mset xs) x \<le> 1) \<Longrightarrow> distinct xs"
  by (auto simp: distinct_count_atmost_1 le_Suc_eq count_eq_zero_iff)

text \<open>Different parts of a list without repetitions.\<close>

lemma concat_nth_disjoint:
  "distinct (concat xss) \<Longrightarrow> i < length xss \<Longrightarrow> j < length xss \<Longrightarrow> i \<noteq> j \<Longrightarrow>
    set (xss ! i) \<inter> set (xss ! j) = {}"
proof (induction xss arbitrary: i j)
  case (Cons xs xss)
  have "set (xss ! k) \<inter> set xs = {}" if "k < length xss" for k
    using Cons.prems(1) nth_mem [OF that] by auto
  with Cons show ?case by (cases i; cases j) auto
qed simp

end
