(* ===== verification/IndexHolder.thy ===== *)
theory IndexHolder
  imports Prelude
begin

text \<open>
  The class \<open>IndexHolder\<close> of \<open>src/IndexHolder.h\<close>: the result of an indexer's
  \<open>Next()\<close>, an index or nothing. A default-constructed holder is empty and carries the
  value 0; a holder made from an index is not empty. The defaulted moves copy the two fields.
\<close>

record index_holder =
  ih_value :: size_t
  ih_empty :: bool

definition IndexHolder :: "size_t \<Rightarrow> index_holder" where
  "IndexHolder idxValue = \<lparr>ih_value = idxValue, ih_empty = False\<rparr>"

definition IndexHolder_default :: index_holder where
  "IndexHolder_default = \<lparr>ih_value = 0, ih_empty = True\<rparr>"

definition ih_Empty :: "index_holder \<Rightarrow> bool" where
  "ih_Empty h = ih_empty h"

definition ih_Get :: "index_holder \<Rightarrow> size_t" where
  "ih_Get h = ih_value h"

lemma index_holder_simps [simp]:
  "ih_Empty (IndexHolder v) = False"
  "ih_Empty IndexHolder_default = True"
  "ih_Get (IndexHolder v) = v"
  "IndexHolder v \<noteq> IndexHolder_default"
  "IndexHolder_default \<noteq> IndexHolder v"
  "IndexHolder v = IndexHolder w \<longleftrightarrow> v = w"
  by (simp_all add: IndexHolder_def IndexHolder_default_def ih_Empty_def ih_Get_def)

end
