(* ===== verification/Indexer.thy ===== *)
theory Indexer
  imports IndexHolder
begin

text \<open>
  The interface an object pool expects of its \<open>Indexer\<close> template argument. The source has
  no base class: \<open>Pool\<close> only calls a constructor taking the size, \<open>Next()\<close> and
  \<open>Return(index)\<close>, and both \<open>MutexIndexer\<close> and \<open>ConcurrentIndexer\<close> provide
  them. The locale \<open>indexer_contract\<close> states what \<open>Pool\<close> relies on; the theories of
  the two classes interpret it.
\<close>

section \<open>Operations and clients\<close>

record 'x indexer_ops =
  op_new :: "size_t \<Rightarrow> cxx_error + 'x"
  op_Next :: "'x \<Rightarrow> cxx_error + index_holder \<times> 'x"
  op_Return :: "size_t \<Rightarrow> 'x \<Rightarrow> cxx_error + 'x"

text \<open>All the indices of an indexer of size \<open>n\<close>.\<close>

definition all_indices :: "size_t \<Rightarrow> size_t list" where
  "all_indices n = map of_nat [0..<unat n]"

lemma length_all_indices [simp]: "length (all_indices n) = unat n"
  by (simp add: all_indices_def)

lemma set_all_indices: "set (all_indices n) = {i. i < n}"
proof -
  have "\<exists>k<unat n. i = of_nat k" if "i < n" for i
    using that by (intro exI [of _ "unat i"]) (simp add: word_less_nat_alt)
  moreover have "(of_nat k :: size_t) < n" if "k < unat n" for k
  proof -
    have "k < 2 ^ 64" using that unsigned_less [of n] by (simp add: less_trans)
    then show ?thesis using that by (simp add: word_less_nat_alt)
  qed
  ultimately show ?thesis by (fastforce simp: all_indices_def image_iff)
qed

lemma distinct_all_indices: "distinct (all_indices n)"
proof -
  have "inj_on (of_nat :: nat \<Rightarrow> size_t) {0..<unat n}"
  proof (rule inj_onI)
    fix a b assume "a \<in> {0..<unat n}" "b \<in> {0..<unat n}" "(of_nat a :: size_t) = of_nat b"
    moreover have "a < 2 ^ 64" "b < 2 ^ 64"
      using calculation unsigned_less [of n] by (auto simp: less_trans)
    ultimately show "a = b" by (metis unat_of_nat_size_t)
  qed
  then show ?thesis by (simp add: all_indices_def distinct_map)
qed

text \<open>
  A client holds the indices it was given. \<open>CallReturn k\<close> gives back the \<open>k\<close>-th of
  them (nothing happens when it holds fewer): a client that only returns what it holds, once.
\<close>

datatype ix_call = CallNext | CallReturn nat

fun ix_run ::
    "'x indexer_ops \<Rightarrow> ix_call list \<Rightarrow> 'x \<Rightarrow> size_t list \<Rightarrow> cxx_error + 'x \<times> size_t list" where
  "ix_run ops [] x held = Inr (x, held)"
| "ix_run ops (CallNext # cs) x held =
     andThen (op_Next ops x) (\<lambda>(h, x').
       ix_run ops cs x' (if ih_Empty h then held else held @ [ih_Get h]))"
| "ix_run ops (CallReturn k # cs) x held =
     (if k < length held
      then andThen (op_Return ops (held ! k) x) (\<lambda>x'.
        ix_run ops cs x' (take k held @ drop (Suc k) held))
      else ix_run ops cs x held)"

text \<open>What \<open>Next\<close> does to the sequence of available indices, for every indexer.\<close>

fun next_spec :: "size_t list \<Rightarrow> index_holder \<times> size_t list" where
  "next_spec [] = (IndexHolder_default, [])"
| "next_spec (i # is) = (IndexHolder i, is)"

lemma mset_remove_nth:
  assumes "k < length xs"
  shows "mset (take k xs @ drop (Suc k) xs) = mset xs - {#xs ! k#}"
proof -
  have "mset xs = mset (take k xs @ xs ! k # drop (Suc k) xs)"
    using id_take_nth_drop [OF assms] by simp
  then show ?thesis by simp
qed

section \<open>The contract\<close>

text \<open>
  \<open>avail x\<close> are the indices that can be handed out, the next one first. Where a returned
  index goes is left open: the mutex indexer puts it first, the concurrent indexer last.
  \<open>owned n x H\<close> says where the indices are: in the indexer or, as the multiset \<open>H\<close>,
  with its clients, each exactly once.
\<close>

locale indexer_contract =
  fixes ops :: "'x indexer_ops"
    and size_ok :: "size_t \<Rightarrow> bool"
    and inv :: "size_t \<Rightarrow> 'x \<Rightarrow> bool"
    and avail :: "'x \<Rightarrow> size_t list"
  assumes new_ok: "size_ok n \<Longrightarrow>
      \<exists>x. op_new ops n = Inr x \<and> inv n x \<and> avail x = all_indices n"
    and next_empty: "inv n x \<Longrightarrow> avail x = [] \<Longrightarrow>
      \<exists>x'. op_Next ops x = Inr (IndexHolder_default, x') \<and> inv n x' \<and> avail x' = []"
    and next_some: "inv n x \<Longrightarrow> avail x = i # is \<Longrightarrow>
      \<exists>x'. op_Next ops x = Inr (IndexHolder i, x') \<and> inv n x' \<and> avail x' = is"
    and return_ok: "inv n x \<Longrightarrow> i < n \<Longrightarrow> length (avail x) < unat n \<Longrightarrow>
      \<exists>x'. op_Return ops i x = Inr x' \<and> inv n x' \<and>
        mset (avail x') = add_mset i (mset (avail x))"
begin

definition owned :: "size_t \<Rightarrow> 'x \<Rightarrow> size_t multiset \<Rightarrow> bool" where
  "owned n x H \<longleftrightarrow> inv n x \<and> mset (avail x) + H = mset (all_indices n)"

lemma owned_sizes:
  assumes "owned n x H"
  shows "length (avail x) + size H = unat n"
proof -
  from assms have "size (mset (avail x) + H) = size (mset (all_indices n))"
    by (simp only: owned_def)
  then show ?thesis by simp
qed

lemma owned_subset: "owned n x H \<Longrightarrow> H \<subseteq># mset (all_indices n)"
  using mset_subset_eq_add_right [of H "mset (avail x)"] by (simp add: owned_def)

lemma owned_bound: "owned n x H \<Longrightarrow> i \<in># H \<Longrightarrow> i < n"
  using mset_subset_eqD [OF owned_subset] by (fastforce simp: set_all_indices)

lemma owned_once:
  assumes "owned n x H"
  shows "count H i \<le> 1"
proof -
  have "count H i \<le> count (mset (all_indices n)) i"
    using owned_subset [OF assms] by (rule mset_subset_eq_count)
  also have "\<dots> \<le> 1"
    using distinct_all_indices [of n] by (simp add: distinct_count_atmost_1)
  finally show ?thesis .
qed

lemma owned_distinct: "owned n x (mset held) \<Longrightarrow> distinct held"
  using owned_once [of n x "mset held"]
  by (auto simp: distinct_count_atmost_1 le_Suc_eq count_eq_zero_iff)

lemma new_owned:
  assumes "size_ok n"
  obtains x where "op_new ops n = Inr x" "owned n x {#}"
  using new_ok [OF assms] by (auto simp: owned_def)

lemma next_refines:
  assumes "inv n x"
  shows "\<exists>h x'. op_Next ops x = Inr (h, x') \<and> inv n x' \<and> (h, avail x') = next_spec (avail x)"
proof (cases "avail x")
  case Nil
  with next_empty [OF assms] show ?thesis by auto
next
  case (Cons i "is")
  with next_some [OF assms] show ?thesis by auto
qed

lemma next_owned:
  assumes own: "owned n x H"
  obtains (empty) x' where "op_Next ops x = Inr (IndexHolder_default, x')" "owned n x' H"
    "size H = unat n"
  | (some) i x' where "op_Next ops x = Inr (IndexHolder i, x')" "owned n x' (add_mset i H)"
    "i \<notin># H" "i < n" "size H < unat n"
proof (cases "avail x")
  case Nil
  with own next_empty [of n x] owned_sizes [OF own] empty show ?thesis
    by (auto simp: owned_def)
next
  case (Cons i "is")
  with own next_some [of n x i "is"] obtain x' where
    x': "op_Next ops x = Inr (IndexHolder i, x')" "owned n x' (add_mset i H)"
    by (auto simp: owned_def)
  have "i \<notin># H" using owned_once [OF x'(2), of i] by (simp add: count_eq_zero_iff)
  moreover have "i < n" using owned_bound [OF x'(2), of i] by simp
  moreover have "size H < unat n" using owned_sizes [OF own] Cons by simp
  ultimately show ?thesis using some x' by blast
qed

lemma return_owned:
  assumes own: "owned n x H" and i: "i \<in># H"
  obtains x' where "op_Return ops i x = Inr x'" "owned n x' (H - {#i#})"
proof -
  from i have "0 < size H" by (cases "H = {#}") (auto simp: nonempty_has_size)
  then have "length (avail x) < unat n" using owned_sizes [OF own] by linarith
  with return_ok [OF _ owned_bound [OF own i], of x] own obtain x' where
    x': "op_Return ops i x = Inr x'" "inv n x'" "mset (avail x') = add_mset i (mset (avail x))"
    by (auto simp: owned_def)
  have "mset (avail x') + (H - {#i#}) = mset (avail x) + add_mset i (H - {#i#})"
    by (simp add: x'(3))
  then have "owned n x' (H - {#i#})"
    using x'(2) own i by (simp add: owned_def)
  with x'(1) that show ?thesis by blast
qed

text \<open>What nobody holds is available.\<close>

lemma not_held_available:
  assumes "owned n x H" "i < n" "i \<notin># H"
  shows "i \<in> set (avail x)"
proof -
  have "i \<in># mset (avail x) + H" using assms(1,2) by (simp add: owned_def set_all_indices)
  with assms(3) show ?thesis by simp
qed

lemma owned_not_available:
  assumes own: "owned n x H" and i: "i \<in># H"
  shows "i \<notin> set (avail x)"
proof
  assume "i \<in> set (avail x)"
  then have av: "0 < count (mset (avail x)) i" by (simp only: count_greater_zero_iff set_mset_mset)
  have "mset (avail x) + H = mset (all_indices n)" using own by (simp only: owned_def)
  then have "count (mset (avail x)) i + count H i = count (mset (all_indices n)) i"
    by (metis count_union)
  moreover have "count (mset (all_indices n)) i \<le> 1"
    using distinct_all_indices [of n] by (simp only: distinct_count_atmost_1) simp
  moreover have "0 < count H i" using i by (simp only: count_greater_zero_iff)
  ultimately show False using av by linarith
qed

text \<open>A whole client history.\<close>

lemma run_owned:
  "owned n x (mset held) \<Longrightarrow>
    \<exists>x' held'. ix_run ops cs x held = Inr (x', held') \<and> owned n x' (mset held')"
proof (induction cs arbitrary: x held)
  case (Cons c cs)
  show ?case
  proof (cases c)
    case CallNext
    from Cons.prems show ?thesis
    proof (cases rule: next_owned)
      case (some i x')
      with Cons.IH [of x' "held @ [i]"] show ?thesis by (simp add: CallNext)
    qed (simp add: CallNext Cons.IH)
  next
    case (CallReturn k)
    show ?thesis
    proof (cases "k < length held")
      case True
      then have "held ! k \<in># mset held" by simp
      from return_owned [OF Cons.prems this] obtain x' where
        "op_Return ops (held ! k) x = Inr x'" "owned n x' (mset held - {#held ! k#})" .
      with Cons.IH [of x' "take k held @ drop (Suc k) held"] CallReturn True show ?thesis
        by (simp add: mset_remove_nth [symmetric])
    qed (use Cons CallReturn in simp)
  qed
qed auto

lemma history:
  assumes "size_ok n"
  shows "\<exists>x0 x held. op_new ops n = Inr x0 \<and> ix_run ops cs x0 [] = Inr (x, held) \<and>
    inv n x \<and> mset (avail x) + mset held = mset (all_indices n) \<and> distinct held"
proof -
  from new_owned [OF assms] obtain x0 where x0: "op_new ops n = Inr x0" "owned n x0 {#}" .
  with run_owned [of n x0 "[]" cs] obtain x held where
    run: "ix_run ops cs x0 [] = Inr (x, held)" "owned n x (mset held)" by auto
  then have "distinct held" using owned_distinct by blast
  with x0 run show ?thesis by (auto simp: owned_def)
qed

end

end
