(* ===== verification/MutexIndexer.thy ===== *)
theory MutexIndexer
  imports Indexer
begin

text \<open>
  The class \<open>MutexIndexer\<close> of \<open>src/MutexIndexer.h\<close>. The vector \<open>indices\<close>
  never changes its length; the indices from \<open>indexPos\<close> on are available. Both methods
  hold the mutex from their first to their last statement, so concurrent calls are a sequence
  of whole calls and a call is one function on the state.
\<close>

record mutex_indexer =
  mi_indices :: "size_t list"
  mi_indexPos :: size_t

text \<open>The constructor's loop, from \<open>i\<close> on.\<close>

function mi_fill :: "size_t \<Rightarrow> size_t \<Rightarrow> size_t list \<Rightarrow> size_t list" where
  "mi_fill i maxSize xs = (if i < maxSize then mi_fill (i + 1) maxSize (xs @ [i]) else xs)"
  by pat_completeness auto
termination
  by (relation "measure (\<lambda>(i, m, xs). unat m - unat i)")
    (auto simp: unat_inc word_less_nat_alt)

declare mi_fill.simps [simp del]

definition MutexIndexer_new :: "size_t \<Rightarrow> cxx_error + mutex_indexer" where
  "MutexIndexer_new maxSize = Inr \<lparr>mi_indices = mi_fill 0 maxSize [], mi_indexPos = 0\<rparr>"

definition mi_Next :: "mutex_indexer \<Rightarrow> cxx_error + index_holder \<times> mutex_indexer" where
  "mi_Next x =
     (if mi_indexPos x = vsize (mi_indices x) then Inr (IndexHolder_default, x)
      else andThen (vget (mi_indices x) (mi_indexPos x)) (\<lambda>index.
        Inr (IndexHolder index, x\<lparr>mi_indexPos := mi_indexPos x + 1\<rparr>)))"

definition mi_Return :: "size_t \<Rightarrow> mutex_indexer \<Rightarrow> cxx_error + mutex_indexer" where
  "mi_Return index x =
     (let pos = mi_indexPos x - 1 in
      andThen (vset (mi_indices x) pos index) (\<lambda>is.
        Inr (x\<lparr>mi_indexPos := pos, mi_indices := is\<rparr>)))"

section \<open>Invariant and abstraction\<close>

definition mi_inv :: "size_t \<Rightarrow> mutex_indexer \<Rightarrow> bool" where
  "mi_inv n x \<longleftrightarrow> length (mi_indices x) = unat n \<and> mi_indexPos x \<le> n"

definition mi_avail :: "mutex_indexer \<Rightarrow> size_t list" where
  "mi_avail x = drop (unat (mi_indexPos x)) (mi_indices x)"

lemma mi_fill_eq: "mi_fill i m xs = xs @ map of_nat [unat i..<unat m]"
proof (induction i m xs rule: mi_fill.induct)
  case (1 i m xs)
  show ?case
  proof (cases "i < m")
    case True
    then have "unat i < unat m" by (simp add: word_less_nat_alt)
    with True 1 show ?thesis
      by (subst mi_fill.simps) (simp add: unat_inc upt_Suc_Cons)
  next
    case False
    then show ?thesis by (subst mi_fill.simps) (simp add: word_less_nat_alt)
  qed
qed

lemma mi_new_ok:
  "\<exists>x. MutexIndexer_new n = Inr x \<and> mi_inv n x \<and> mi_avail x = all_indices n"
  by (simp add: MutexIndexer_new_def mi_inv_def mi_avail_def mi_fill_eq all_indices_def)

lemma mi_vsize: "mi_inv n x \<Longrightarrow> vsize (mi_indices x) = n"
  by (simp add: mi_inv_def vsize_def)

lemma mi_avail_length: "mi_inv n x \<Longrightarrow> length (mi_avail x) = unat n - unat (mi_indexPos x)"
  by (simp add: mi_inv_def mi_avail_def)

lemma mi_at_end:
  "mi_inv n x \<Longrightarrow> mi_avail x = [] \<longleftrightarrow> mi_indexPos x = vsize (mi_indices x)"
  using mi_vsize [of n x]
  by (auto simp: mi_inv_def mi_avail_def word_le_nat_alt word_unat_eq_iff)

lemma mi_Next_empty:
  "mi_inv n x \<Longrightarrow> mi_avail x = [] \<Longrightarrow> mi_Next x = Inr (IndexHolder_default, x)"
  by (simp add: mi_Next_def mi_at_end)

lemma mi_Next_some:
  assumes inv: "mi_inv n x" and av: "mi_avail x = i # is"
  shows "\<exists>x'. mi_Next x = Inr (IndexHolder i, x') \<and> mi_inv n x' \<and> mi_avail x' = is"
proof -
  from inv av have lt: "mi_indexPos x < n"
    using mi_avail_length [OF inv] by (simp add: word_less_nat_alt)
  with inv have lt': "unat (mi_indexPos x) < length (mi_indices x)"
    by (simp add: mi_inv_def word_less_nat_alt)
  have ne: "mi_indexPos x \<noteq> vsize (mi_indices x)"
    using lt mi_vsize [OF inv] by simp
  from av lt' have "mi_indices x ! unat (mi_indexPos x) = i"
    "drop (Suc (unat (mi_indexPos x))) (mi_indices x) = is"
    by (simp_all add: mi_avail_def Cons_nth_drop_Suc [symmetric])
  with ne lt lt' inv show ?thesis
    by (simp add: mi_Next_def mi_inv_def mi_avail_def unat_inc inc_le)
qed

lemma mi_Return_ok:
  assumes inv: "mi_inv n x" and room: "length (mi_avail x) < unat n"
  shows "\<exists>x'. mi_Return i x = Inr x' \<and> mi_inv n x' \<and> mi_avail x' = i # mi_avail x"
proof -
  let ?p = "mi_indexPos x"
  from inv room have pos: "0 < unat ?p" "unat ?p \<le> unat n"
    by (simp_all add: mi_inv_def mi_avail_def word_le_nat_alt)
  then have d: "unat (?p - 1) = unat ?p - 1"
    by (simp add: unat_dec word_less_nat_alt)
  with inv pos have lt: "unat (?p - 1) < length (mi_indices x)" by (simp add: mi_inv_def)
  have "drop (unat (?p - 1)) ((mi_indices x)[unat (?p - 1) := i]) = i # mi_avail x"
    using drop_list_update_cons [OF lt] d pos by (simp add: mi_avail_def)
  moreover have "?p - 1 \<le> n" using d pos by (simp add: word_le_nat_alt)
  ultimately show ?thesis
    using lt inv by (simp add: mi_Return_def mi_inv_def mi_avail_def Let_def)
qed

definition mutex_ops :: "mutex_indexer indexer_ops" where
  "mutex_ops = \<lparr>op_new = MutexIndexer_new, op_Next = mi_Next, op_Return = mi_Return\<rparr>"

interpretation mutex: indexer_contract mutex_ops "\<lambda>_. True" mi_inv mi_avail
proof unfold_locales
  fix n x i
  assume "mi_inv n x" "length (mi_avail x) < unat n"
  then show "\<exists>x'. op_Return mutex_ops i x = Inr x' \<and> mi_inv n x' \<and>
      mset (mi_avail x') = add_mset i (mset (mi_avail x))"
    using mi_Return_ok by (fastforce simp: mutex_ops_def)
qed (simp_all add: mutex_ops_def mi_new_ok mi_Next_empty mi_Next_some)

section \<open>What the indexer guarantees\<close>

text \<open>Whatever a client that only returns what it holds does, no call fails, no two of
  the indices it holds are equal, and the indices it holds together with those left in the
  indexer are exactly \<open>0, ..., n - 1\<close>.\<close>

lemma mutex_indexer_history:
  "\<exists>x0 x held. MutexIndexer_new n = Inr x0 \<and> ix_run mutex_ops cs x0 [] = Inr (x, held) \<and>
    mset (mi_avail x) + mset held = mset (all_indices n) \<and> distinct held"
  using mutex.history [OF TrueI, of n cs] by (auto simp: mutex_ops_def)

text \<open>C18: the indexer is a stack. \<open>Next\<close> pops the first available index, or gives an
  empty holder when there is none; \<open>Return\<close> pushes, as long as not all indices are
  available; both keep the representation invariant.\<close>

theorem mutex_indexer_stack:
  assumes "mi_inv n x"
  shows "(\<exists>h x'. mi_Next x = Inr (h, x') \<and> mi_inv n x' \<and> (h, mi_avail x') = next_spec (mi_avail x)) \<and>
    (length (mi_avail x) < unat n \<longrightarrow>
      (\<exists>x'. mi_Return i x = Inr x' \<and> mi_inv n x' \<and> mi_avail x' = i # mi_avail x))"
  using mutex.next_refines [OF assms] mi_Return_ok [OF assms] by (simp add: mutex_ops_def)

theorem mutex_indexer_stack_witness:
  "\<exists>x'. mi_Return 7 \<lparr>mi_indices = [3, 4], mi_indexPos = 1\<rparr> = Inr x' \<and> mi_avail x' = [7, 4]"
  using mutex_indexer_stack [of 2 "\<lparr>mi_indices = [3, 4], mi_indexPos = 1\<rparr>" 7]
  by (auto simp: mi_inv_def mi_avail_def)

text \<open>Returning the index just taken puts the indexer back into exactly the state it
  had: position and vector.\<close>

lemma mutex_indexer_roundtrip:
  assumes "mi_inv n x" "mi_Next x = Inr (h, x')" "\<not> ih_Empty h"
  shows "mi_Return (ih_Get h) x' = Inr x"
proof -
  let ?p = "mi_indexPos x"
  have "?p \<noteq> vsize (mi_indices x)" using assms(2,3) by (force simp: mi_Next_def)
  with assms(2) obtain v where v: "vget (mi_indices x) ?p = Inr v" "h = IndexHolder v"
    "x' = x\<lparr>mi_indexPos := ?p + 1\<rparr>"
    unfolding mi_Next_def by (cases "vget (mi_indices x) ?p") simp_all
  from v(1) have "unat ?p < length (mi_indices x)" "mi_indices x ! unat ?p = v"
    by (simp_all add: vget_def split: if_splits)
  then show ?thesis unfolding v(2,3) by (auto simp: mi_Return_def Let_def)
qed

text \<open>Returning an index although none is out underflows the position and writes
  outside the vector.\<close>

lemma mutex_indexer_over_return:
  assumes "mi_inv n x" "mi_avail x = mi_indices x"
  shows "mi_Return i x = Inl UndefinedBehaviour"
proof -
  have "unat (mi_indexPos x) \<le> unat n" "length (mi_indices x) = unat n"
    using assms(1) by (simp_all add: mi_inv_def word_le_nat_alt)
  moreover have "length (drop (unat (mi_indexPos x)) (mi_indices x)) = length (mi_indices x)"
    using assms(2) by (simp add: mi_avail_def)
  ultimately have "unat (mi_indexPos x) = 0" unfolding length_drop by linarith
  then have "mi_indexPos x = 0" by (simp add: unat_eq_zero)
  moreover have "unat (- 1 :: size_t) = 2 ^ 64 - 1"
    by (simp add: unsigned_minus_1_eq_mask mask_eq_exp_minus_1)
  moreover have "length (mi_indices x) \<le> 2 ^ 64 - 1"
    using \<open>length (mi_indices x) = unat n\<close> unat_lt_2_64 [of n] by simp
  ultimately show ?thesis by (simp add: mi_Return_def vset_out Let_def)
qed

end
