(* ===== verification/ConcurrentIndexer.thy ===== *)
theory ConcurrentIndexer
  imports Indexer
begin

text \<open>
  The class \<open>ConcurrentIndexer\<close> of \<open>src/ConcurrentIndexer.h\<close>: a ring of
  \<open>2 * poolSize\<close> slots, each holding an index plus one or \<open>UnusedPosition\<close>, between
  a read and a write position that run up to \<open>maxPositionSize\<close> and wrap to zero.

  The methods are written as the steps of a thread, one step per access to shared memory:
  \<open>ci_step\<close> is the code of \<open>Next\<close>, \<open>Return\<close> and \<open>WrapOnOverflow\<close>. Here a method
  runs alone (\<open>ci_run\<close>); the theory \<open>ConcurrentIndexer_Threads\<close> interleaves the
  same steps.
\<close>

section \<open>State and constructor\<close>

definition UnusedPosition :: size_t where
  "UnusedPosition = 0"

record ci =
  ci_readPos :: size_t
  ci_writePos :: size_t
  ci_indices :: "size_t list"
  ci_size :: size_t
  ci_maxPositionSize :: size_t

text \<open>The constructor's loop, from \<open>i\<close> on.\<close>

function ci_fill :: "size_t \<Rightarrow> size_t \<Rightarrow> size_t list \<Rightarrow> cxx_error + size_t list" where
  "ci_fill i poolSize is =
     (if i < poolSize then andThen (vset is i (i + 1)) (ci_fill (i + 1) poolSize) else Inr is)"
  by pat_completeness auto
termination
  by (relation "measure (\<lambda>(i, m, xs). unat m - unat i)")
    (auto simp: unat_inc word_less_nat_alt)

declare ci_fill.simps [simp del]

text \<open>\<open>max_size()\<close> of a vector of values of 8 bytes: the greatest number of them whose size in bytes
  is not over \<open>PTRDIFF_MAX\<close>. \<open>reserve\<close> throws \<open>length_error\<close> when asked for more.\<close>

definition vector_max_size :: size_t where
  "vector_max_size = 0x0FFFFFFFFFFFFFFF"

text \<open>\<open>- 1\<close> is \<open>std::numeric_limits<IndexSizeT>::max()\<close>.\<close>

definition ConcurrentIndexer_new :: "size_t \<Rightarrow> cxx_error + ci" where
  "ConcurrentIndexer_new poolSize =
     (let size = poolSize * 2 in
      if size = 0 then Inl DivisionByZero
      else
        (let maxPositionSize = (- 1 div size) * size in
         if vector_max_size < size then Inl LengthError
         else andThen (ci_fill 0 poolSize (replicate (unat size) UnusedPosition)) (\<lambda>is.
           Inr \<lparr>ci_readPos = 0, ci_writePos = poolSize, ci_indices = is, ci_size = size,
                ci_maxPositionSize = maxPositionSize\<rparr>)))"

section \<open>The methods, step by step\<close>

text \<open>
  \<open>compare_exchange_weak\<close> on the value \<open>cur\<close> of an atomic: the new value and whether it
  was modified. The weak form may fail although the values agree (\<open>spurious\<close>).
\<close>

definition compare_exchange_weak :: "bool \<Rightarrow> size_t \<Rightarrow> size_t \<Rightarrow> size_t \<Rightarrow> size_t \<times> bool" where
  "compare_exchange_weak spurious cur expected desired =
     (if cur = expected \<and> \<not> spurious then (desired, True) else (cur, False))"

text \<open>
  Where a thread is in \<open>Next\<close> (\<open>N_\<close>) or \<open>Return\<close> (\<open>R_\<close>), with its local
  variables: \<open>curReadPos\<close> or \<open>curWritePos\<close>, the slot \<open>curReadIndex\<close> or
  \<open>curWriteIndex\<close>, and the index read or to be written. \<open>N_Wrap\<close> and \<open>N_WrapCas\<close> are
  the load and the exchange of \<open>WrapOnOverflow(readPos, maxPositionSize)\<close>, and
  \<open>R_Wrap\<close> and \<open>R_WrapCas\<close> those of \<open>WrapOnOverflow(writePos, maxPositionSize)\<close>.
  \<open>Crashed\<close> is an access outside the vector.
\<close>

datatype ci_pc =
    N_Load
  | N_Wrap
  | N_WrapCas
  | N_LoadWrite size_t
  | N_Check size_t
  | N_Cas size_t
  | N_Read size_t
  | N_Clear size_t size_t
  | N_Done index_holder
  | R_Load size_t
  | R_Wrap size_t
  | R_WrapCas size_t
  | R_Cas size_t size_t
  | R_Spin size_t size_t
  | R_Store size_t size_t
  | R_Done
  | Crashed

fun ci_step :: "bool \<Rightarrow> ci \<Rightarrow> ci_pc \<Rightarrow> ci \<times> ci_pc" where
  "ci_step spurious s N_Load =
     (s, if ci_readPos s = ci_maxPositionSize s then N_Wrap else N_LoadWrite (ci_readPos s))"
| "ci_step spurious s N_Wrap =
     (s, if ci_readPos s = ci_maxPositionSize s then N_WrapCas else N_Load)"
| "ci_step spurious s N_WrapCas =
     (case compare_exchange_weak spurious (ci_readPos s) (ci_maxPositionSize s) 0 of
        (v, modified) \<Rightarrow> (s\<lparr>ci_readPos := v\<rparr>, if modified then N_Load else N_Wrap))"
| "ci_step spurious s (N_LoadWrite curReadPos) =
     (s, if curReadPos = ci_writePos s then N_Done IndexHolder_default else N_Check curReadPos)"
| "ci_step spurious s (N_Check curReadPos) =
     (s, case vget (ci_indices s) (curReadPos mod ci_size s) of
           Inl _ \<Rightarrow> Crashed
         | Inr v \<Rightarrow> if v = UnusedPosition then N_Done IndexHolder_default else N_Cas curReadPos)"
| "ci_step spurious s (N_Cas curReadPos) =
     (case compare_exchange_weak spurious (ci_readPos s) curReadPos (curReadPos + 1) of
        (v, modified) \<Rightarrow>
          (s\<lparr>ci_readPos := v\<rparr>, if modified then N_Read (curReadPos mod ci_size s) else N_Load))"
| "ci_step spurious s (N_Read curReadIndex) =
     (s, case vget (ci_indices s) curReadIndex of
           Inl _ \<Rightarrow> Crashed
         | Inr index \<Rightarrow>
             if index = UnusedPosition then N_Read curReadIndex else N_Clear curReadIndex index)"
| "ci_step spurious s (N_Clear curReadIndex index) =
     (case vset (ci_indices s) curReadIndex UnusedPosition of
        Inl _ \<Rightarrow> (s, Crashed)
      | Inr is \<Rightarrow> (s\<lparr>ci_indices := is\<rparr>, N_Done (IndexHolder (index - 1))))"
| "ci_step spurious s (R_Load index) =
     (s, if ci_writePos s = ci_maxPositionSize s then R_Wrap index else R_Cas index (ci_writePos s))"
| "ci_step spurious s (R_Wrap index) =
     (s, if ci_writePos s = ci_maxPositionSize s then R_WrapCas index else R_Load index)"
| "ci_step spurious s (R_WrapCas index) =
     (case compare_exchange_weak spurious (ci_writePos s) (ci_maxPositionSize s) 0 of
        (v, modified) \<Rightarrow> (s\<lparr>ci_writePos := v\<rparr>, if modified then R_Load index else R_Wrap index))"
| "ci_step spurious s (R_Cas index curWritePos) =
     (case compare_exchange_weak spurious (ci_writePos s) curWritePos (curWritePos + 1) of
        (v, modified) \<Rightarrow>
          (s\<lparr>ci_writePos := v\<rparr>,
           if modified then R_Spin index (curWritePos mod ci_size s) else R_Load index))"
| "ci_step spurious s (R_Spin index curWriteIndex) =
     (s, case vget (ci_indices s) curWriteIndex of
           Inl _ \<Rightarrow> Crashed
         | Inr v \<Rightarrow>
             if v \<noteq> UnusedPosition then R_Spin index curWriteIndex
             else R_Store index curWriteIndex)"
| "ci_step spurious s (R_Store index curWriteIndex) =
     (case vset (ci_indices s) curWriteIndex (index + 1) of
        Inl _ \<Rightarrow> (s, Crashed)
      | Inr is \<Rightarrow> (s\<lparr>ci_indices := is\<rparr>, R_Done))"
| "ci_step spurious s (N_Done h) = (s, N_Done h)"
| "ci_step spurious s R_Done = (s, R_Done)"
| "ci_step spurious s Crashed = (s, Crashed)"

fun ci_finished :: "ci_pc \<Rightarrow> bool" where
  "ci_finished (N_Done h) = True"
| "ci_finished R_Done = True"
| "ci_finished Crashed = True"
| "ci_finished _ = False"

text \<open>A thread that runs alone until its method ends; \<open>None\<close> when it never does.\<close>

partial_function (option) ci_run :: "ci \<Rightarrow> ci_pc \<Rightarrow> (ci \<times> ci_pc) option" where
  "ci_run s pc =
     (if ci_finished pc then Some (s, pc)
      else case ci_step False s pc of (s', pc') \<Rightarrow> ci_run s' pc')"

definition ci_Next :: "ci \<Rightarrow> cxx_error + index_holder \<times> ci" where
  "ci_Next s =
     (case ci_run s N_Load of
        None \<Rightarrow> Inl Diverges
      | Some (s', pc) \<Rightarrow> (case pc of N_Done h \<Rightarrow> Inr (h, s') | _ \<Rightarrow> Inl UndefinedBehaviour))"

definition ci_Return :: "size_t \<Rightarrow> ci \<Rightarrow> cxx_error + ci" where
  "ci_Return index s =
     (case ci_run s (R_Load index) of
        None \<Rightarrow> Inl Diverges
      | Some (s', pc) \<Rightarrow> (case pc of R_Done \<Rightarrow> Inr s' | _ \<Rightarrow> Inl UndefinedBehaviour))"

definition concurrent_ops :: "ci indexer_ops" where
  "concurrent_ops =
     \<lparr>op_new = ConcurrentIndexer_new, op_Next = ci_Next, op_Return = ci_Return\<rparr>"

lemma ci_run_finished [simp]: "ci_finished pc \<Longrightarrow> ci_run s pc = Some (s, pc)"
  by (simp add: ci_run.simps)

lemma ci_run_step:
  "\<not> ci_finished pc \<Longrightarrow> ci_step False s pc = (s', pc') \<Longrightarrow> ci_run s pc = ci_run s' pc'"
  by (simp add: ci_run.simps [of s pc])

section \<open>Ring arithmetic\<close>

text \<open>The number of slots, and the position at which counting starts over.\<close>

definition ring_size :: "size_t \<Rightarrow> nat" where
  "ring_size n = 2 * unat n"

definition max_pos :: "size_t \<Rightarrow> nat" where
  "max_pos n = (2 ^ 64 - 1) div ring_size n * ring_size n"

definition size_limit :: "size_t \<Rightarrow> bool" where
  "size_limit n \<longleftrightarrow> 0 < unat n \<and> unat n < 2 ^ 59"

lemma ring_facts:
  assumes "size_limit n"
  shows "0 < ring_size n" "unat n < ring_size n" "ring_size n \<le> max_pos n"
    "max_pos n < 2 ^ 64" "ring_size n dvd max_pos n" "0 < max_pos n"
proof -
  from assms show pos: "0 < ring_size n" "unat n < ring_size n"
    by (simp_all add: size_limit_def ring_size_def)
  have "ring_size n \<le> 2 ^ 64 - 1" using assms by (simp add: size_limit_def ring_size_def)
  then have "1 \<le> (2 ^ 64 - 1) div ring_size n" using pos by (simp add: div_greater_zero_iff Suc_le_eq)
  then show le: "ring_size n \<le> max_pos n" by (simp add: max_pos_def)
  have "max_pos n \<le> 2 ^ 64 - 1" unfolding max_pos_def by (rule div_times_less_eq_dividend)
  then show "max_pos n < 2 ^ 64" by simp
  show "ring_size n dvd max_pos n" by (simp add: max_pos_def)
  show "0 < max_pos n" using le pos by linarith
qed

definition ring_count :: "nat \<Rightarrow> nat \<Rightarrow> nat \<Rightarrow> nat" where
  "ring_count m r w = (w + m - r) mod m"

lemma ring_count_unique:
  assumes "r < m" "k < m" "w = (r + k) mod m"
  shows "ring_count m r w = k"
proof (cases "r + k < m")
  case True
  with assms show ?thesis by (simp add: ring_count_def)
next
  case False
  then have "w = r + k - m" using assms by (simp add: mod_if)
  with assms False show ?thesis by (simp add: ring_count_def)
qed

lemma ring_count_spec:
  assumes "r < m" "w < m"
  shows "w = (r + ring_count m r w) mod m" "ring_count m r w < m"
proof -
  show "ring_count m r w < m" using assms by (simp add: ring_count_def)
  have "(r + ring_count m r w) mod m = (r + (w + m - r)) mod m"
    by (simp add: ring_count_def mod_simps)
  also have "r + (w + m - r) = w + m" using assms by simp
  finally show "w = (r + ring_count m r w) mod m" using assms by simp
qed

lemma mod_shift:
  fixes s m :: nat
  assumes "s dvd m"
  shows "((a mod m) + j) mod s = (a + j) mod s"
  using mod_mod_cancel [OF assms, of a] by (metis mod_add_left_eq)

lemma slot_inj:
  fixes s :: nat
  assumes "(a + i) mod s = (a + j) mod s" "i < s" "j < s"
  shows "i = j"
proof -
  have *: "i = j" if "i \<le> j" "(a + j) mod s = (a + i) mod s" "j < s" for i j
  proof -
    have "s dvd j - i" using that mod_eq_dvd_iff_nat [of "a + i" "a + j" s] by simp
    with that show ?thesis by (auto dest: dvd_imp_le)
  qed
  show ?thesis
    using assms * [of i j] * [of j i] by (cases "i \<le> j") auto
qed

lemma ring_count_read:
  assumes "r < m" "w < m" "ring_count m r w = Suc k"
  shows "ring_count m (Suc r mod m) w = k"
proof -
  note spec = ring_count_spec [OF assms(1,2)]
  have "w = (Suc r mod m + k) mod m" using spec(1) assms(3) by (simp add: mod_simps)
  moreover have "Suc r mod m < m" "k < m" using assms(1,3) spec(2) by auto
  ultimately show ?thesis by (rule ring_count_unique [rotated -1])
qed

lemma ring_count_write:
  assumes "r < m" "w < m" "Suc (ring_count m r w) < m"
  shows "ring_count m r (Suc w mod m) = Suc (ring_count m r w)"
proof (rule ring_count_unique [OF assms(1,3)])
  have "Suc w mod m = Suc ((r + ring_count m r w) mod m) mod m"
    using ring_count_spec(1) [OF assms(1,2)] by simp
  then show "Suc w mod m = (r + Suc (ring_count m r w)) mod m" by (simp add: mod_simps)
qed

lemma ring_count_zero: "r < m \<Longrightarrow> ring_count m r r = 0"
  by (simp add: ring_count_def)

section \<open>Positions, slots and available indices\<close>

text \<open>
  Position \<open>maxPositionSize\<close> stands for position 0 until a thread wraps it. The slots are
  counted from the read position: slot 0 is the next to be read.
\<close>

definition ci_rpos :: "ci \<Rightarrow> nat" where
  "ci_rpos s = unat (ci_readPos s) mod unat (ci_maxPositionSize s)"

definition ci_wpos :: "ci \<Rightarrow> nat" where
  "ci_wpos s = unat (ci_writePos s) mod unat (ci_maxPositionSize s)"

definition ci_count :: "ci \<Rightarrow> nat" where
  "ci_count s = ring_count (unat (ci_maxPositionSize s)) (ci_rpos s) (ci_wpos s)"

definition ci_slot :: "ci \<Rightarrow> nat \<Rightarrow> nat" where
  "ci_slot s j = (ci_rpos s + j) mod length (ci_indices s)"

definition ci_avail :: "ci \<Rightarrow> size_t list" where
  "ci_avail s = map (\<lambda>j. ci_indices s ! ci_slot s j - 1) [0..<ci_count s]"

definition ci_shape :: "size_t \<Rightarrow> ci \<Rightarrow> bool" where
  "ci_shape n s \<longleftrightarrow> size_limit n \<and> unat (ci_size s) = ring_size n \<and>
     unat (ci_maxPositionSize s) = max_pos n \<and> length (ci_indices s) = ring_size n \<and>
     unat (ci_readPos s) \<le> max_pos n \<and> unat (ci_writePos s) \<le> max_pos n"

definition ci_inv :: "size_t \<Rightarrow> ci \<Rightarrow> bool" where
  "ci_inv n s \<longleftrightarrow> ci_shape n s \<and> ci_count s \<le> unat n \<and>
     (\<forall>j < ring_size n. ci_indices s ! ci_slot s j \<noteq> UnusedPosition \<longleftrightarrow> j < ci_count s)"

lemma ci_shape_facts:
  assumes "ci_shape n s"
  shows "0 < ring_size n" "unat n < ring_size n" "ring_size n \<le> max_pos n"
    "max_pos n < 2 ^ 64" "ring_size n dvd max_pos n" "0 < max_pos n"
    "unat (ci_maxPositionSize s) = max_pos n" "unat (ci_size s) = ring_size n"
    "length (ci_indices s) = ring_size n"
  using assms ring_facts [of n] by (simp_all add: ci_shape_def)

lemma ci_pos_bounds:
  assumes "ci_shape n s"
  shows "ci_rpos s < max_pos n" "ci_wpos s < max_pos n" "ci_count s < max_pos n"
    "ci_slot s j < ring_size n"
  using ci_shape_facts [OF assms] by (simp_all add: ci_rpos_def ci_wpos_def ci_count_def
      ci_slot_def ring_count_def)

text \<open>A position that is not \<open>maxPositionSize\<close> is its own residue, and so is its slot.\<close>

lemma ci_read_normal:
  assumes "ci_shape n s" "ci_readPos s \<noteq> ci_maxPositionSize s"
  shows "unat (ci_readPos s) < max_pos n" "ci_rpos s = unat (ci_readPos s)"
    "unat (ci_readPos s mod ci_size s) = ci_slot s 0"
proof -
  have "unat (ci_readPos s) \<noteq> max_pos n"
    using assms by (metis ci_shape_def word_unat_eq_iff)
  then show lt: "unat (ci_readPos s) < max_pos n" using assms(1) by (simp add: ci_shape_def)
  then show eq: "ci_rpos s = unat (ci_readPos s)"
    using assms(1) by (simp add: ci_rpos_def ci_shape_def)
  show "unat (ci_readPos s mod ci_size s) = ci_slot s 0"
    using assms(1) eq by (simp add: unat_mod ci_slot_def ci_shape_def)
qed

lemma ci_write_normal:
  assumes "ci_shape n s" "ci_writePos s \<noteq> ci_maxPositionSize s"
  shows "unat (ci_writePos s) < max_pos n" "ci_wpos s = unat (ci_writePos s)"
    "unat (ci_writePos s mod ci_size s) = ci_slot s (ci_count s)"
proof -
  have "unat (ci_writePos s) \<noteq> max_pos n"
    using assms by (metis ci_shape_def word_unat_eq_iff)
  then show lt: "unat (ci_writePos s) < max_pos n" using assms(1) by (simp add: ci_shape_def)
  then show eq: "ci_wpos s = unat (ci_writePos s)"
    using assms(1) by (simp add: ci_wpos_def ci_shape_def)
  note f = ci_shape_facts [OF assms(1)] and b = ci_pos_bounds [OF assms(1)]
  have "ci_wpos s = (ci_rpos s + ci_count s) mod max_pos n"
    using ring_count_spec(1) [OF b(1,2)] f(7) by (simp add: ci_count_def)
  then have "ci_wpos s mod ring_size n = (ci_rpos s + ci_count s) mod ring_size n"
    using mod_mod_cancel [OF f(5)] by simp
  then show "unat (ci_writePos s mod ci_size s) = ci_slot s (ci_count s)"
    using f eq by (simp add: unat_mod ci_slot_def)
qed

text \<open>Wrapping a position changes nothing that is counted.\<close>

lemma ci_wrap_read:
  assumes "ci_shape n s" "ci_readPos s = ci_maxPositionSize s"
  shows "ci_shape n (s\<lparr>ci_readPos := 0\<rparr>)" "ci_rpos (s\<lparr>ci_readPos := 0\<rparr>) = ci_rpos s"
  using assms by (simp_all add: ci_shape_def ci_rpos_def)

lemma ci_wrap_write:
  assumes "ci_shape n s" "ci_writePos s = ci_maxPositionSize s"
  shows "ci_shape n (s\<lparr>ci_writePos := 0\<rparr>)" "ci_wpos (s\<lparr>ci_writePos := 0\<rparr>) = ci_wpos s"
  using assms by (simp_all add: ci_shape_def ci_wpos_def)

text \<open>Advancing a position by one.\<close>

lemma ci_advance_read:
  assumes sh: "ci_shape n s" and nw: "ci_readPos s \<noteq> ci_maxPositionSize s"
    and c: "ci_count s = Suc k"
  defines "s' \<equiv> s\<lparr>ci_readPos := ci_readPos s + 1\<rparr>"
  shows "ci_shape n s'" "ci_count s' = k" "ci_slot s' j = ci_slot s (Suc j)"
proof -
  note f = ci_shape_facts [OF sh] and b = ci_pos_bounds [OF sh] and r = ci_read_normal [OF sh nw]
  have u: "unat (ci_readPos s + 1) = Suc (unat (ci_readPos s))"
    using r(1) f(4) by (rule unat_inc_bound)
  then show "ci_shape n s'" using sh r(1) by (simp add: ci_shape_def s'_def)
  have rp: "ci_rpos s' = Suc (ci_rpos s) mod max_pos n"
    using u r(2) f(7) by (simp add: ci_rpos_def s'_def)
  have wp: "ci_wpos s' = ci_wpos s" by (simp add: ci_wpos_def s'_def)
  show "ci_count s' = k"
    using ring_count_read [OF b(1,2), of k] c rp wp f(7) by (simp add: ci_count_def s'_def)
  show "ci_slot s' j = ci_slot s (Suc j)"
    using mod_shift [OF f(5), of "Suc (ci_rpos s)" j] f(9) rp by (simp add: ci_slot_def s'_def)
qed

lemma ci_advance_write:
  assumes sh: "ci_shape n s" and nw: "ci_writePos s \<noteq> ci_maxPositionSize s"
    and c: "Suc (ci_count s) < max_pos n"
  defines "s' \<equiv> s\<lparr>ci_writePos := ci_writePos s + 1\<rparr>"
  shows "ci_shape n s'" "ci_count s' = Suc (ci_count s)" "ci_slot s' j = ci_slot s j"
proof -
  note f = ci_shape_facts [OF sh] and b = ci_pos_bounds [OF sh] and w = ci_write_normal [OF sh nw]
  have u: "unat (ci_writePos s + 1) = Suc (unat (ci_writePos s))"
    using w(1) f(4) by (rule unat_inc_bound)
  then show "ci_shape n s'" using sh w(1) by (simp add: ci_shape_def s'_def)
  have wp: "ci_wpos s' = Suc (ci_wpos s) mod max_pos n"
    using u w(2) f(7) by (simp add: ci_wpos_def s'_def)
  have rp: "ci_rpos s' = ci_rpos s" by (simp add: ci_rpos_def s'_def)
  show "ci_count s' = Suc (ci_count s)"
    using ring_count_write [OF b(1,2)] c rp wp f(7) by (simp add: ci_count_def s'_def)
  show "ci_slot s' j = ci_slot s j" using rp by (simp add: ci_slot_def s'_def)
qed

lemma ci_slot_inj:
  "ci_shape n s \<Longrightarrow> i < ring_size n \<Longrightarrow> j < ring_size n \<Longrightarrow> ci_slot s i = ci_slot s j \<longleftrightarrow> i = j"
  using slot_inj [of "ci_rpos s" i "ring_size n" j] ci_shape_facts(9) [of n s]
  by (auto simp: ci_slot_def)

lemma ci_indices_update [simp]:
  "ci_rpos (s\<lparr>ci_indices := is\<rparr>) = ci_rpos s"
  "ci_wpos (s\<lparr>ci_indices := is\<rparr>) = ci_wpos s"
  "ci_count (s\<lparr>ci_indices := is\<rparr>) = ci_count s"
  by (simp_all add: ci_rpos_def ci_wpos_def ci_count_def)

lemma ci_slot_update [simp]:
  "length is = length (ci_indices s) \<Longrightarrow> ci_slot (s\<lparr>ci_indices := is\<rparr>) j = ci_slot s j"
  by (simp add: ci_slot_def)

lemma ci_slot_mod: "ci_shape n s \<Longrightarrow> ci_slot s (ring_size n) = ci_slot s 0"
  using ci_shape_facts(9) [of n s] by (simp add: ci_slot_def)

section \<open>A thread that runs alone\<close>

lemma ci_run_unfold:
  "\<not> ci_finished pc \<Longrightarrow> ci_run s pc = (case ci_step False s pc of (s', pc') \<Rightarrow> ci_run s' pc')"
  by (simp add: ci_run.simps [of s pc])

lemmas ci_run_eqs =
  ci_run_unfold [of N_Load, simplified]
  ci_run_unfold [of N_Wrap, simplified]
  ci_run_unfold [of N_WrapCas, simplified]
  ci_run_unfold [of "N_LoadWrite r" for r, simplified]
  ci_run_unfold [of "N_Check r" for r, simplified]
  ci_run_unfold [of "N_Cas r" for r, simplified]
  ci_run_unfold [of "N_Read p" for p, simplified]
  ci_run_unfold [of "N_Clear p v" for p v, simplified]
  ci_run_unfold [of "R_Load i" for i, simplified]
  ci_run_unfold [of "R_Wrap i" for i, simplified]
  ci_run_unfold [of "R_WrapCas i" for i, simplified]
  ci_run_unfold [of "R_Cas i w" for i w, simplified]
  ci_run_unfold [of "R_Spin i p" for i p, simplified]
  ci_run_unfold [of "R_Store i p" for i p, simplified]

lemma run_wrap_read:
  assumes "ci_inv n s"
  obtains s0 where "ci_run s N_Load = ci_run s0 (N_LoadWrite (ci_readPos s0))"
    "ci_inv n s0" "ci_readPos s0 \<noteq> ci_maxPositionSize s0" "ci_avail s0 = ci_avail s"
    "s0 = s \<or> ci_readPos s = ci_maxPositionSize s \<and> s0 = s\<lparr>ci_readPos := 0\<rparr>"
proof (cases "ci_readPos s = ci_maxPositionSize s")
  case True
  let ?s0 = "s\<lparr>ci_readPos := 0\<rparr>"
  from assms have sh: "ci_shape n s" by (simp add: ci_inv_def)
  have "unat (ci_maxPositionSize s) \<noteq> 0" using ci_shape_facts [OF sh] by simp
  then have nz: "0 \<noteq> ci_maxPositionSize s" by auto
  note w = ci_wrap_read [OF sh True]
  have same: "ci_count ?s0 = ci_count s" "ci_slot ?s0 j = ci_slot s j" for j
    using w(2) by (simp_all add: ci_count_def ci_wpos_def ci_slot_def)
  have "ci_inv n ?s0" using assms w(1) same by (simp add: ci_inv_def)
  moreover have "ci_avail ?s0 = ci_avail s" using same by (simp add: ci_avail_def)
  moreover have "ci_run s N_Load = ci_run ?s0 (N_LoadWrite 0)"
    using True nz by (simp add: ci_run_eqs compare_exchange_weak_def)
  ultimately show ?thesis using that [of ?s0] nz True by simp
next
  case False
  then have "ci_run s N_Load = ci_run s (N_LoadWrite (ci_readPos s))"
    by (simp add: ci_run_eqs)
  with that [of s] False assms show ?thesis by simp
qed

lemma ci_Next_empty:
  assumes inv: "ci_inv n s" and av: "ci_avail s = []"
  shows "\<exists>s'. ci_Next s = Inr (IndexHolder_default, s') \<and> ci_inv n s' \<and> ci_avail s' = []"
proof -
  from run_wrap_read [OF inv] obtain s0 where s0:
    "ci_run s N_Load = ci_run s0 (N_LoadWrite (ci_readPos s0))" "ci_inv n s0"
    "ci_readPos s0 \<noteq> ci_maxPositionSize s0" "ci_avail s0 = []" using av by metis
  then have sh: "ci_shape n s0" and c: "ci_count s0 = 0"
    by (simp_all add: ci_inv_def ci_avail_def)
  note r = ci_read_normal [OF sh s0(3)] and f = ci_shape_facts [OF sh]
  have "ci_indices s0 ! ci_slot s0 0 = UnusedPosition"
    using s0(2) c f(1) by (auto simp: ci_inv_def)
  moreover have "ci_slot s0 0 < length (ci_indices s0)" using f by (simp add: ci_slot_def)
  ultimately have "ci_run s0 (N_LoadWrite (ci_readPos s0)) = Some (s0, N_Done IndexHolder_default)"
    by (simp add: ci_run_eqs r)
  with s0 show ?thesis by (simp add: ci_Next_def)
qed

lemma ci_inv_consume:
  assumes inv: "ci_inv n s" and nw: "ci_readPos s \<noteq> ci_maxPositionSize s"
    and c: "ci_count s = Suc k"
  defines "s' \<equiv> s\<lparr>ci_readPos := ci_readPos s + 1,
    ci_indices := (ci_indices s)[ci_slot s 0 := UnusedPosition]\<rparr>"
  shows "ci_inv n s'" "ci_avail s = (ci_indices s ! ci_slot s 0 - 1) # ci_avail s'"
proof -
  from inv have sh: "ci_shape n s" by (simp add: ci_inv_def)
  note f = ci_shape_facts [OF sh] and adv = ci_advance_read [OF sh nw c]
  have s': "s' = s\<lparr>ci_readPos := ci_readPos s + 1\<rparr>\<lparr>ci_indices :=
    (ci_indices s)[ci_slot s 0 := UnusedPosition]\<rparr>" by (simp add: s'_def)
  have slot: "ci_slot s' j = ci_slot s (Suc j)" for j by (simp add: s' adv(3))
  have c': "ci_count s' = k" by (simp add: s' adv(2))
  have k: "Suc k \<le> unat n" using inv c by (simp add: ci_inv_def)
  have lt: "ci_slot s j < length (ci_indices s)" for j using f by (simp add: ci_slot_def)
  have val: "ci_indices s' ! ci_slot s' j =
      (if Suc j = ring_size n then UnusedPosition else ci_indices s ! ci_slot s (Suc j))"
    if "j < ring_size n" for j
  proof (cases "Suc j = ring_size n")
    case True
    then have "ci_slot s (Suc j) = ci_slot s 0" using ci_slot_mod [OF sh] by simp
    then show ?thesis using True lt by (simp add: slot) (simp add: s')
  next
    case False
    then have "ci_slot s (Suc j) \<noteq> ci_slot s 0"
      using that ci_slot_inj [OF sh, of "Suc j" 0] by simp
    then show ?thesis using False by (simp add: slot) (simp add: s')
  qed
  have "ci_indices s' ! ci_slot s' j \<noteq> UnusedPosition \<longleftrightarrow> j < k" if j: "j < ring_size n" for j
  proof (cases "Suc j = ring_size n")
    case True
    with k f(2) val [OF j] show ?thesis by simp
  next
    case False
    with j inv c val [OF j] show ?thesis by (simp add: ci_inv_def)
  qed
  then show "ci_inv n s'" using adv(1) c' k by (simp add: ci_inv_def) (simp add: s' ci_shape_def)
  have "ci_avail s = (ci_indices s ! ci_slot s 0 - 1) #
      map (\<lambda>j. ci_indices s ! ci_slot s (Suc j) - 1) [0..<k]"
    using c by (simp add: ci_avail_def upt_conv_Cons map_Suc_upt [symmetric] del: upt_Suc)
  moreover have "ci_indices s' ! ci_slot s' j = ci_indices s ! ci_slot s (Suc j)" if "j < k" for j
    using val [of j] that k f(2) by simp
  ultimately show "ci_avail s = (ci_indices s ! ci_slot s 0 - 1) # ci_avail s'"
    by (simp add: ci_avail_def c')
qed

lemma ci_Next_some:
  assumes inv: "ci_inv n s" and av: "ci_avail s = i # is"
  shows "\<exists>s'. ci_Next s = Inr (IndexHolder i, s') \<and> ci_inv n s' \<and> ci_avail s' = is"
proof -
  from run_wrap_read [OF inv] obtain s0 where s0:
    "ci_run s N_Load = ci_run s0 (N_LoadWrite (ci_readPos s0))" "ci_inv n s0"
    "ci_readPos s0 \<noteq> ci_maxPositionSize s0" "ci_avail s0 = i # is" using av by metis
  then have sh: "ci_shape n s0" by (simp add: ci_inv_def)
  have "ci_count s0 \<noteq> 0" using s0(4) by (cases "ci_count s0 = 0") (simp_all add: ci_avail_def)
  then obtain k where c: "ci_count s0 = Suc k" using not0_implies_Suc by blast
  note r = ci_read_normal [OF sh s0(3)] and f = ci_shape_facts [OF sh]
  note next' = ci_inv_consume [OF s0(2,3) c]
  have ne: "ci_readPos s0 \<noteq> ci_writePos s0"
  proof
    assume "ci_readPos s0 = ci_writePos s0"
    then have "ci_rpos s0 = ci_wpos s0" by (simp add: ci_rpos_def ci_wpos_def)
    then have "ci_count s0 = 0"
      using ring_count_zero ci_pos_bounds(1) [OF sh] f(7) by (simp add: ci_count_def)
    with c show False by simp
  qed
  have used: "ci_indices s0 ! ci_slot s0 0 \<noteq> UnusedPosition"
    using s0(2) c f(1) by (simp add: ci_inv_def)
  have lt: "ci_slot s0 0 < length (ci_indices s0)" using f by (simp add: ci_slot_def)
  have "ci_run s0 (N_LoadWrite (ci_readPos s0)) =
      Some (s0\<lparr>ci_readPos := ci_readPos s0 + 1,
              ci_indices := (ci_indices s0)[ci_slot s0 0 := UnusedPosition]\<rparr>,
            N_Done (IndexHolder (ci_indices s0 ! ci_slot s0 0 - 1)))"
    using ne used lt by (simp add: ci_run_eqs r compare_exchange_weak_def)
  with s0(1,4) next' show ?thesis by (simp add: ci_Next_def)
qed

lemma run_wrap_write:
  assumes "ci_inv n s"
  obtains s0 where "ci_run s (R_Load i) = ci_run s0 (R_Cas i (ci_writePos s0))"
    "ci_inv n s0" "ci_writePos s0 \<noteq> ci_maxPositionSize s0" "ci_avail s0 = ci_avail s"
    "s0 = s \<or> ci_writePos s = ci_maxPositionSize s \<and> s0 = s\<lparr>ci_writePos := 0\<rparr>"
proof (cases "ci_writePos s = ci_maxPositionSize s")
  case True
  let ?s0 = "s\<lparr>ci_writePos := 0\<rparr>"
  from assms have sh: "ci_shape n s" by (simp add: ci_inv_def)
  have "unat (ci_maxPositionSize s) \<noteq> 0" using ci_shape_facts [OF sh] by simp
  then have nz: "0 \<noteq> ci_maxPositionSize s" by auto
  note w = ci_wrap_write [OF sh True]
  have same: "ci_count ?s0 = ci_count s" "ci_slot ?s0 j = ci_slot s j" for j
    using w(2) by (simp_all add: ci_count_def ci_rpos_def ci_slot_def)
  have "ci_inv n ?s0" using assms w(1) same by (simp add: ci_inv_def)
  moreover have "ci_avail ?s0 = ci_avail s" using same by (simp add: ci_avail_def)
  moreover have "ci_run s (R_Load i) = ci_run ?s0 (R_Cas i 0)"
    using True nz by (simp add: ci_run_eqs compare_exchange_weak_def)
  ultimately show ?thesis using that [of ?s0] nz True by simp
next
  case False
  then have "ci_run s (R_Load i) = ci_run s (R_Cas i (ci_writePos s))"
    by (simp add: ci_run_eqs)
  with that [of s] False assms show ?thesis by simp
qed

lemma ci_inv_produce:
  assumes inv: "ci_inv n s" and nw: "ci_writePos s \<noteq> ci_maxPositionSize s"
    and c: "ci_count s < unat n" and i: "i + 1 \<noteq> 0"
  defines "s' \<equiv> s\<lparr>ci_writePos := ci_writePos s + 1,
    ci_indices := (ci_indices s)[ci_slot s (ci_count s) := i + 1]\<rparr>"
  shows "ci_inv n s'" "ci_avail s' = ci_avail s @ [i]"
proof -
  from inv have sh: "ci_shape n s" by (simp add: ci_inv_def)
  note f = ci_shape_facts [OF sh]
  have "Suc (ci_count s) < max_pos n" using c f by linarith
  note adv = ci_advance_write [OF sh nw this]
  have s': "s' = s\<lparr>ci_writePos := ci_writePos s + 1\<rparr>\<lparr>ci_indices :=
    (ci_indices s)[ci_slot s (ci_count s) := i + 1]\<rparr>" by (simp add: s'_def)
  have slot: "ci_slot s' j = ci_slot s j" for j by (simp add: s' adv(3))
  have c': "ci_count s' = Suc (ci_count s)" by (simp add: s' adv(2))
  have lt: "ci_slot s j < length (ci_indices s)" for j using f by (simp add: ci_slot_def)
  have cS: "ci_count s < ring_size n" using c f by linarith
  have val: "ci_indices s' ! ci_slot s' j =
      (if j = ci_count s then i + 1 else ci_indices s ! ci_slot s j)" if "j < ring_size n" for j
  proof (cases "j = ci_count s")
    case True
    then show ?thesis using lt by (simp add: slot) (simp add: s')
  next
    case False
    then have "ci_slot s j \<noteq> ci_slot s (ci_count s)"
      using that cS ci_slot_inj [OF sh] by simp
    then show ?thesis using False by (simp add: slot) (simp add: s')
  qed
  have "ci_indices s' ! ci_slot s' j \<noteq> UnusedPosition \<longleftrightarrow> j < Suc (ci_count s)"
    if j: "j < ring_size n" for j
    using inv i j val [OF j] by (auto simp: ci_inv_def UnusedPosition_def less_Suc_eq)
  then show "ci_inv n s'"
    using adv(1) c' c by (simp add: ci_inv_def) (simp add: s' ci_shape_def)
  have "ci_indices s' ! ci_slot s' j = ci_indices s ! ci_slot s j" if "j < ci_count s" for j
    using val [of j] that cS by simp
  moreover have "ci_indices s' ! ci_slot s' (ci_count s) = i + 1" using val [OF cS] by simp
  ultimately show "ci_avail s' = ci_avail s @ [i]" by (simp add: ci_avail_def c')
qed

lemma ci_Return_ok:
  assumes inv: "ci_inv n s" and i: "i < n" and room: "length (ci_avail s) < unat n"
  shows "\<exists>s'. ci_Return i s = Inr s' \<and> ci_inv n s' \<and> ci_avail s' = ci_avail s @ [i]"
proof -
  from run_wrap_write [OF inv, of i] obtain s0 where s0:
    "ci_run s (R_Load i) = ci_run s0 (R_Cas i (ci_writePos s0))" "ci_inv n s0"
    "ci_writePos s0 \<noteq> ci_maxPositionSize s0" "ci_avail s0 = ci_avail s" by metis
  then have sh: "ci_shape n s0" by (simp add: ci_inv_def)
  have "length (ci_avail s0) < unat n" using room s0(4) by simp
  then have c: "ci_count s0 < unat n" by (simp add: ci_avail_def)
  have i1: "i + 1 \<noteq> 0"
  proof -
    have "unat (i + 1) = Suc (unat i)" using i by (rule unat_inc)
    then show ?thesis by auto
  qed
  note w = ci_write_normal [OF sh s0(3)] and f = ci_shape_facts [OF sh]
  note next' = ci_inv_produce [OF s0(2,3) c i1]
  have unused: "ci_indices s0 ! ci_slot s0 (ci_count s0) = UnusedPosition"
    using s0(2) c f(2) by (metis ci_inv_def less_irrefl less_trans)
  have lt: "ci_slot s0 (ci_count s0) < length (ci_indices s0)" using f by (simp add: ci_slot_def)
  have "ci_run s0 (R_Cas i (ci_writePos s0)) =
      Some (s0\<lparr>ci_writePos := ci_writePos s0 + 1,
              ci_indices := (ci_indices s0)[ci_slot s0 (ci_count s0) := i + 1]\<rparr>, R_Done)"
    using unused lt by (simp add: ci_run_eqs w compare_exchange_weak_def)
  with s0(1,4) next' show ?thesis by (simp add: ci_Return_def)
qed

section \<open>The constructor\<close>

lemma ci_fill_eq:
  "unat m \<le> length xs \<Longrightarrow> ci_fill i m xs =
    Inr (take (unat i) xs @ map (\<lambda>k. of_nat k + 1) [unat i..<unat m] @ drop (max (unat i) (unat m)) xs)"
proof (induction i m xs rule: ci_fill.induct)
  case (1 i m xs)
  show ?case
  proof (cases "i < m")
    case True
    then have lt: "unat i < unat m" by (simp add: word_less_nat_alt)
    with True 1 have "ci_fill i m xs = Inr (take (Suc (unat i)) (xs[unat i := i + 1]) @
        map (\<lambda>k. of_nat k + 1) [Suc (unat i)..<unat m] @ drop (unat m) (xs[unat i := i + 1]))"
      by (subst ci_fill.simps) (simp add: unat_inc)
    with lt 1(2) show ?thesis
      by (simp add: take_Suc_conv_app_nth upt_conv_Cons max_def del: upt_Suc)
  next
    case False
    then show ?thesis by (subst ci_fill.simps) (simp add: word_less_nat_alt)
  qed
qed

lemma unat_double: "size_limit n \<Longrightarrow> unat (n * 2) = ring_size n"
  by (simp add: size_limit_def ring_size_def unat_word_ariths)

lemma unat_max_pos: "size_limit n \<Longrightarrow> unat ((- 1 div (n * 2)) * (n * 2)) = max_pos n"
proof -
  assume n: "size_limit n"
  define d where "d = n * 2"
  have d: "unat d = ring_size n" using unat_double [OF n] by (simp add: d_def)
  have m1: "unat (- 1 :: size_t) = 2 ^ 64 - 1"
    by (simp add: unsigned_minus_1_eq_mask mask_eq_exp_minus_1)
  have lt: "(2 ^ 64 - 1) div ring_size n * ring_size n < 2 ^ 64"
    using ring_facts(4) [OF n] by (simp add: max_pos_def)
  have "unat ((- 1 div d) * d) = unat (- 1 div d) * unat d mod 2 ^ 64"
    by (simp add: unat_word_ariths)
  also have "unat (- 1 div d) = (2 ^ 64 - 1) div ring_size n"
    by (simp only: unat_div m1 d)
  finally show ?thesis using lt by (simp add: d_def [symmetric] d max_pos_def)
qed

lemma ci_new_eq:
  assumes n: "size_limit n"
  shows "ConcurrentIndexer_new n =
    Inr \<lparr>ci_readPos = 0, ci_writePos = n,
      ci_indices = map (\<lambda>k. of_nat k + 1) [0..<unat n] @ replicate (unat n) UnusedPosition,
      ci_size = n * 2, ci_maxPositionSize = (- 1 div (n * 2)) * (n * 2)\<rparr>"
proof -
  have "n * 2 \<noteq> 0" using unat_double [OF n] ring_facts(1) [OF n] by (metis unat_0 less_irrefl)
  moreover have "ci_fill 0 n (replicate (unat (n * 2)) UnusedPosition) =
      Inr (map (\<lambda>k. of_nat k + 1) [0..<unat n] @ replicate (unat n) UnusedPosition)"
    using unat_double [OF n] by (simp add: ci_fill_eq ring_size_def)
  moreover have "\<not> vector_max_size < n * 2"
    using unat_double [OF n] n by (simp add: word_less_nat_alt vector_max_size_def size_limit_def ring_size_def)
  ultimately show ?thesis by (simp add: ConcurrentIndexer_new_def Let_def)
qed

lemma ci_new_ok:
  assumes n: "size_limit n"
  shows "\<exists>s. ConcurrentIndexer_new n = Inr s \<and> ci_inv n s \<and> ci_avail s = all_indices n"
proof -
  let ?is = "map (\<lambda>k. of_nat k + 1) [0..<unat n] @ replicate (unat n) UnusedPosition"
  define s where "s = \<lparr>ci_readPos = 0, ci_writePos = n, ci_indices = ?is, ci_size = n * 2,
    ci_maxPositionSize = (- 1 div (n * 2)) * (n * 2)\<rparr>"
  note f = ring_facts [OF n]
  have sh: "ci_shape n s"
    using n f unat_double [OF n] unat_max_pos [OF n]
    by (simp add: ci_shape_def s_def ring_size_def)
  have "unat n < max_pos n" using f by linarith
  then have c: "ci_count s = unat n"
    using unat_max_pos [OF n] by (simp add: ci_count_def ci_rpos_def ci_wpos_def s_def ring_count_def)
  have slot: "ci_slot s j = j" if "j < ring_size n" for j
    using that by (simp add: ci_slot_def ci_rpos_def s_def ring_size_def)
  have val: "ci_indices s ! j = (if j < unat n then of_nat j + 1 else UnusedPosition)"
    if "j < ring_size n" for j
    using that by (simp add: s_def nth_append ring_size_def)
  have nz: "(of_nat j :: size_t) + 1 \<noteq> 0" if "j < unat n" for j
  proof -
    have "unat (of_nat j + 1 :: size_t) = Suc j"
      using that n unat_inc_bound [of "of_nat j" "2 ^ 59"] by (simp add: size_limit_def)
    then show ?thesis by (metis unat_0 nat.distinct(1))
  qed
  have "ci_inv n s"
    using sh c slot val nz by (simp add: ci_inv_def UnusedPosition_def)
  moreover have "ci_avail s = all_indices n"
    using c slot val f(2) by (simp add: ci_avail_def all_indices_def)
  ultimately show ?thesis using ci_new_eq [OF n] by (simp add: s_def)
qed

interpretation concurrent: indexer_contract concurrent_ops size_limit ci_inv ci_avail
proof unfold_locales
  fix n x i
  assume "ci_inv n x" "i < n" "length (ci_avail x) < unat n"
  from ci_Return_ok [OF this] show "\<exists>x'. op_Return concurrent_ops i x = Inr x' \<and> ci_inv n x' \<and>
      mset (ci_avail x') = add_mset i (mset (ci_avail x))"
    by (auto simp: concurrent_ops_def)
qed (simp_all add: concurrent_ops_def ci_new_ok ci_Next_empty ci_Next_some)

section \<open>What the indexer guarantees to one thread\<close>

text \<open>The constructor for sizes whose double does not fit.\<close>

lemma ci_fill_out:
  "length xs < unat m \<Longrightarrow> unat i \<le> length xs \<Longrightarrow> ci_fill i m xs = Inl UndefinedBehaviour"
proof (induction i m xs rule: ci_fill.induct)
  case (1 i m xs)
  then have lt: "i < m" by (simp add: word_less_nat_alt)
  show ?case
  proof (cases "unat i < length xs")
    case True
    with lt 1(1) [of "xs[unat i := i + 1]"] 1(2) show ?thesis
      by (subst ci_fill.simps) (simp add: unat_inc)
  next
    case False
    with lt show ?thesis by (subst ci_fill.simps) (simp add: vset_out)
  qed
qed

lemma powers: "(2 :: nat) ^ 59 = 576460752303423488" "(2 :: nat) ^ 60 = 1152921504606846976"
  "(2 :: nat) ^ 63 = 9223372036854775808" "(2 :: nat) ^ 64 = 18446744073709551616"
  by simp_all

lemma unat_twice: "unat (n * 2 :: size_t) = unat n * 2 mod 2 ^ 64"
  by (simp add: unat_word_ariths)

lemma unat_twice_wraps: "2 ^ 63 \<le> unat n \<Longrightarrow> unat (n * 2 :: size_t) = unat n * 2 - 2 ^ 64"
proof -
  assume "2 ^ 63 \<le> unat n"
  then have le: "2 ^ 64 \<le> unat n * 2" by simp
  have "unat n * 2 - 2 ^ 64 < 2 ^ 64" using unat_lt_2_64 [of n] unfolding powers by linarith
  then show ?thesis unfolding unat_twice le_mod_geq [OF le] by (rule mod_less)
qed

lemma unat_max_size: "unat vector_max_size = 2 ^ 60 - 1"
  by (simp add: vector_max_size_def)

lemma too_long: "vector_max_size < n * 2 \<longleftrightarrow> 2 ^ 60 \<le> unat n * 2 mod 2 ^ 64"
  unfolding word_less_nat_alt unat_max_size unat_twice by (simp only: powers) linarith

lemma ci_new_wraps:
  assumes "2 ^ 63 < unat n" "\<not> vector_max_size < n * 2"
  shows "ConcurrentIndexer_new n = Inl UndefinedBehaviour"
proof -
  have sz: "unat (n * 2) = unat n * 2 - 2 ^ 64" by (rule unat_twice_wraps) (use assms(1) in linarith)
  have "0 < unat (n * 2)" using assms(1) sz unfolding powers by linarith
  then have "n * 2 \<noteq> 0" by auto
  moreover have "unat (n * 2) < unat n" using assms(1) sz unat_lt_2_64 [of n] unfolding powers by linarith
  ultimately show ?thesis using assms(2) by (simp add: ConcurrentIndexer_new_def Let_def ci_fill_out)
qed

text \<open>C35: what the constructor does with each size. For 0, which nothing rejects, it divides by
  zero, as for \<open>2 ^ 63\<close>, whose double wraps to zero. If the double, which may have wrapped, is more
  than a vector can hold, \<open>reserve\<close> throws \<open>length_error\<close>. If the double has wrapped to a size that
  a vector can hold, the loop writes outside it. For all other sizes, those from 1 to \<open>2 ^ 59 - 1\<close>,
  the indexer has all indices in order.\<close>

theorem concurrent_indexer_constructor:
  "if unat n = 0 \<or> unat n = 2 ^ 63 then ConcurrentIndexer_new n = Inl DivisionByZero
   else if 2 ^ 60 \<le> unat n * 2 mod 2 ^ 64 then ConcurrentIndexer_new n = Inl LengthError
   else if 2 ^ 63 < unat n then ConcurrentIndexer_new n = Inl UndefinedBehaviour
   else unat n < 2 ^ 59 \<and>
     (\<exists>x. ConcurrentIndexer_new n = Inr x \<and> ci_inv n x \<and> ci_avail x = all_indices n)"
proof (cases "unat n = 0 \<or> unat n = 2 ^ 63")
  case True
  then have "unat (n * 2) = 0" unfolding unat_twice by (elim disjE) simp_all
  then have "n * 2 = 0" by (simp only: unat_eq_zero)
  with True show ?thesis by (simp add: ConcurrentIndexer_new_def)
next
  case False
  note size = this
  show ?thesis
  proof (cases "vector_max_size < n * 2")
    case True
    then have "n * 2 \<noteq> 0" by auto
    with True have "ConcurrentIndexer_new n = Inl LengthError"
      by (simp add: ConcurrentIndexer_new_def Let_def)
    with size True [unfolded too_long] show ?thesis by (simp only: if_True if_False)
  next
    case False
    show ?thesis
    proof (cases "2 ^ 63 < unat n")
      case True
      with ci_new_wraps [OF this False] False [unfolded too_long] size show ?thesis
        by (simp only: if_True if_False)
    next
      case le: False
      then have "unat n * 2 mod 2 ^ 64 = unat n * 2" using size unfolding powers by (intro mod_less) linarith
      with False [unfolded too_long] have lt: "unat n < 2 ^ 59" unfolding powers by linarith
      moreover have "size_limit n" using size lt by (auto simp: size_limit_def)
      ultimately show ?thesis
        using ci_new_ok le False [unfolded too_long] size by (simp only: if_False)
    qed
  qed
qed

text \<open>C17: the indexer is a first-in first-out queue. From every state of the representation
  invariant, positions at the point of wrapping included, \<open>Next\<close> returns the oldest
  available index or an empty holder and \<open>Return\<close> appends; neither loops for ever.\<close>

theorem concurrent_indexer_queue:
  assumes "ci_inv n x"
  shows "(\<exists>h x'. ci_Next x = Inr (h, x') \<and> ci_inv n x' \<and> (h, ci_avail x') = next_spec (ci_avail x)) \<and>
    (i < n \<and> length (ci_avail x) < unat n \<longrightarrow>
      (\<exists>x'. ci_Return i x = Inr x' \<and> ci_inv n x' \<and> ci_avail x' = ci_avail x @ [i]))"
  using concurrent.next_refines [OF assms] ci_Return_ok [OF assms, of i]
  by (simp add: concurrent_ops_def)

theorem concurrent_indexer_queue_witness:
  "\<exists>h x'. ci_Next \<lparr>ci_readPos = 18446744073709551614, ci_writePos = 1, ci_indices = [1, 0],
      ci_size = 2, ci_maxPositionSize = 18446744073709551614\<rparr> = Inr (h, x') \<and> h = IndexHolder 0"
proof -
  let ?x = "\<lparr>ci_readPos = 18446744073709551614, ci_writePos = 1, ci_indices = [1, 0],
    ci_size = 2, ci_maxPositionSize = 18446744073709551614\<rparr> :: ci"
  have facts: "size_limit 1" "ring_size 1 = 2" "max_pos 1 = 18446744073709551614"
    by (simp_all add: size_limit_def ring_size_def max_pos_def)
  have c: "ci_count ?x = 1" "ci_rpos ?x = 0"
    by (simp_all add: ci_count_def ci_rpos_def ci_wpos_def ring_count_def)
  have "ci_shape 1 ?x" using facts by (simp add: ci_shape_def)
  moreover have "(ci_indices ?x ! ci_slot ?x j \<noteq> UnusedPosition) = (j < 1)" if "j < 2" for j
  proof -
    have "j = 0 \<or> j = 1" using that by auto
    then show ?thesis by (auto simp: ci_slot_def c UnusedPosition_def)
  qed
  ultimately have "ci_inv 1 ?x" using facts c by (simp add: ci_inv_def)
  moreover have "ci_avail ?x = [0]" using c by (simp add: ci_avail_def ci_slot_def)
  ultimately show ?thesis using concurrent_indexer_queue [of 1 ?x 0] by auto
qed

text \<open>Whatever a single thread that only returns what it holds does, no call fails or
  spins for ever, the indices it holds are distinct, and none is lost.\<close>

lemma concurrent_indexer_history:
  assumes "size_limit n"
  shows "\<exists>x0 x held. ConcurrentIndexer_new n = Inr x0 \<and>
    ix_run concurrent_ops cs x0 [] = Inr (x, held) \<and>
    mset (ci_avail x) + mset held = mset (all_indices n) \<and> distinct held"
  using concurrent.history [OF assms, of cs] by (auto simp: concurrent_ops_def)

end
