(* ===== verification/PoolItem.thy ===== *)
theory PoolItem
  imports IndexHolder
begin

text \<open>
  The class template \<open>PoolItem\<close> of \<open>src/PoolItem.h\<close>: the handle to a pooled item
  that a client holds, and the callback its destructor runs. \<open>'p\<close> is the type of non-null
  item pointers (\<open>None\<close> is \<open>nullptr\<close>) and \<open>'c\<close> the type of callback closures.
  Copying and assigning are deleted in the source, so a handle is only constructed, moved from
  and destroyed.
\<close>

datatype 'c item_callback = NoOpItemDestroyCallback | Callback 'c

record ('c, 'p) pool_item =
  onDestroyCallback :: "'c item_callback"
  pi_item :: "'p option"
  pi_index :: size_t
  pi_empty :: bool

definition PoolItem :: "'c item_callback \<Rightarrow> 'p option \<Rightarrow> size_t \<Rightarrow> ('c, 'p) pool_item" where
  "PoolItem onDestroyCb poolItem poolIndex =
     \<lparr>onDestroyCallback = onDestroyCb, pi_item = poolItem, pi_index = poolIndex,
      pi_empty = (poolItem = None)\<rparr>"

definition PoolItem_default :: "('c, 'p) pool_item" where
  "PoolItem_default = PoolItem NoOpItemDestroyCallback None 0"

text \<open>The move constructor: the new handle and what is left of the old one.\<close>

definition PoolItem_move ::
    "('c, 'p) pool_item \<Rightarrow> ('c, 'p) pool_item \<times> ('c, 'p) pool_item" where
  "PoolItem_move movedPoolItem =
     (\<lparr>onDestroyCallback = onDestroyCallback movedPoolItem, pi_item = pi_item movedPoolItem,
       pi_index = pi_index movedPoolItem, pi_empty = pi_empty movedPoolItem\<rparr>,
      movedPoolItem\<lparr>pi_item := None, pi_empty := True,
        onDestroyCallback := NoOpItemDestroyCallback\<rparr>)"

definition pi_Empty :: "('c, 'p) pool_item \<Rightarrow> bool" where
  "pi_Empty it = pi_empty it"

definition pi_Get :: "('c, 'p) pool_item \<Rightarrow> 'p option" where
  "pi_Get it = pi_item it"

definition pi_PoolIndex :: "('c, 'p) pool_item \<Rightarrow> size_t" where
  "pi_PoolIndex it = pi_index it"

text \<open>
  The destructor runs the callback on the handle. \<open>invoke\<close> is what a closure does to the
  program state \<open>'s\<close>.
\<close>

definition PoolItem_destroy ::
    "('c \<Rightarrow> ('c, 'p) pool_item \<Rightarrow> 's \<Rightarrow> 'e + 's) \<Rightarrow> ('c, 'p) pool_item \<Rightarrow> 's \<Rightarrow> 'e + 's" where
  "PoolItem_destroy invoke it s =
     (case onDestroyCallback it of
        NoOpItemDestroyCallback \<Rightarrow> Inr s
      | Callback c \<Rightarrow> invoke c it s)"

lemmas pool_item_defs =
  PoolItem_def PoolItem_default_def PoolItem_move_def pi_Empty_def pi_Get_def pi_PoolIndex_def

lemma PoolItem_simps [simp]:
  "onDestroyCallback (PoolItem c p i) = c"
  "pi_item (PoolItem c p i) = p"
  "pi_index (PoolItem c p i) = i"
  "pi_empty (PoolItem c p i) \<longleftrightarrow> p = None"
  by (simp_all add: PoolItem_def)

lemma PoolItem_default_simps [simp]:
  "onDestroyCallback PoolItem_default = NoOpItemDestroyCallback"
  "pi_item PoolItem_default = None"
  "pi_empty PoolItem_default"
  by (simp_all add: PoolItem_default_def)

lemma PoolItem_move_new [simp]: "fst (PoolItem_move it) = it"
  by (simp add: PoolItem_move_def)

lemma PoolItem_move_old [simp]:
  "onDestroyCallback (snd (PoolItem_move it)) = NoOpItemDestroyCallback"
  "pi_item (snd (PoolItem_move it)) = None"
  "pi_empty (snd (PoolItem_move it))"
  "pi_index (snd (PoolItem_move it)) = pi_index it"
  by (simp_all add: PoolItem_move_def)

lemma destroy_NoOp [simp]:
  "onDestroyCallback it = NoOpItemDestroyCallback \<Longrightarrow> PoolItem_destroy invoke it s = Inr s"
  by (simp add: PoolItem_destroy_def)




lemma andThen_Inr [simp]: "andThen r Inr = r"
  by (simp add: andThen_def split: sum.splits)




section \<open>What a handle guarantees\<close>




text \<open>
  The destructor's comment says that the callback only runs if an item is held. The code does
  not test that: a handle made with a callback and no item is empty, and runs its callback.
\<close>

lemma empty_handle_runs_callback:
  "pi_Empty (PoolItem (Callback c) None i)"
  "PoolItem_destroy invoke (PoolItem (Callback c) None i) s = invoke c (PoolItem (Callback c) None i) s"
  by (simp_all add: pi_Empty_def PoolItem_destroy_def)

end
