(* ===== verification/Pool.thy ===== *)
theory Pool
  imports Indexer PoolItem
begin

text \<open>
  The class template \<open>Pool\<close> of \<open>src/Pool.h\<close>, behind \<open>StaticPool\<close> and
  \<open>RuntimePool\<close>: a fixed array of items and an indexer that says which are free. The
  definitions take the indexer's operations as an argument, as the class takes its template
  parameter. The theory \<open>PoolInstances\<close> proves the class correct, once for every indexer that
  keeps the contract.
\<close>

section \<open>The class\<close>

text \<open>
  \<open>IsResetableType\<close> decides at compile time whether the item type has a \<open>Reset()\<close>
  method; if so that method is used and the custom callback is not.
\<close>

datatype 'a item_type = Resetable "'a \<Rightarrow> 'a" | NotResetable

record ('a, 'x) pool =
  pl_customResetCallback :: "'a \<Rightarrow> 'a"
  pl_items :: "'a list"
  pl_indexer :: 'x

definition InvokeReset :: "'a item_type \<Rightarrow> ('a, 'x) pool \<Rightarrow> 'a \<Rightarrow> 'a" where
  "InvokeReset ty p item =
     (case ty of Resetable Reset \<Rightarrow> Reset item | NotResetable \<Rightarrow> pl_customResetCallback p item)"

text \<open>
  The constructor taking a size appends that many default-constructed items (\<open>dflt\<close>) to the
  empty container. The one without keeps the container as it is initialised: \<open>FixedPoolSize\<close>
  default items in a \<open>std::array\<close>. The indexer is built first, from the same size.
\<close>

function pl_emplace :: "size_t \<Rightarrow> size_t \<Rightarrow> 'a \<Rightarrow> 'a list \<Rightarrow> 'a list" where
  "pl_emplace i numItems dflt items =
     (if i < numItems then pl_emplace (i + 1) numItems dflt (items @ [dflt]) else items)"
  by pat_completeness auto
termination
  by (relation "measure (\<lambda>(i, m, d, xs). unat m - unat i)")
    (auto simp: unat_inc word_less_nat_alt)

declare pl_emplace.simps [simp del]

definition Pool_sized ::
    "'x indexer_ops \<Rightarrow> 'a \<Rightarrow> size_t \<Rightarrow> cxx_error + ('a, 'x) pool" where
  "Pool_sized ops dflt numItems =
     andThen (op_new ops numItems) (\<lambda>x.
       Inr \<lparr>pl_customResetCallback = (\<lambda>item. item),
            pl_items = pl_emplace 0 numItems dflt [], pl_indexer = x\<rparr>)"

definition Pool_sized_reset ::
    "'x indexer_ops \<Rightarrow> 'a \<Rightarrow> size_t \<Rightarrow> ('a \<Rightarrow> 'a) \<Rightarrow> cxx_error + ('a, 'x) pool" where
  "Pool_sized_reset ops dflt numItems resetCb =
     andThen (Pool_sized ops dflt numItems) (\<lambda>p. Inr (p\<lparr>pl_customResetCallback := resetCb\<rparr>))"

definition Pool_fixed ::
    "'x indexer_ops \<Rightarrow> 'a list \<Rightarrow> size_t \<Rightarrow> cxx_error + ('a, 'x) pool" where
  "Pool_fixed ops container FixedPoolSize =
     andThen (op_new ops FixedPoolSize) (\<lambda>x.
       Inr \<lparr>pl_customResetCallback = (\<lambda>item. item), pl_items = container, pl_indexer = x\<rparr>)"

definition Pool_fixed_reset ::
    "'x indexer_ops \<Rightarrow> 'a list \<Rightarrow> size_t \<Rightarrow> ('a \<Rightarrow> 'a) \<Rightarrow> cxx_error + ('a, 'x) pool" where
  "Pool_fixed_reset ops container FixedPoolSize resetCb =
     andThen (Pool_fixed ops container FixedPoolSize) (\<lambda>p.
       Inr (p\<lparr>pl_customResetCallback := resetCb\<rparr>))"

text \<open>The aliases: a \<open>std::array\<close> of \<open>Size\<close> items, and a \<open>std::vector\<close>.\<close>

definition StaticPool ::
    "'x indexer_ops \<Rightarrow> 'a \<Rightarrow> size_t \<Rightarrow> cxx_error + ('a, 'x) pool" where
  "StaticPool ops dflt Size = Pool_fixed ops (replicate (unat Size) dflt) Size"

definition RuntimePool ::
    "'x indexer_ops \<Rightarrow> 'a \<Rightarrow> size_t \<Rightarrow> cxx_error + ('a, 'x) pool" where
  "RuntimePool ops dflt numItems = Pool_sized ops dflt numItems"

text \<open>
  A handle points into the pool's own items; its pointer is the position. \<open>ReturnToPool\<close> is
  the closure \<open>returnToPoolFn\<close>, which captures the pool.
\<close>

datatype pool_closure = ReturnToPool

type_synonym handle = "(pool_closure, nat) pool_item"

definition returnToPoolFn ::
    "'x indexer_ops \<Rightarrow> 'a item_type \<Rightarrow> pool_closure \<Rightarrow> handle \<Rightarrow> ('a, 'x) pool \<Rightarrow>
     cxx_error + ('a, 'x) pool" where
  "returnToPoolFn ops ty c item p =
     (case pi_Get item of
        None \<Rightarrow> Inl UndefinedBehaviour
      | Some a \<Rightarrow>
          if a < length (pl_items p) then
            (let p' = p\<lparr>pl_items := (pl_items p)[a := InvokeReset ty p (pl_items p ! a)]\<rparr> in
             andThen (op_Return ops (pi_PoolIndex item) (pl_indexer p')) (\<lambda>x.
               Inr (p'\<lparr>pl_indexer := x\<rparr>)))
          else Inl UndefinedBehaviour)"

definition pl_Take ::
    "'x indexer_ops \<Rightarrow> ('a, 'x) pool \<Rightarrow> cxx_error + handle \<times> ('a, 'x) pool" where
  "pl_Take ops p =
     andThen (op_Next ops (pl_indexer p)) (\<lambda>(holder, x).
       let p' = p\<lparr>pl_indexer := x\<rparr> in
       if ih_Empty holder then Inr (PoolItem_default, p')
       else
         (let index = ih_Get holder in
          if unat index < length (pl_items p')
          then Inr (PoolItem (Callback ReturnToPool) (Some (unat index)) index, p')
          else Inl OutOfRange))"

definition pl_Size :: "('a, 'x) pool \<Rightarrow> size_t" where
  "pl_Size p = vsize (pl_items p)"

text \<open>The destructor of a handle of this pool.\<close>

definition pl_destroy ::
    "'x indexer_ops \<Rightarrow> 'a item_type \<Rightarrow> handle \<Rightarrow> ('a, 'x) pool \<Rightarrow> cxx_error + ('a, 'x) pool" where
  "pl_destroy ops ty item p = PoolItem_destroy (returnToPoolFn ops ty) item p"

section \<open>Clients\<close>

text \<open>
  A client keeps the handles it was given, in a list. It takes items, writes to an item through
  a non-null handle, moves handles (the moved-from handle stays alive) and destroys them.
\<close>

datatype 'a pool_call = CallTake | CallWrite nat "'a \<Rightarrow> 'a" | CallMove nat | CallDestroy nat

definition pl_write :: "handle \<Rightarrow> ('a \<Rightarrow> 'a) \<Rightarrow> ('a, 'x) pool \<Rightarrow> ('a, 'x) pool" where
  "pl_write it f p =
     (case pi_Get it of None \<Rightarrow> p | Some a \<Rightarrow> p\<lparr>pl_items := (pl_items p)[a := f (pl_items p ! a)]\<rparr>)"

fun pool_run ::
    "'x indexer_ops \<Rightarrow> 'a item_type \<Rightarrow> 'a pool_call list \<Rightarrow> ('a, 'x) pool \<Rightarrow> handle list \<Rightarrow>
     cxx_error + ('a, 'x) pool \<times> handle list" where
  "pool_run ops ty [] p held = Inr (p, held)"
| "pool_run ops ty (CallTake # cs) p held =
     andThen (pl_Take ops p) (\<lambda>(it, p'). pool_run ops ty cs p' (held @ [it]))"
| "pool_run ops ty (CallWrite k f # cs) p held =
     pool_run ops ty cs (if k < length held then pl_write (held ! k) f p else p) held"
| "pool_run ops ty (CallMove k # cs) p held =
     pool_run ops ty cs p
       (if k < length held
        then held[k := snd (PoolItem_move (held ! k))] @ [fst (PoolItem_move (held ! k))]
        else held)"
| "pool_run ops ty (CallDestroy k # cs) p held =
     (if k < length held
      then andThen (pl_destroy ops ty (held ! k) p) (\<lambda>p'.
        pool_run ops ty cs p' (take k held @ drop (Suc k) held))
      else pool_run ops ty cs p held)"

text \<open>The pool positions that a client's handles refer to.\<close>

definition live :: "handle list \<Rightarrow> size_t list" where
  "live held = map pi_index (filter (\<lambda>it. \<not> pi_empty it) held)"

definition handle_ok :: "handle \<Rightarrow> bool" where
  "handle_ok it \<longleftrightarrow>
     (if pi_empty it then onDestroyCallback it = NoOpItemDestroyCallback \<and> pi_item it = None
      else onDestroyCallback it = Callback ReturnToPool \<and> pi_item it = Some (unat (pi_index it)))"

lemma mset_live: "mset (live held) = image_mset pi_index {#it \<in># mset held. \<not> pi_empty it#}"
  by (simp add: live_def)

lemma live_simps [simp]:
  "live [] = []"
  "live (xs @ ys) = live xs @ live ys"
  "live [it] = (if pi_empty it then [] else [pi_index it])"
  by (simp_all add: live_def)

lemma mset_live_remove:
  assumes "k < length held"
  shows "mset (live (take k held @ drop (Suc k) held)) =
    (if pi_empty (held ! k) then mset (live held) else mset (live held) - {#pi_index (held ! k)#})"
proof -
  have "mset (live held) = mset (live (take k held @ held ! k # drop (Suc k) held))"
    using id_take_nth_drop [OF assms] by simp
  then show ?thesis by (simp add: live_def)
qed

lemma mset_live_move:
  assumes "k < length held"
  shows "mset (live (held[k := snd (PoolItem_move (held ! k))] @ [fst (PoolItem_move (held ! k))])) =
    mset (live held)"
proof -
  have "mset (live held) = mset (live (take k held @ held ! k # drop (Suc k) held))"
    using id_take_nth_drop [OF assms] by simp
  then show ?thesis
    using assms by (simp add: live_def upd_conv_take_nth_drop)
qed

lemma live_in: "it \<in> set held \<Longrightarrow> \<not> pi_empty it \<Longrightarrow> pi_index it \<in># mset (live held)"
  by (auto simp: live_def)

lemma handle_ok_default [simp]: "handle_ok PoolItem_default"
  by (simp add: handle_ok_def)

lemma handle_ok_move [simp]:
  "handle_ok it \<Longrightarrow> handle_ok (snd (PoolItem_move it))"
  by (simp add: handle_ok_def)

lemma pl_emplace_eq: "pl_emplace i m d xs = xs @ replicate (unat m - unat i) d"
proof (induction i m d xs rule: pl_emplace.induct)
  case (1 i m d xs)
  show ?case
  proof (cases "i < m")
    case True
    then have "unat m - unat i = Suc (unat m - unat (i + 1))"
      by (simp add: unat_inc word_less_nat_alt)
    with True 1 show ?thesis by (subst pl_emplace.simps) simp
  next
    case False
    then show ?thesis by (subst pl_emplace.simps) (simp add: word_less_nat_alt)
  qed
qed

end
