(* ===== verification/PoolInstances.thy ===== *)
theory PoolInstances
  imports MutexIndexer ConcurrentIndexer Pool
begin

text \<open>
  Correctness of \<open>Pool\<close>: once in the context of the indexer contract, then for the pools the
  library offers, \<open>StaticPool\<close> and \<open>RuntimePool\<close> with the mutex and with the concurrent
  indexer, by the two interpretations of the contract.
\<close>

section \<open>Correctness for every indexer that keeps the contract\<close>

context indexer_contract begin

definition pool_ok :: "size_t \<Rightarrow> ('a, 'x) pool \<Rightarrow> handle list \<Rightarrow> bool" where
  "pool_ok n p held \<longleftrightarrow> length (pl_items p) = unat n \<and>
     owned n (pl_indexer p) (mset (live held)) \<and> (\<forall>it \<in> set held. handle_ok it)"

lemma pool_ok_items:
  "pool_ok n p held \<Longrightarrow> length xs = length (pl_items p) \<Longrightarrow> pool_ok n (p\<lparr>pl_items := xs\<rparr>) held"
  by (simp add: pool_ok_def)

lemma static_ok:
  assumes "size_ok n"
  obtains p where "StaticPool ops d n = Inr p" "pool_ok n p []"
    "pl_items p = replicate (unat n) d"
proof -
  from new_owned [OF assms] obtain x where "op_new ops n = Inr x" "owned n x {#}" .
  with that [of "\<lparr>pl_customResetCallback = (\<lambda>item. item), pl_items = replicate (unat n) d,
      pl_indexer = x\<rparr>"]
  show ?thesis by (simp add: StaticPool_def Pool_fixed_def pool_ok_def)
qed

lemma runtime_ok:
  assumes "size_ok n"
  obtains p where "RuntimePool ops d n = Inr p" "pool_ok n p []"
    "pl_items p = replicate (unat n) d"
proof -
  from new_owned [OF assms] obtain x where "op_new ops n = Inr x" "owned n x {#}" .
  with that [of "\<lparr>pl_customResetCallback = (\<lambda>item. item), pl_items = replicate (unat n) d,
      pl_indexer = x\<rparr>"]
  show ?thesis by (simp add: RuntimePool_def Pool_sized_def pool_ok_def pl_emplace_eq)
qed

lemma take_ok:
  assumes ok: "pool_ok n p held"
  obtains (empty) p' where "pl_Take ops p = Inr (PoolItem_default, p')"
    "pool_ok n p' (held @ [PoolItem_default])" "pl_items p' = pl_items p"
    "length (live held) = unat n"
  | (some) i p' it where "it = PoolItem (Callback ReturnToPool) (Some (unat i)) i"
    "pl_Take ops p = Inr (it, p')" "pool_ok n p' (held @ [it])" "pl_items p' = pl_items p"
    "i \<notin> set (live held)" "i < n" "length (live held) < unat n"
proof -
  from ok have own: "owned n (pl_indexer p) (mset (live held))" by (simp add: pool_ok_def)
  then show ?thesis
  proof (cases rule: next_owned)
    case (empty x')
    with ok that(1) [of "p\<lparr>pl_indexer := x'\<rparr>"] show ?thesis
      by (simp add: pl_Take_def pool_ok_def)
  next
    case (some i x')
    with ok that(2) [of _ i "p\<lparr>pl_indexer := x'\<rparr>"] show ?thesis
      by (simp add: pl_Take_def pool_ok_def handle_ok_def word_less_nat_alt)
  qed
qed

lemma destroy_ok:
  assumes ok: "pool_ok n p held" and k: "k < length held"
  obtains (empty) "pi_empty (held ! k)" "pl_destroy ops ty (held ! k) p = Inr p"
    "pool_ok n p (take k held @ drop (Suc k) held)"
  | (item) p' where "\<not> pi_empty (held ! k)" "pl_destroy ops ty (held ! k) p = Inr p'"
    "pool_ok n p' (take k held @ drop (Suc k) held)"
    "pl_items p' = (let i = unat (pi_index (held ! k)) in
       (pl_items p)[i := InvokeReset ty p (pl_items p ! i)])"
    "pi_index (held ! k) \<in># mset (avail (pl_indexer p'))"
proof -
  let ?it = "held ! k" and ?held' = "take k held @ drop (Suc k) held"
  from ok have own: "owned n (pl_indexer p) (mset (live held))" and
    h: "\<forall>it \<in> set held. handle_ok it" and len: "length (pl_items p) = unat n"
    by (simp_all add: pool_ok_def)
  have h': "\<forall>it \<in> set ?held'. handle_ok it"
    using h by (auto dest: in_set_takeD in_set_dropD)
  have hk: "handle_ok ?it" using h k by simp
  show ?thesis
  proof (cases "pi_empty ?it")
    case True
    with hk have "pl_destroy ops ty ?it p = Inr p" by (simp add: pl_destroy_def handle_ok_def)
    moreover have "pool_ok n p ?held'"
      using True own h' len by (simp only: pool_ok_def mset_live_remove [OF k]) simp
    ultimately show ?thesis using True empty by blast
  next
    case False
    have in_live: "pi_index ?it \<in># mset (live held)" using False k by (intro live_in) simp_all
    from return_owned [OF own this] obtain x' where
      x': "op_Return ops (pi_index ?it) (pl_indexer p) = Inr x'"
      "owned n x' (mset (live held) - {#pi_index ?it#})" .
    let ?i = "unat (pi_index ?it)"
    define p' where "p' = p\<lparr>pl_items := (pl_items p)[?i := InvokeReset ty p (pl_items p ! ?i)],
      pl_indexer := x'\<rparr>"
    have "?i < unat n" using owned_bound [OF own in_live] by (simp add: word_less_nat_alt)
    with False hk x'(1) len have "pl_destroy ops ty ?it p = Inr p'"
      by (simp add: p'_def pl_destroy_def PoolItem_destroy_def handle_ok_def returnToPoolFn_def
          pi_Get_def pi_PoolIndex_def Let_def)
    moreover have "pool_ok n p' ?held'"
      unfolding pool_ok_def mset_live_remove [OF k] using x'(2) False h' len by (simp add: p'_def)
    moreover have "pi_index ?it \<in># mset (avail (pl_indexer p'))"
      using not_held_available [OF x'(2) owned_bound [OF own in_live]]
        owned_once [OF own, of "pi_index ?it"] by (simp add: p'_def not_in_iff)
    ultimately show ?thesis using False item [of p'] by (simp add: p'_def Let_def)
  qed
qed

lemma write_ok:
  "pool_ok n p held \<Longrightarrow> pool_ok n (pl_write it f p) held"
  by (simp add: pl_write_def pool_ok_items split: option.split)

lemma move_ok:
  assumes "pool_ok n p held" "k < length held"
  shows "pool_ok n p (held[k := snd (PoolItem_move (held ! k))] @ [fst (PoolItem_move (held ! k))])"
proof -
  let ?held' = "held[k := snd (PoolItem_move (held ! k))] @ [fst (PoolItem_move (held ! k))]"
  have "set ?held' \<subseteq> insert (snd (PoolItem_move (held ! k))) (set held)"
    using assms(2) set_update_subset_insert [of held k] by auto
  with assms have "\<forall>it \<in> set ?held'. handle_ok it"
    by (auto simp: pool_ok_def)
  with assms show ?thesis
    by (simp only: pool_ok_def mset_live_move)
qed

lemma pool_run_ok:
  "pool_ok n p held \<Longrightarrow>
    \<exists>p' held'. pool_run ops ty cs p held = Inr (p', held') \<and> pool_ok n p' held'"
proof (induction cs arbitrary: p held)
  case (Cons c cs)
  note IH = Cons.IH and ok = Cons.prems
  show ?case
  proof (cases c)
    case CallTake
    from ok show ?thesis by (cases rule: take_ok) (simp_all add: CallTake IH)
  next
    case (CallWrite k f)
    with ok show ?thesis by (simp add: IH write_ok)
  next
    case (CallMove k)
    with ok move_ok [OF ok, of k] show ?thesis by (cases "k < length held") (simp_all add: IH)
  next
    case (CallDestroy k)
    show ?thesis
    proof (cases "k < length held")
      case True
      from ok True show ?thesis
        by (cases rule: destroy_ok [where ty = ty]) (simp_all add: CallDestroy True IH)
    qed (simp add: CallDestroy IH ok)
  qed
qed auto

text \<open>What the invariant means to a client.\<close>

lemma pool_ok_meaning:
  assumes "pool_ok n p held"
  shows "length (pl_items p) = unat n" "distinct (live held)" "\<forall>i \<in> set (live held). i < n"
    "length (avail (pl_indexer p)) + length (live held) = unat n"
proof -
  from assms have own: "owned n (pl_indexer p) (mset (live held))" by (simp add: pool_ok_def)
  show "length (pl_items p) = unat n" using assms by (simp add: pool_ok_def)
  show "distinct (live held)"
    using owned_once [OF own]
    by (auto simp: distinct_count_atmost_1 le_Suc_eq count_eq_zero_iff)
  show "\<forall>i \<in> set (live held). i < n" using owned_bound [OF own] by simp
  show "length (avail (pl_indexer p)) + length (live held) = unat n"
    using owned_sizes [OF own] by simp
qed

lemma pool_run_from_new:
  assumes "size_ok n" and p: "p \<in> {StaticPool ops d n, RuntimePool ops d n}"
  shows "\<exists>p0 p' held. p = Inr p0 \<and> pool_run ops ty cs p0 [] = Inr (p', held) \<and>
    pool_ok n p' held \<and> pl_Size p' = n \<and> distinct (live held) \<and> set (live held) \<subseteq> {..<n} \<and>
    length (avail (pl_indexer p')) + length (live held) = unat n"
proof -
  from static_ok [OF assms(1), of d] obtain q where q: "StaticPool ops d n = Inr q" "pool_ok n q []" .
  from runtime_ok [OF assms(1), of d] obtain r where r: "RuntimePool ops d n = Inr r" "pool_ok n r []" .
  from p q r obtain p0 where p0: "p = Inr p0" "pool_ok n p0 []" by (elim insertE) simp_all
  from pool_run_ok [OF p0(2), of ty cs] obtain p' held where
    run: "pool_run ops ty cs p0 [] = Inr (p', held)" and ok: "pool_ok n p' held" by blast
  have "pl_Size p' = n" using pool_ok_meaning(1) [OF ok] by (simp add: pl_Size_def vsize_def)
  moreover have "set (live held) \<subseteq> {..<n}" using pool_ok_meaning(3) [OF ok] by auto
  ultimately show ?thesis using p0 run ok pool_ok_meaning(2,4) [OF ok] by blast
qed

lemma take_spec:
  assumes "pool_ok n p held"
  shows "\<exists>it p'. pl_Take ops p = Inr (it, p') \<and> pool_ok n p' (held @ [it]) \<and>
    pl_items p' = pl_items p \<and> (pi_Empty it \<longleftrightarrow> length (live held) = unat n) \<and>
    (\<not> pi_Empty it \<longrightarrow> pi_index it \<notin> set (live held) \<and> pi_Get it = Some (unat (pi_index it)))"
  using assms
proof (cases rule: take_ok)
  case (empty p')
  then show ?thesis by (intro exI [of _ PoolItem_default] exI [of _ p']) (simp add: pi_Empty_def)
next
  case (some i p' it)
  then show ?thesis by (intro exI [of _ it] exI [of _ p']) (simp add: pi_Empty_def pi_Get_def)
qed

lemma destroy_spec:
  assumes "pool_ok n p held" "k < length held"
  shows "\<exists>p'. pl_destroy ops ty (held ! k) p = Inr p' \<and>
    pool_ok n p' (take k held @ drop (Suc k) held) \<and>
    pl_items p' = (case pi_Get (held ! k) of None \<Rightarrow> pl_items p
      | Some a \<Rightarrow> (pl_items p)[a := InvokeReset ty p (pl_items p ! a)])"
  using assms
proof (cases rule: destroy_ok [where ty = ty])
  case empty
  moreover have "handle_ok (held ! k)" using assms by (simp add: pool_ok_def)
  ultimately show ?thesis by (simp add: handle_ok_def pi_Get_def)
next
  case (item p')
  moreover have "handle_ok (held ! k)" using assms by (simp add: pool_ok_def)
  ultimately show ?thesis by (simp add: handle_ok_def pi_Get_def Let_def)
qed

end

section \<open>Pools with the mutex indexer\<close>

text \<open>C8: whatever a client does with a pool of \<open>n\<close> items (taking items, writing through
  handles, moving and destroying handles in any order), no operation fails, the size stays
  \<open>n\<close>, no two live handles refer to the same item, and the items in use and the indices left
  in the indexer add up to \<open>n\<close>. This holds for both kinds of pool.\<close>

theorem mutex_pool_history:
  "\<forall>p \<in> {StaticPool mutex_ops d n, RuntimePool mutex_ops d n}.
    \<exists>p0 p' held. p = Inr p0 \<and> pool_run mutex_ops ty cs p0 [] = Inr (p', held) \<and>
      pl_Size p' = n \<and> distinct (live held) \<and> set (live held) \<subseteq> {..<n} \<and>
      length (mi_avail (pl_indexer p')) + length (live held) = unat n"
proof
  fix p assume "p \<in> {StaticPool mutex_ops d n, RuntimePool mutex_ops d n}"
  from mutex.pool_run_from_new [OF TrueI this, of ty cs]
  show "\<exists>p0 p' held. p = Inr p0 \<and> pool_run mutex_ops ty cs p0 [] = Inr (p', held) \<and>
      pl_Size p' = n \<and> distinct (live held) \<and> set (live held) \<subseteq> {..<n} \<and>
      length (mi_avail (pl_indexer p')) + length (live held) = unat n" by blast
qed

theorem mutex_pool_history_witness:
  "\<exists>p0 p' held. StaticPool mutex_ops (7 :: int) 3 = Inr p0 \<and>
    pool_run mutex_ops NotResetable [CallTake, CallTake, CallDestroy 0] p0 [] = Inr (p', held) \<and>
    pl_Size p' = 3 \<and> distinct (live held)"
  using mutex_pool_history [of "7 :: int" 3 NotResetable "[CallTake, CallTake, CallDestroy 0]"] by blast

text \<open>From every state a client can bring the pool to, \<open>Take\<close> gives an empty handle exactly
  when all items are in use; otherwise the handle points to an item no live handle points to,
  and taking changes no item.\<close>

lemma mutex_pool_take:
  assumes "mutex.pool_ok n p held"
  shows "\<exists>it p'. pl_Take mutex_ops p = Inr (it, p') \<and> mutex.pool_ok n p' (held @ [it]) \<and>
    pl_items p' = pl_items p \<and> (pi_Empty it \<longleftrightarrow> length (live held) = unat n) \<and>
    (\<not> pi_Empty it \<longrightarrow> pi_index it \<notin> set (live held) \<and> pi_Get it = Some (unat (pi_index it)))"
  by (rule mutex.take_spec [OF assms])

text \<open>Destroying a handle resets exactly the item it points to, before the item can be
  taken again; destroying an empty handle changes nothing. The other items stay as they are.\<close>

lemma mutex_pool_destroy:
  assumes "mutex.pool_ok n p held" "k < length held"
  shows "\<exists>p'. pl_destroy mutex_ops ty (held ! k) p = Inr p' \<and>
    mutex.pool_ok n p' (take k held @ drop (Suc k) held) \<and>
    pl_items p' = (case pi_Get (held ! k) of None \<Rightarrow> pl_items p
      | Some a \<Rightarrow> (pl_items p)[a := InvokeReset ty p (pl_items p ! a)])"
  by (rule mutex.destroy_spec [OF assms])

text \<open>A pool of two items whose first is in use.\<close>

definition sample_pool :: "(int, mutex_indexer) pool" where
  "sample_pool = \<lparr>pl_customResetCallback = (\<lambda>v. v + 100), pl_items = [5, 6],
     pl_indexer = \<lparr>mi_indices = [0, 1], mi_indexPos = 1\<rparr>\<rparr>"

definition sample_handles :: "handle list" where
  "sample_handles = [PoolItem (Callback ReturnToPool) (Some 0) 0]"

lemma sample_pool_ok: "mutex.pool_ok 2 sample_pool sample_handles"
  by (simp add: mutex.pool_ok_def mutex.owned_def sample_pool_def sample_handles_def mi_inv_def
      mi_avail_def all_indices_def handle_ok_def live_def upt_rec)

section \<open>Pools with the concurrent indexer\<close>

text \<open>The same for pools with the concurrent indexer of 1 to \<open>2 ^ 63 - 1\<close> items, used by
  one thread.\<close>

lemma concurrent_pool_history:
  assumes "size_limit n" "p \<in> {StaticPool concurrent_ops d n, RuntimePool concurrent_ops d n}"
  shows "\<exists>p0 p' held. p = Inr p0 \<and> pool_run concurrent_ops ty cs p0 [] = Inr (p', held) \<and>
    pl_Size p' = n \<and> distinct (live held) \<and> set (live held) \<subseteq> {..<n} \<and>
    length (ci_avail (pl_indexer p')) + length (live held) = unat n"
  using concurrent.pool_run_from_new [OF assms, of ty cs] by blast

section \<open>Reset\<close>

text \<open>A pool made with a custom reset callback uses it exactly when the item type has no
  \<open>Reset\<close> method: the method, when there is one, is what runs on a returned item.\<close>

lemma reset_method_wins:
  assumes "Pool_sized_reset ops d n cb = Inr p"
  shows "InvokeReset (Resetable m) p = m \<and> InvokeReset NotResetable p = cb"
  using assms by (auto simp: Pool_sized_reset_def Pool_sized_def InvokeReset_def andThen_eq_Inr fun_eq_iff)

end
