(* ===== verification/Monitor.thy ===== *)
theory Monitor
  imports Prelude
begin

text \<open>
  An object whose methods hold its mutex for their whole body, as \<open>std::lock_guard\<close> makes
  them: threads call methods, wait for the mutex, run the statements of the body one at a time
  and give the mutex back. Theories of such classes give the statements; the locale
  \<open>monitor_contract\<close> says that the statements, run without interruption, do what a function
  says, and then the calls of any number of threads have the effect of the functions, applied
  one after the other.
\<close>

section \<open>The machine\<close>

text \<open>The first statement of a call, the effect of a statement, and the result of the call when
  the statement to come is the end of the body.\<close>

record ('c, 's, 'pc, 'r) monitor =
  mon_start :: "'c \<Rightarrow> 'pc"
  mon_step :: "'s \<Rightarrow> 'pc \<Rightarrow> 's \<times> 'pc"
  mon_result :: "'pc \<Rightarrow> 'r option"

datatype ('c, 'pc) mon_thread = Idle | Wants 'c | Inside 'c 'pc

text \<open>The log has the calls that have given back the mutex, with their threads and results.\<close>

record ('c, 's, 'pc, 'r) mon_sys =
  mon_obj :: 's
  mon_lock :: "nat option"
  mon_threads :: "('c, 'pc) mon_thread list"
  mon_log :: "(nat \<times> 'c \<times> 'r) list"

datatype 'c mon_action = MCall nat 'c | MAcquire nat | MStatement nat | MRelease nat

definition mon_set ::
    "nat \<Rightarrow> ('c, 'pc) mon_thread \<Rightarrow> ('c, 's, 'pc, 'r) mon_sys \<Rightarrow> ('c, 's, 'pc, 'r) mon_sys" where
  "mon_set t x m = m\<lparr>mon_threads := (mon_threads m)[t := x]\<rparr>"

definition mon_at :: "nat \<Rightarrow> ('c, 's, 'pc, 'r) mon_sys \<Rightarrow> ('c, 'pc) mon_thread option" where
  "mon_at t m = (if t < length (mon_threads m) then Some (mon_threads m ! t) else None)"

fun mon_act ::
    "('c, 's, 'pc, 'r) monitor \<Rightarrow> 'c mon_action \<Rightarrow> ('c, 's, 'pc, 'r) mon_sys \<Rightarrow>
     ('c, 's, 'pc, 'r) mon_sys option" where
  "mon_act M (MCall t c) m =
     (case mon_at t m of Some Idle \<Rightarrow> Some (mon_set t (Wants c) m) | _ \<Rightarrow> None)"
| "mon_act M (MAcquire t) m =
     (case (mon_lock m, mon_at t m) of
        (None, Some (Wants c)) \<Rightarrow>
          Some (mon_set t (Inside c (mon_start M c)) (m\<lparr>mon_lock := Some t\<rparr>))
      | _ \<Rightarrow> None)"
| "mon_act M (MStatement t) m =
     (case mon_at t m of
        Some (Inside c pc) \<Rightarrow>
          (case mon_result M pc of
             Some r \<Rightarrow> None
           | None \<Rightarrow>
               (case mon_step M (mon_obj m) pc of (s, pc') \<Rightarrow>
                  Some (mon_set t (Inside c pc') (m\<lparr>mon_obj := s\<rparr>))))
      | _ \<Rightarrow> None)"
| "mon_act M (MRelease t) m =
     (case mon_at t m of
        Some (Inside c pc) \<Rightarrow>
          (case mon_result M pc of
             None \<Rightarrow> None
           | Some r \<Rightarrow>
               Some (mon_set t Idle (m\<lparr>mon_lock := None, mon_log := mon_log m @ [(t, c, r)]\<rparr>)))
      | _ \<Rightarrow> None)"

definition mon_init :: "'s \<Rightarrow> nat \<Rightarrow> ('c, 's, 'pc, 'r) mon_sys" where
  "mon_init s threads =
     \<lparr>mon_obj = s, mon_lock = None, mon_threads = replicate threads Idle, mon_log = []\<rparr>"

inductive mon_reachable ::
    "('c, 's, 'pc, 'r) monitor \<Rightarrow> 's \<Rightarrow> nat \<Rightarrow> ('c, 's, 'pc, 'r) mon_sys \<Rightarrow> bool"
  for M :: "('c, 's, 'pc, 'r) monitor" and s :: 's and threads :: nat where
  mon_begin: "mon_reachable M s threads (mon_init s threads)"
| mon_do: "mon_reachable M s threads m \<Longrightarrow> mon_act M a m = Some m' \<Longrightarrow> mon_reachable M s threads m'"

fun mon_exec ::
    "('c, 's, 'pc, 'r) monitor \<Rightarrow> 'c mon_action list \<Rightarrow> ('c, 's, 'pc, 'r) mon_sys \<Rightarrow>
     ('c, 's, 'pc, 'r) mon_sys option" where
  "mon_exec M [] m = Some m"
| "mon_exec M (a # as) m = (case mon_act M a m of None \<Rightarrow> None | Some m' \<Rightarrow> mon_exec M as m')"

lemma mon_exec_reachable:
  "mon_reachable M s n m \<Longrightarrow> mon_exec M as m = Some m' \<Longrightarrow> mon_reachable M s n m'"
  by (induction as arbitrary: m) (auto split: option.splits intro: mon_reachable.mon_do)

text \<open>The same calls one after the other, each as one application of \<open>call_fun\<close>.\<close>

fun mon_replay :: "('c \<Rightarrow> 's \<Rightarrow> 's \<times> 'r) \<Rightarrow> 'c list \<Rightarrow> 's \<Rightarrow> 's \<times> 'r list" where
  "mon_replay call_fun [] s = (s, [])"
| "mon_replay call_fun (c # cs) s =
     (case call_fun c s of (s', r) \<Rightarrow> (case mon_replay call_fun cs s' of (s'', rs) \<Rightarrow> (s'', r # rs)))"

lemma mon_replay_snoc:
  "mon_replay call_fun (cs @ [c]) s =
     (case mon_replay call_fun cs s of (s', rs) \<Rightarrow> (case call_fun c s' of (s'', r) \<Rightarrow> (s'', rs @ [r])))"
  by (induction cs arbitrary: s) (auto split: prod.splits)

section \<open>The contract\<close>

text \<open>\<open>mon_finish\<close> runs at most \<open>k\<close> statements and gives the state at the end of the body.\<close>

fun mon_finish ::
    "('c, 's, 'pc, 'r) monitor \<Rightarrow> nat \<Rightarrow> 's \<Rightarrow> 'pc \<Rightarrow> ('s \<times> 'r) option" where
  "mon_finish M k s pc =
     (case mon_result M pc of
        Some r \<Rightarrow> Some (s, r)
      | None \<Rightarrow> (case k of 0 \<Rightarrow> None
                  | Suc k \<Rightarrow> (case mon_step M s pc of (s', pc') \<Rightarrow> mon_finish M k s' pc')))"

declare mon_finish.simps [simp del]

text \<open>The call and the next statement of a thread that is in a body.\<close>

definition in_body :: "('c, 's, 'pc, 'r) mon_sys \<Rightarrow> nat \<Rightarrow> ('c \<times> 'pc) option" where
  "in_body m t = (case mon_at t m of Some (Inside c pc) \<Rightarrow> Some (c, pc) | _ \<Rightarrow> None)"

lemma mon_set_simps [simp]:
  "mon_obj (mon_set t x m) = mon_obj m" "mon_lock (mon_set t x m) = mon_lock m"
  "mon_log (mon_set t x m) = mon_log m"
  "length (mon_threads (mon_set t x m)) = length (mon_threads m)"
  by (simp_all add: mon_set_def)

lemma mon_at_fields [simp]:
  "mon_at t (m\<lparr>mon_obj := s\<rparr>) = mon_at t m" "mon_at t (m\<lparr>mon_lock := l\<rparr>) = mon_at t m"
  "mon_at t (m\<lparr>mon_log := log\<rparr>) = mon_at t m"
  by (simp_all add: mon_at_def)

lemma in_body_fields [simp]:
  "in_body (m\<lparr>mon_obj := s\<rparr>) = in_body m" "in_body (m\<lparr>mon_lock := l\<rparr>) = in_body m"
  "in_body (m\<lparr>mon_log := log\<rparr>) = in_body m"
  by (simp_all add: in_body_def mon_at_def fun_eq_iff)

lemma in_body_set:
  "mon_at t m = Some y \<Longrightarrow> in_body (mon_set t x m) u =
     (if u = t then (case x of Inside c pc \<Rightarrow> Some (c, pc) | _ \<Rightarrow> None) else in_body m u)"
  by (auto simp: in_body_def mon_at_def mon_set_def nth_list_update split: if_splits mon_thread.splits)

lemma in_body_inside: "in_body m t = Some (c, pc) \<longleftrightarrow> mon_at t m = Some (Inside c pc)"
  by (auto simp: in_body_def split: option.splits mon_thread.splits)

text \<open>What an action does, by its kind.\<close>

lemma act_cases:
  assumes "mon_act M a m = Some m'"
  obtains (call) t c where "a = MCall t c" "mon_at t m = Some Idle" "m' = mon_set t (Wants c) m"
  | (acquire) t c where "a = MAcquire t" "mon_lock m = None" "mon_at t m = Some (Wants c)"
      "m' = mon_set t (Inside c (mon_start M c)) (m\<lparr>mon_lock := Some t\<rparr>)"
  | (statement) t c pc s pc' where "a = MStatement t" "in_body m t = Some (c, pc)"
      "mon_result M pc = None" "mon_step M (mon_obj m) pc = (s, pc')"
      "m' = mon_set t (Inside c pc') (m\<lparr>mon_obj := s\<rparr>)"
  | (release) t c pc r where "a = MRelease t" "in_body m t = Some (c, pc)" "mon_result M pc = Some r"
      "m' = mon_set t Idle (m\<lparr>mon_lock := None, mon_log := mon_log m @ [(t, c, r)]\<rparr>)"
  using assms
  by (cases a) (auto simp: in_body_inside split: option.splits mon_thread.splits prod.splits)

locale monitor_contract =
  fixes M :: "('c, 's, 'pc, 'r) monitor"
    and call_fun :: "'c \<Rightarrow> 's \<Rightarrow> 's \<times> 'r"
    and bound :: nat
  assumes body: "mon_finish M bound s (mon_start M c) = Some (call_fun c s)"
begin

text \<open>With the mutex free the object is what the logged calls make of it; else its holder is
  the one thread in a body, and its remaining statements finish the call.\<close>

definition mon_inv :: "'s \<Rightarrow> ('c, 's, 'pc, 'r) mon_sys \<Rightarrow> bool" where
  "mon_inv s0 m \<longleftrightarrow> (\<exists>s.
     mon_replay call_fun (map (fst \<circ> snd) (mon_log m)) s0 = (s, map (snd \<circ> snd) (mon_log m)) \<and>
     (\<forall>t x. in_body m t = Some x \<longrightarrow> mon_lock m = Some t) \<and>
     (case mon_lock m of
        None \<Rightarrow> mon_obj m = s
      | Some t \<Rightarrow> \<exists>c pc k. in_body m t = Some (c, pc) \<and> k \<le> bound \<and>
          mon_finish M k (mon_obj m) pc = Some (call_fun c s)))"

lemma mon_inv_init: "mon_inv s0 (mon_init s0 n)"
  by (auto simp: mon_inv_def mon_init_def in_body_def mon_at_def)

lemma mon_inv_act:
  assumes inv: "mon_inv s0 m" and act: "mon_act M a m = Some m'"
  shows "mon_inv s0 m'"
proof -
  from inv obtain s where
    log: "mon_replay call_fun (map (fst \<circ> snd) (mon_log m)) s0 = (s, map (snd \<circ> snd) (mon_log m))" and
    excl: "\<And>t x. in_body m t = Some x \<Longrightarrow> mon_lock m = Some t" and
    obj: "case mon_lock m of None \<Rightarrow> mon_obj m = s
      | Some t \<Rightarrow> \<exists>c pc k. in_body m t = Some (c, pc) \<and> k \<le> bound \<and>
          mon_finish M k (mon_obj m) pc = Some (call_fun c s)"
    by (auto simp: mon_inv_def)
  from act show ?thesis
  proof (cases rule: act_cases)
    case (call t c)
    then have "in_body m' = in_body m"
      using in_body_set [OF call(2)] by (auto simp: fun_eq_iff in_body_def)
    with call(3) log excl obj show ?thesis by (auto simp: mon_inv_def split: option.splits)
  next
    case (acquire t c)
    have "mon_obj m = s" using obj acquire(2) by simp
    then show ?thesis
      using log excl acquire(2-4) body [of s c] in_body_set [of t "m\<lparr>mon_lock := Some t\<rparr>"]
      by (auto simp: mon_inv_def intro!: exI [of _ s])
  next
    case (statement t c pc s' pc')
    have t: "mon_lock m = Some t" using excl statement(2) by blast
    with obj statement(2) obtain k where
      k: "k \<le> bound" "mon_finish M k (mon_obj m) pc = Some (call_fun c s)" by auto
    then obtain j where "k = Suc j" "mon_finish M j s' pc' = Some (call_fun c s)"
      using statement(3,4) by (cases k) (simp_all add: mon_finish.simps [of M _ _ pc])
    moreover have "mon_at t (m\<lparr>mon_obj := s'\<rparr>) = Some (Inside c pc)"
      using statement(2) by (simp add: in_body_inside)
    ultimately show ?thesis
      using log excl t k(1) statement(5) in_body_set [of t "m\<lparr>mon_obj := s'\<rparr>"]
      by (auto simp: mon_inv_def intro!: exI [of _ s] exI [of _ j] split: if_splits)
  next
    case (release t c pc r)
    let ?m = "m\<lparr>mon_lock := None, mon_log := mon_log m @ [(t, c, r)]\<rparr>"
    have t: "mon_lock m = Some t" using excl release(2) by blast
    with obj release(2,3) have "call_fun c s = (mon_obj m, r)"
      by (auto simp: mon_finish.simps [of M _ _ pc])
    moreover have "mon_at t ?m = Some (Inside c pc)"
      using release(2) by (simp add: in_body_inside)
    moreover have "in_body m u = None" if "u \<noteq> t" for u
      using excl [of u] t that by (cases "in_body m u") auto
    ultimately show ?thesis
      using log release(4) in_body_set [of t ?m]
      by (auto simp: mon_inv_def mon_replay_snoc split: if_splits)
  qed
qed

lemma mon_inv_reachable: "mon_reachable M s0 n m \<Longrightarrow> mon_inv s0 m"
  by (induction rule: mon_reachable.induct) (auto intro: mon_inv_init mon_inv_act)

text \<open>Calls take effect one after the other, in the order in which they give back the mutex.\<close>

lemma atomic:
  assumes "mon_reachable M s0 n m" "mon_lock m = None"
  shows "mon_replay call_fun (map (fst \<circ> snd) (mon_log m)) s0 = (mon_obj m, map (snd \<circ> snd) (mon_log m))"
  using mon_inv_reachable [OF assms(1)] assms(2) by (auto simp: mon_inv_def)

lemma exclusive:
  assumes "mon_reachable M s0 n m" "in_body m t = Some x" "in_body m u = Some y"
  shows "t = u"
proof -
  from mon_inv_reachable [OF assms(1)] have "mon_lock m = Some t" "mon_lock m = Some u"
    using assms(2,3) unfolding mon_inv_def by blast+
  then show ?thesis by simp
qed

text \<open>No deadlock: a thread that has called can go on, or the holder of the mutex can.\<close>

lemma finish_step:
  "mon_finish M k s pc = Some x \<Longrightarrow> mon_result M pc = None \<Longrightarrow> \<exists>j. k = Suc j"
  by (cases k) (simp_all add: mon_finish.simps)

lemma enabled:
  assumes "mon_reachable M s0 n m" "mon_at t m = Some (Wants c) \<or> in_body m t \<noteq> None"
  shows "\<exists>a m' u. mon_act M a m = Some m' \<and> a \<in> {MAcquire t, MStatement u, MRelease u}"
proof (cases "mon_lock m")
  case None
  with mon_inv_reachable [OF assms(1)] have "in_body m t = None"
    by (cases "in_body m t") (auto simp: mon_inv_def)
  with assms(2) None have "mon_act M (MAcquire t) m \<noteq> None" by (auto simp: in_body_def)
  then show ?thesis by blast
next
  case (Some u)
  with mon_inv_reachable [OF assms(1)] obtain d pc where u: "in_body m u = Some (d, pc)"
    by (auto simp: mon_inv_def)
  show ?thesis
  proof (cases "mon_result M pc")
    case None
    with u have "mon_act M (MStatement u) m \<noteq> None"
      by (auto simp: in_body_inside split: prod.splits)
    then show ?thesis by blast
  next
    case (Some r)
    with u have "mon_act M (MRelease u) m \<noteq> None" by (auto simp: in_body_inside)
    then show ?thesis by blast
  qed
qed

end

end
