(* ===== verification/MutexIndexer_Threads.thy ===== *)
theory MutexIndexer_Threads
  imports MutexIndexer Monitor
begin

text \<open>
  Threads that call the methods of one \<open>MutexIndexer\<close>, statement by statement: that a
  method may be taken as one function, as \<open>MutexIndexer\<close> does, is here a theorem and not an
  assumption, and so is that the class is safe for any number of threads.
\<close>

section \<open>The statements\<close>

datatype mi_call = MNext | MReturn size_t

datatype mi_result = Got index_holder | Returned | Failed cxx_error

text \<open>The statement to come, with the local variables. After an access out of bounds there is no
  state of the indexer.\<close>

datatype mi_pc = N_Test | N_Read | N_Inc size_t | R_Dec size_t | R_Write size_t | M_Ret mi_result

definition mi_start :: "mi_call \<Rightarrow> mi_pc" where
  "mi_start c = (case c of MNext \<Rightarrow> N_Test | MReturn index \<Rightarrow> R_Dec index)"

fun mi_step :: "cxx_error + mutex_indexer \<Rightarrow> mi_pc \<Rightarrow> (cxx_error + mutex_indexer) \<times> mi_pc" where
  "mi_step (Inl e) pc = (Inl e, M_Ret (Failed e))"
| "mi_step (Inr x) N_Test =
     (Inr x, if mi_indexPos x = vsize (mi_indices x) then M_Ret (Got IndexHolder_default) else N_Read)"
| "mi_step (Inr x) N_Read =
     (case vget (mi_indices x) (mi_indexPos x) of
        Inl e \<Rightarrow> (Inl e, M_Ret (Failed e))
      | Inr index \<Rightarrow> (Inr x, N_Inc index))"
| "mi_step (Inr x) (N_Inc index) =
     (Inr (x\<lparr>mi_indexPos := mi_indexPos x + 1\<rparr>), M_Ret (Got (IndexHolder index)))"
| "mi_step (Inr x) (R_Dec index) = (Inr (x\<lparr>mi_indexPos := mi_indexPos x - 1\<rparr>), R_Write index)"
| "mi_step (Inr x) (R_Write index) =
     (case vset (mi_indices x) (mi_indexPos x) index of
        Inl e \<Rightarrow> (Inl e, M_Ret (Failed e))
      | Inr is \<Rightarrow> (Inr (x\<lparr>mi_indices := is\<rparr>), M_Ret Returned))"
| "mi_step (Inr x) (M_Ret r) = (Inr x, M_Ret r)"

definition mi_monitor :: "(mi_call, cxx_error + mutex_indexer, mi_pc, mi_result) monitor" where
  "mi_monitor = \<lparr>mon_start = mi_start, mon_step = mi_step,
     mon_result = (\<lambda>pc. case pc of M_Ret r \<Rightarrow> Some r | _ \<Rightarrow> None)\<rparr>"

text \<open>The methods as functions.\<close>

definition mi_method ::
    "mi_call \<Rightarrow> cxx_error + mutex_indexer \<Rightarrow> (cxx_error + mutex_indexer) \<times> mi_result" where
  "mi_method c s =
     (case s of
        Inl e \<Rightarrow> (Inl e, Failed e)
      | Inr x \<Rightarrow>
          (case c of
             MNext \<Rightarrow> (case mi_Next x of Inl e \<Rightarrow> (Inl e, Failed e) | Inr (h, x') \<Rightarrow> (Inr x', Got h))
           | MReturn i \<Rightarrow> (case mi_Return i x of Inl e \<Rightarrow> (Inl e, Failed e) | Inr x' \<Rightarrow> (Inr x', Returned))))"

interpretation mi: monitor_contract mi_monitor mi_method 3
proof
  fix s c
  show "mon_finish mi_monitor 3 s (mon_start mi_monitor c) = Some (mi_method c s)"
  proof (cases s)
    case (Inl e)
    then show ?thesis
      by (cases c) (simp_all add: mon_finish.simps mi_monitor_def mi_start_def mi_method_def eval_nat_numeral)
  next
    case (Inr x)
    then show ?thesis
      by (cases c) (simp_all add: mon_finish.simps mi_monitor_def mi_start_def mi_method_def
          eval_nat_numeral mi_Next_def mi_Return_def Let_def split: sum.splits)
  qed
qed

section \<open>Clients\<close>

text \<open>The indices that are out after the calls of a log, \<open>None\<close> if an index was returned that
  was not out. Any thread may return an index, whichever got it.\<close>

fun mi_out :: "(nat \<times> mi_call \<times> mi_result) list \<Rightarrow> size_t list \<Rightarrow> size_t list option" where
  "mi_out [] held = Some held"
| "mi_out ((t, MNext, Got h) # log) held = mi_out log (if ih_Empty h then held else held @ [ih_Get h])"
| "mi_out ((t, MReturn i, r) # log) held =
     (if i \<in> set held then mi_out log (remove1 i held) else None)"
| "mi_out ((t, MNext, r) # log) held = mi_out log held"

lemma replay_owned:
  assumes "mutex.owned n x (mset held)"
    "mon_replay mi_method (map (fst \<circ> snd) log) (Inr x) = (s, map (snd \<circ> snd) log)"
    "mi_out log held = Some held'"
  shows "\<exists>x'. s = Inr x' \<and> mutex.owned n x' (mset held') \<and> (\<forall>e. Failed e \<notin> (snd \<circ> snd) ` set log)"
  using assms
proof (induction log arbitrary: x held)
  case (Cons entry log)
  obtain t c r where entry: "entry = (t, c, r)" by (cases entry)
  show ?case
  proof (cases c)
    case MNext
    from Cons.prems(1) show ?thesis
    proof (cases rule: mutex.next_owned)
      case (empty x')
      then have "mi_method MNext (Inr x) = (Inr x', Got IndexHolder_default)"
        by (simp add: mi_method_def mutex_ops_def)
      with Cons.prems(2,3) Cons.IH [OF empty(2)] show ?thesis
        by (auto simp: entry MNext split: prod.splits)
    next
      case (some i x')
      then have "mi_method MNext (Inr x) = (Inr x', Got (IndexHolder i))"
        by (simp add: mi_method_def mutex_ops_def)
      moreover have "mutex.owned n x' (mset (held @ [i]))" using some(2) by simp
      ultimately show ?thesis
        using Cons.prems(2,3) Cons.IH [of x' "held @ [i]"]
        by (auto simp: entry MNext split: prod.splits)
    qed
  next
    case (MReturn i)
    then have i: "i \<in> set held" "mi_out log (remove1 i held) = Some held'"
      using Cons.prems(3) by (auto simp: entry split: if_splits)
    then have "i \<in># mset held" by simp
    from mutex.return_owned [OF Cons.prems(1) this] obtain x' where
      x': "op_Return mutex_ops i x = Inr x'" "mutex.owned n x' (mset held - {#i#})" .
    then have "mi_method (MReturn i) (Inr x) = (Inr x', Returned)"
      by (simp add: mi_method_def mutex_ops_def)
    moreover have "mutex.owned n x' (mset (remove1 i held))" using x'(2) by simp
    ultimately show ?thesis
      using Cons.prems(2) i(2) Cons.IH [of x' "remove1 i held"]
      by (auto simp: entry MReturn split: prod.splits)
  qed
qed auto

section \<open>Properties\<close>

text \<open>C4: however the statements of any number of threads interleave, whatever they call, never two
  threads are in a method at once, and when no thread is in one, the indexer and all the results
  are those of the calls applied one after the other, in the order in which they gave back the
  mutex.\<close>

theorem mutex_indexer_atomic:
  assumes "mon_reachable mi_monitor (Inr x) threads m"
  shows "(\<forall>t u. in_body m t \<noteq> None \<and> in_body m u \<noteq> None \<longrightarrow> t = u) \<and>
    (mon_lock m = None \<longrightarrow>
      mon_replay mi_method (map (fst \<circ> snd) (mon_log m)) (Inr x) =
        (mon_obj m, map (snd \<circ> snd) (mon_log m)))"
  using mi.exclusive [OF assms] mi.atomic [OF assms] by blast

definition mi_two :: "(mi_call, cxx_error + mutex_indexer, mi_pc, mi_result) mon_sys" where
  "mi_two = mon_init (Inr \<lparr>mi_indices = [0, 1], mi_indexPos = 0\<rparr>) 2"

definition mi_race :: "mi_call mon_action list" where
  "mi_race = [MCall 0 MNext, MCall 1 MNext, MAcquire 1, MStatement 1, MStatement 1, MStatement 1,
     MRelease 1, MAcquire 0, MStatement 0, MCall 1 (MReturn 0), MStatement 0, MStatement 0, MRelease 0]"

lemma mi_race_reachable:
  "mon_reachable mi_monitor (Inr \<lparr>mi_indices = [0, 1], mi_indexPos = 0\<rparr>) 2 (the (mon_exec mi_monitor mi_race mi_two))"
proof -
  have "mon_exec mi_monitor mi_race mi_two \<noteq> None" by code_simp
  then show ?thesis
    using mon_exec_reachable [OF mon_reachable.mon_begin, of mi_monitor mi_race _ 2]
    unfolding mi_two_def by fastforce
qed

lemma mi_race_end:
  "mon_lock (the (mon_exec mi_monitor mi_race mi_two)) = None"
  "mon_log (the (mon_exec mi_monitor mi_race mi_two)) =
     [(1, MNext, Got (IndexHolder 0)), (0, MNext, Got (IndexHolder 1))]"
  by code_simp+

theorem mutex_indexer_atomic_witness:
  "mon_replay mi_method [MNext, MNext] (Inr \<lparr>mi_indices = [0, 1], mi_indexPos = 0\<rparr>) =
     (mon_obj (the (mon_exec mi_monitor mi_race mi_two)), [Got (IndexHolder 0), Got (IndexHolder 1)])"
  using mutex_indexer_atomic [OF mi_race_reachable] by (simp add: mi_race_end)

text \<open>Threads that share a new indexer and return only indices that are out never get an
  error, and whenever no thread is in a method, the indices that are out are different and, with
  those in the indexer, exactly \<open>0, ..., n - 1\<close>.\<close>

lemma mutex_indexer_threads_safe:
  assumes "MutexIndexer_new n = Inr x0" "mon_reachable mi_monitor (Inr x0) threads m"
    "mon_lock m = None" "mi_out (mon_log m) [] = Some held"
  shows "\<exists>x. mon_obj m = Inr x \<and> distinct held \<and> mset (mi_avail x) + mset held = mset (all_indices n) \<and>
    (\<forall>e. Failed e \<notin> (snd \<circ> snd) ` set (mon_log m))"
proof -
  obtain y where y: "op_new mutex_ops n = Inr y" "mutex.owned n y {#}"
    using mutex.new_owned [OF TrueI] .
  then have "mutex.owned n x0 (mset [])" using assms(1) by (simp add: mutex_ops_def)
  from replay_owned [OF this mi.atomic [OF assms(2,3)] assms(4)] obtain x where
    x: "mon_obj m = Inr x" "mutex.owned n x (mset held)"
    "\<forall>e. Failed e \<notin> (snd \<circ> snd) ` set (mon_log m)" by blast
  then have "distinct held" using mutex.owned_distinct by blast
  with x show ?thesis by (auto simp: mutex.owned_def)
qed

text \<open>No deadlock: while a thread is in a call, it can get the mutex or the thread that has it
  can go on; and a body ends after at most three statements.\<close>

lemma mutex_indexer_no_deadlock:
  assumes "mon_reachable mi_monitor (Inr x) threads m"
    "mon_at t m = Some (Wants c) \<or> in_body m t \<noteq> None"
  shows "(\<exists>a m' u. mon_act mi_monitor a m = Some m' \<and> a \<in> {MAcquire t, MStatement u, MRelease u}) \<and>
    mon_finish mi_monitor 3 s (mon_start mi_monitor c) = Some (mi_method c s)"
  using mi.enabled [OF assms] mi.body by blast

end
