(* ===== verification/PoolThreads.thy ===== *)
theory PoolThreads
  imports PoolInstances MutexIndexer_Threads
begin

text \<open>
  Threads that share one object pool. \<open>Take\<close>, the use of an item and the destructor of a handle
  are cut into their accesses to the pool: a call of the indexer, which is one step, an access to
  an item. Handles may go from one thread to another; a thread that uses or destroys a handle has
  it for itself meanwhile.
\<close>

section \<open>The machine\<close>

datatype 'a pt_pc =
    T_Next
  | T_Wrap index_holder
  | U_Use handle "'a \<Rightarrow> 'a"
  | D_Begin handle
  | D_Reset handle
  | D_Return handle
  | P_Fail cxx_error

text \<open>The pool after the step, where the thread is then (\<open>None\<close> at the end of its call), and
  the handles the call gives out.\<close>

fun pt_step ::
    "'x indexer_ops \<Rightarrow> 'a item_type \<Rightarrow> ('a, 'x) pool \<Rightarrow> 'a pt_pc \<Rightarrow>
     ('a, 'x) pool \<times> 'a pt_pc option \<times> handle list" where
  "pt_step ops ty p T_Next =
     (case op_Next ops (pl_indexer p) of
        Inl e \<Rightarrow> (p, Some (P_Fail e), [])
      | Inr (holder, x) \<Rightarrow> (p\<lparr>pl_indexer := x\<rparr>, Some (T_Wrap holder), []))"
| "pt_step ops ty p (T_Wrap holder) =
     (if ih_Empty holder then (p, None, [PoolItem_default])
      else
        (let index = ih_Get holder in
         if unat index < length (pl_items p)
         then (p, None, [PoolItem (Callback ReturnToPool) (Some (unat index)) index])
         else (p, Some (P_Fail OutOfRange), [])))"
| "pt_step ops ty p (U_Use item f) = (pl_write item f p, None, [item])"
| "pt_step ops ty p (D_Begin item) =
     (case onDestroyCallback item of
        NoOpItemDestroyCallback \<Rightarrow> (p, None, [])
      | Callback c \<Rightarrow> (p, Some (D_Reset item), []))"
| "pt_step ops ty p (D_Reset item) =
     (case pi_Get item of
        None \<Rightarrow> (p, Some (P_Fail UndefinedBehaviour), [])
      | Some a \<Rightarrow>
          if a < length (pl_items p)
          then (p\<lparr>pl_items := (pl_items p)[a := InvokeReset ty p (pl_items p ! a)]\<rparr>,
                Some (D_Return item), [])
          else (p, Some (P_Fail UndefinedBehaviour), []))"
| "pt_step ops ty p (D_Return item) =
     (case op_Return ops (pi_PoolIndex item) (pl_indexer p) of
        Inl e \<Rightarrow> (p, Some (P_Fail e), [])
      | Inr x \<Rightarrow> (p\<lparr>pl_indexer := x\<rparr>, None, []))"
| "pt_step ops ty p (P_Fail e) = (p, Some (P_Fail e), [])"

record ('a, 'x) pt_sys =
  pt_pool :: "('a, 'x) pool"
  pt_pcs :: "'a pt_pc option list"
  pt_handles :: "handle list"

datatype 'a pt_action = PTake nat | PUse nat nat "'a \<Rightarrow> 'a" | PDestroy nat nat | PStep nat

definition idle :: "nat \<Rightarrow> 'a pt_pc option list \<Rightarrow> bool" where
  "idle t pcs \<longleftrightarrow> t < length pcs \<and> pcs ! t = None"

definition without :: "nat \<Rightarrow> 'b list \<Rightarrow> 'b list" where
  "without k xs = take k xs @ drop (Suc k) xs"

fun pt_act ::
    "'x indexer_ops \<Rightarrow> 'a item_type \<Rightarrow> 'a pt_action \<Rightarrow> ('a, 'x) pt_sys \<Rightarrow> ('a, 'x) pt_sys option" where
  "pt_act ops ty (PTake t) s =
     (if idle t (pt_pcs s) then Some (s\<lparr>pt_pcs := (pt_pcs s)[t := Some T_Next]\<rparr>) else None)"
| "pt_act ops ty (PUse t k f) s =
     (if idle t (pt_pcs s) \<and> k < length (pt_handles s)
      then Some (s\<lparr>pt_pcs := (pt_pcs s)[t := Some (U_Use (pt_handles s ! k) f)],
                   pt_handles := without k (pt_handles s)\<rparr>)
      else None)"
| "pt_act ops ty (PDestroy t k) s =
     (if idle t (pt_pcs s) \<and> k < length (pt_handles s)
      then Some (s\<lparr>pt_pcs := (pt_pcs s)[t := Some (D_Begin (pt_handles s ! k))],
                   pt_handles := without k (pt_handles s)\<rparr>)
      else None)"
| "pt_act ops ty (PStep t) s =
     (if t < length (pt_pcs s) then
        (case pt_pcs s ! t of
           None \<Rightarrow> None
         | Some pc \<Rightarrow>
             (case pt_step ops ty (pt_pool s) pc of (p, pc', got) \<Rightarrow>
                Some (s\<lparr>pt_pool := p, pt_pcs := (pt_pcs s)[t := pc'], pt_handles := pt_handles s @ got\<rparr>)))
      else None)"

fun pt_exec ::
    "'x indexer_ops \<Rightarrow> 'a item_type \<Rightarrow> 'a pt_action list \<Rightarrow> ('a, 'x) pt_sys \<Rightarrow> ('a, 'x) pt_sys option" where
  "pt_exec ops ty [] s = Some s"
| "pt_exec ops ty (a # as) s =
     (case pt_act ops ty a s of None \<Rightarrow> None | Some s' \<Rightarrow> pt_exec ops ty as s')"

definition pt_init :: "('a, 'x) pool \<Rightarrow> nat \<Rightarrow> ('a, 'x) pt_sys" where
  "pt_init p threads = \<lparr>pt_pool = p, pt_pcs = replicate threads None, pt_handles = []\<rparr>"

inductive pt_reachable ::
    "'x indexer_ops \<Rightarrow> 'a item_type \<Rightarrow> ('a, 'x) pool \<Rightarrow> nat \<Rightarrow> ('a, 'x) pt_sys \<Rightarrow> bool"
  for ops :: "'x indexer_ops" and ty :: "'a item_type" and p :: "('a, 'x) pool" and threads :: nat where
  pt_begin: "pt_reachable ops ty p threads (pt_init p threads)"
| pt_do: "pt_reachable ops ty p threads s \<Longrightarrow> pt_act ops ty a s = Some s' \<Longrightarrow>
    pt_reachable ops ty p threads s'"

lemma pt_exec_reachable:
  "pt_reachable ops ty p n s \<Longrightarrow> pt_exec ops ty as s = Some s' \<Longrightarrow> pt_reachable ops ty p n s'"
  by (induction as arbitrary: s) (auto split: option.splits intro: pt_reachable.pt_do)

section \<open>Run alone\<close>

text \<open>The steps of a call, run without other threads, are the call of the theory \<open>Pool\<close>.\<close>

fun pt_alone ::
    "'x indexer_ops \<Rightarrow> 'a item_type \<Rightarrow> nat \<Rightarrow> ('a, 'x) pool \<Rightarrow> 'a pt_pc \<Rightarrow>
     cxx_error + ('a, 'x) pool \<times> handle list" where
  "pt_alone ops ty k p pc =
     (case pt_step ops ty p pc of
        (p', None, got) \<Rightarrow> Inr (p', got)
      | (p', Some (P_Fail e), got) \<Rightarrow> Inl e
      | (p', Some pc', got) \<Rightarrow> (case k of 0 \<Rightarrow> Inl Diverges | Suc k \<Rightarrow> pt_alone ops ty k p' pc'))"

declare pt_alone.simps [simp del]

lemma alone_take:
  "pt_alone ops ty 1 p T_Next = andThen (pl_Take ops p) (\<lambda>(it, p'). Inr (p', [it]))"
  by (simp add: pt_alone.simps pl_Take_def Let_def split: sum.splits)

lemma alone_destroy:
  "pt_alone ops ty 2 p (D_Begin it) = andThen (pl_destroy ops ty it p) (\<lambda>p'. Inr (p', []))"
  by (simp add: pt_alone.simps pl_destroy_def PoolItem_destroy_def returnToPoolFn_def Let_def
      eval_nat_numeral split: sum.splits item_callback.splits option.splits)

section \<open>The invariant\<close>

text \<open>The items a thread has for itself at a step, and what it knows of its handle.\<close>

fun pt_items :: "'a pt_pc option \<Rightarrow> size_t list" where
  "pt_items (Some (T_Wrap holder)) = (if ih_Empty holder then [] else [ih_Get holder])"
| "pt_items (Some (U_Use item f)) = live [item]"
| "pt_items (Some (D_Begin item)) = live [item]"
| "pt_items (Some (D_Reset item)) = [pi_index item]"
| "pt_items (Some (D_Return item)) = [pi_index item]"
| "pt_items _ = []"

fun pt_pc_ok :: "'a pt_pc option \<Rightarrow> bool" where
  "pt_pc_ok (Some (U_Use item f)) \<longleftrightarrow> handle_ok item"
| "pt_pc_ok (Some (D_Begin item)) \<longleftrightarrow> handle_ok item"
| "pt_pc_ok (Some (D_Reset item)) \<longleftrightarrow> handle_ok item \<and> \<not> pi_empty item"
| "pt_pc_ok (Some (D_Return item)) \<longleftrightarrow> handle_ok item \<and> \<not> pi_empty item"
| "pt_pc_ok (Some (P_Fail e)) \<longleftrightarrow> False"
| "pt_pc_ok _ \<longleftrightarrow> True"

definition pt_busy :: "'a pt_pc option list \<Rightarrow> size_t multiset" where
  "pt_busy pcs = mset (concat (map pt_items pcs))"

lemma busy_update:
  "t < length pcs \<Longrightarrow> pt_busy (pcs[t := x]) + mset (pt_items (pcs ! t)) = pt_busy pcs + mset (pt_items x)"
  unfolding pt_busy_def by (rule mset_concat_update)

lemma busy_member: "t < length pcs \<Longrightarrow> i \<in> set (pt_items (pcs ! t)) \<Longrightarrow> i \<in># pt_busy pcs"
  by (auto simp: pt_busy_def)

lemma live_without:
  assumes "k < length hs"
  shows "mset (live (without k hs)) + mset (live [hs ! k]) = mset (live hs)"
proof -
  have "mset (live hs) = mset (live (take k hs @ hs ! k # drop (Suc k) hs))"
    using id_take_nth_drop [OF assms] by simp
  then show ?thesis by (simp add: without_def live_def)
qed

context indexer_contract begin

definition pt_inv :: "size_t \<Rightarrow> ('a, 'x) pt_sys \<Rightarrow> bool" where
  "pt_inv n s \<longleftrightarrow> length (pl_items (pt_pool s)) = unat n \<and>
     owned n (pl_indexer (pt_pool s)) (mset (live (pt_handles s)) + pt_busy (pt_pcs s)) \<and>
     (\<forall>it \<in> set (pt_handles s). handle_ok it) \<and> (\<forall>pc \<in> set (pt_pcs s). pt_pc_ok pc)"

lemma pt_inv_init: "pool_ok n p [] \<Longrightarrow> pt_inv n (pt_init p threads)"
  by (auto simp: pt_inv_def pool_ok_def pt_init_def pt_busy_def concat_replicate_trivial)

text \<open>A thread that starts a call with a handle takes it from the others.\<close>

lemma pt_inv_start:
  assumes inv: "pt_inv n s" and t: "idle t (pt_pcs s)" and k: "k < length (pt_handles s)"
    and pc: "pt_items (Some pc) = live [pt_handles s ! k]" "handle_ok (pt_handles s ! k) \<Longrightarrow> pt_pc_ok (Some pc)"
  shows "pt_inv n (s\<lparr>pt_pcs := (pt_pcs s)[t := Some pc], pt_handles := without k (pt_handles s)\<rparr>)"
proof -
  have t': "t < length (pt_pcs s)" "pt_pcs s ! t = None" using t by (simp_all add: idle_def)
  have "mset (live (without k (pt_handles s))) + pt_busy ((pt_pcs s)[t := Some pc]) =
      mset (live (pt_handles s)) + pt_busy (pt_pcs s)"
    using busy_update [OF t'(1), of "Some pc"] live_without [OF k] t'(2) pc(1)
    by (simp add: add.assoc [symmetric])
  moreover have "set (without k (pt_handles s)) \<subseteq> set (pt_handles s)"
    by (auto simp: without_def dest: in_set_takeD in_set_dropD)
  moreover have "pt_pc_ok (Some pc)" using pc(2) inv k by (simp add: pt_inv_def)
  ultimately show ?thesis
    using inv set_update_subset_insert [of "pt_pcs s" t "Some pc"] by (auto simp: pt_inv_def)
qed

text \<open>A step, with the items of everyone else in \<open>R\<close>.\<close>

lemma pt_step_ok:
  assumes own: "owned n (pl_indexer p) (R + mset (pt_items (Some pc)))"
    and len: "length (pl_items p) = unat n" and ok: "pt_pc_ok (Some pc)"
    and step: "pt_step ops ty p pc = (p', pc', got)"
  shows "length (pl_items p') = unat n \<and> owned n (pl_indexer p') (R + mset (pt_items pc') + mset (live got)) \<and>
    pt_pc_ok pc' \<and> (\<forall>it \<in> set got. handle_ok it)"
proof (cases pc)
  case T_Next
  then have "owned n (pl_indexer p) R" using own by simp
  then show ?thesis
    by (cases rule: next_owned) (use step len in \<open>auto simp: T_Next\<close>)
next
  case (T_Wrap holder)
  show ?thesis
  proof (cases "ih_Empty holder")
    case False
    then have "ih_Get holder < n" using owned_bound [OF own, of "ih_Get holder"] by (simp add: T_Wrap)
    then have "unat (ih_Get holder) < length (pl_items p)" by (simp add: len word_less_nat_alt)
    with False own len step show ?thesis by (auto simp: T_Wrap Let_def handle_ok_def)
  qed (use own len step in \<open>auto simp: T_Wrap\<close>)
next
  case (U_Use item f)
  then show ?thesis
    using own len ok step by (auto simp: pl_write_def split: option.splits)
next
  case (D_Begin item)
  then show ?thesis
    using own len ok step by (auto simp: handle_ok_def split: item_callback.splits if_splits)
next
  case (D_Reset item)
  then have item: "pi_Get item = Some (unat (pi_index item))"
    using ok by (simp add: handle_ok_def pi_Get_def)
  have "pi_index item < n" using owned_bound [OF own, of "pi_index item"] by (simp add: D_Reset)
  then have "unat (pi_index item) < length (pl_items p)" by (simp add: len word_less_nat_alt)
  with own len ok step item show ?thesis by (auto simp: D_Reset)
next
  case (D_Return item)
  have "pi_index item \<in># R + mset (pt_items (Some pc))" by (simp add: D_Return)
  from return_owned [OF own this] obtain x where
    "op_Return ops (pi_index item) (pl_indexer p) = Inr x" "owned n x R"
    by (auto simp: D_Return)
  with len step show ?thesis by (auto simp: D_Return pi_PoolIndex_def)
next
  case (P_Fail e)
  then show ?thesis using ok by simp
qed

lemma pt_inv_act:
  assumes inv: "pt_inv n s" and act: "pt_act ops ty a s = Some s'"
  shows "pt_inv n s'"
proof (cases a)
  case (PTake t)
  then have t: "t < length (pt_pcs s)" "pt_pcs s ! t = None"
    "s' = s\<lparr>pt_pcs := (pt_pcs s)[t := Some T_Next]\<rparr>"
    using act by (auto simp: idle_def split: if_splits)
  show ?thesis
    using inv busy_update [OF t(1), of "Some T_Next"] t
      set_update_subset_insert [of "pt_pcs s" t "Some T_Next"]
    by (auto simp: pt_inv_def)
next
  case (PUse t k f)
  then show ?thesis
    using act pt_inv_start [OF inv, of t k "U_Use (pt_handles s ! k) f"] by (auto split: if_splits)
next
  case (PDestroy t k)
  then show ?thesis
    using act pt_inv_start [OF inv, of t k "D_Begin (pt_handles s ! k)"] by (auto split: if_splits)
next
  case (PStep t)
  then obtain pc p' pc' got where t: "t < length (pt_pcs s)" "pt_pcs s ! t = Some pc"
    "pt_step ops ty (pt_pool s) pc = (p', pc', got)"
    "s' = s\<lparr>pt_pool := p', pt_pcs := (pt_pcs s)[t := pc'], pt_handles := pt_handles s @ got\<rparr>"
    using act by (auto split: if_splits option.splits prod.splits)
  define R where "R = mset (live (pt_handles s)) + (pt_busy (pt_pcs s) - mset (pt_items (Some pc)))"
  have sub: "mset (pt_items (Some pc)) \<subseteq># pt_busy (pt_pcs s)"
    using mset_subset_eq_concat [OF t(1), of pt_items] t(2) by (simp add: pt_busy_def)
  then have H: "mset (live (pt_handles s)) + pt_busy (pt_pcs s) = R + mset (pt_items (Some pc))"
    unfolding R_def by (simp only: add.assoc subset_mset.diff_add)
  have "pt_pc_ok (Some pc)" using inv t(1,2) nth_mem by (fastforce simp: pt_inv_def)
  with pt_step_ok [OF _ _ _ t(3), of n R] inv H have new:
    "length (pl_items p') = unat n" "owned n (pl_indexer p') (R + mset (pt_items pc') + mset (live got))"
    "pt_pc_ok pc'" "\<forall>it \<in> set got. handle_ok it"
    by (simp_all add: pt_inv_def)
  define B where "B = pt_busy (pt_pcs s) - mset (pt_items (Some pc))"
  have B: "pt_busy (pt_pcs s) = B + mset (pt_items (Some pc))"
    unfolding B_def by (rule subset_mset.diff_add [OF sub, symmetric])
  have "pt_busy ((pt_pcs s)[t := pc']) + mset (pt_items (Some pc)) =
      (B + mset (pt_items pc')) + mset (pt_items (Some pc))"
    using busy_update [OF t(1), of pc'] unfolding t(2) B by (simp only: ac_simps)
  then have "pt_busy ((pt_pcs s)[t := pc']) = B + mset (pt_items pc')"
    by (rule add_right_imp_eq)
  then have "mset (live (pt_handles s @ got)) + pt_busy ((pt_pcs s)[t := pc']) =
      R + mset (pt_items pc') + mset (live got)"
    by (simp add: R_def B_def [symmetric] add.commute add.left_commute)
  then have "owned n (pl_indexer p') (mset (live (pt_handles s @ got)) + pt_busy ((pt_pcs s)[t := pc']))"
    using new(2) by (simp only:)
  with new inv t(4) set_update_subset_insert [of "pt_pcs s" t pc'] show ?thesis
    by (auto simp: pt_inv_def)
qed

lemma pt_inv_reachable:
  "pool_ok n p [] \<Longrightarrow> pt_reachable ops ty p threads s \<Longrightarrow> pt_inv n s"
  by (rotate_tac, induction rule: pt_reachable.induct) (auto intro: pt_inv_init pt_inv_act)

text \<open>What it means: no failure, and no item that two have.\<close>

lemma pt_no_failure: "pt_inv n s \<Longrightarrow> Some (P_Fail e) \<notin> set (pt_pcs s)"
  by (auto simp: pt_inv_def dest!: bspec)

lemma pt_member:
  assumes inv: "pt_inv n s" and t: "t < length (pt_pcs s)" and i: "i \<in> set (pt_items (pt_pcs s ! t))"
  shows "i \<notin> set (live (pt_handles s)) \<and> i \<notin> set (avail (pl_indexer (pt_pool s)))"
proof -
  have own: "owned n (pl_indexer (pt_pool s)) (mset (live (pt_handles s)) + pt_busy (pt_pcs s))"
    using inv by (simp add: pt_inv_def)
  have busy: "i \<in># pt_busy (pt_pcs s)" by (rule busy_member [OF t i])
  then have "0 < count (pt_busy (pt_pcs s)) i" by (simp only: count_greater_zero_iff)
  with owned_once [OF own, of i] have "count (mset (live (pt_handles s))) i = 0"
    unfolding count_union by linarith
  then have "i \<notin> set (live (pt_handles s))" by (simp only: count_eq_zero_iff set_mset_mset) simp
  moreover have "i \<in># mset (live (pt_handles s)) + pt_busy (pt_pcs s)" using busy by simp
  ultimately show ?thesis using owned_not_available [OF own] by blast
qed

lemma pt_private:
  assumes inv: "pt_inv n s" and tu: "t < length (pt_pcs s)" "u < length (pt_pcs s)" "t \<noteq> u"
    and i: "i \<in> set (pt_items (pt_pcs s ! t))"
  shows "i \<notin> set (pt_items (pt_pcs s ! u))"
proof
  assume u: "i \<in> set (pt_items (pt_pcs s ! u))"
  have own: "owned n (pl_indexer (pt_pool s)) (mset (live (pt_handles s)) + pt_busy (pt_pcs s))"
    using inv by (simp add: pt_inv_def)
  have "count (mset (pt_items (pt_pcs s ! t)) + mset (pt_items (pt_pcs s ! u))) i \<le> count (pt_busy (pt_pcs s)) i"
    unfolding pt_busy_def by (rule mset_subset_eq_count [OF mset_subset_eq_concat2 [OF tu]])
  moreover have "0 < count (mset (pt_items (pt_pcs s ! t))) i" "0 < count (mset (pt_items (pt_pcs s ! u))) i"
    using i u by (simp_all only: count_greater_zero_iff set_mset_mset)
  ultimately show False using owned_once [OF own, of i] unfolding count_union by linarith
qed

end

section \<open>Properties\<close>

text \<open>C3: threads that share a pool with the mutex indexer, take items, use them, hand handles to
  each other and destroy them, in any interleaving of the accesses: no access is out of bounds,
  an item a thread uses, resets or is about to hand out belongs to no other thread and no other
  handle and is not in the indexer, so the accesses to the items need no lock; and items in
  handles, in threads and in the indexer add up to the size of the pool.\<close>

theorem mutex_pool_threads:
  assumes "Inr p \<in> {StaticPool mutex_ops d n, RuntimePool mutex_ops d n}"
    "pt_reachable mutex_ops ty p threads s"
  shows "(\<forall>e. Some (P_Fail e) \<notin> set (pt_pcs s)) \<and>
    (\<forall>t < length (pt_pcs s). \<forall>i \<in> set (pt_items (pt_pcs s ! t)).
      (\<forall>u < length (pt_pcs s). t \<noteq> u \<longrightarrow> i \<notin> set (pt_items (pt_pcs s ! u))) \<and>
      i \<notin> set (live (pt_handles s)) \<and> i \<notin> set (mi_avail (pl_indexer (pt_pool s)))) \<and>
    distinct (live (pt_handles s)) \<and>
    mset (mi_avail (pl_indexer (pt_pool s))) + mset (live (pt_handles s)) + pt_busy (pt_pcs s) =
      mset (all_indices n)"
proof -
  have "mutex.pool_ok n p []"
    using assms(1) mutex.static_ok [OF TrueI, of d n] mutex.runtime_ok [OF TrueI, of d n] by fastforce
  from mutex.pt_inv_reachable [OF this assms(2)] have inv: "mutex.pt_inv n s" .
  then have own: "mutex.owned n (pl_indexer (pt_pool s)) (mset (live (pt_handles s)) + pt_busy (pt_pcs s))"
    by (simp add: mutex.pt_inv_def)
  have "count (mset (live (pt_handles s))) i \<le> 1" for i
    using mutex.owned_once [OF own, of i] unfolding count_union by linarith
  then have "distinct (live (pt_handles s))" by (rule distinct_if_count)
  moreover have "mset (mi_avail (pl_indexer (pt_pool s))) + mset (live (pt_handles s)) + pt_busy (pt_pcs s) =
      mset (all_indices n)"
    using own by (simp only: mutex.owned_def add.assoc)
  moreover have "\<forall>e. Some (P_Fail e) \<notin> set (pt_pcs s)" using mutex.pt_no_failure [OF inv] by blast
  moreover have "i \<notin> set (live (pt_handles s)) \<and> i \<notin> set (mi_avail (pl_indexer (pt_pool s)))"
    if "t < length (pt_pcs s)" "i \<in> set (pt_items (pt_pcs s ! t))" for t i
    using mutex.pt_member [OF inv that] by blast
  moreover have "i \<notin> set (pt_items (pt_pcs s ! u))"
    if "t < length (pt_pcs s)" "u < length (pt_pcs s)" "t \<noteq> u" "i \<in> set (pt_items (pt_pcs s ! t))" for t u i
    using mutex.pt_private [OF inv that] .
  ultimately show ?thesis by blast
qed

text \<open>Two threads on a pool of one item: the second finds it empty, until the first is done.\<close>

definition pt_sample :: "int pt_action list" where
  "pt_sample = [PTake 0, PStep 0, PTake 1, PStep 0, PUse 0 0 (\<lambda>v. v + 1), PStep 1, PStep 1, PStep 0,
     PDestroy 1 1, PStep 1, PStep 1]"

theorem mutex_pool_threads_witness:
  "\<exists>p s. StaticPool mutex_ops (7 :: int) 1 = Inr p \<and>
     pt_exec mutex_ops (Resetable (\<lambda>_. 0)) pt_sample (pt_init p 2) = Some s \<and>
     pt_items (pt_pcs s ! 1) = [0] \<and> 0 \<notin> set (pt_items (pt_pcs s ! 0)) \<and> pl_items (pt_pool s) = [0]"
proof -
  obtain p where p: "StaticPool mutex_ops (7 :: int) 1 = Inr p"
    using mutex.static_ok [OF TrueI, of 7 1] by blast
  have "map_option (\<lambda>s. (pt_items (pt_pcs s ! 1), pl_items (pt_pool s), length (pt_pcs s)))
      (case StaticPool mutex_ops (7 :: int) 1 of Inl e \<Rightarrow> None | Inr p \<Rightarrow>
        pt_exec mutex_ops (Resetable (\<lambda>_. 0)) pt_sample (pt_init p 2)) = Some ([0], [0], 2)"
    by code_simp
  then obtain s where s: "pt_exec mutex_ops (Resetable (\<lambda>_. 0)) pt_sample (pt_init p 2) = Some s"
    "pt_items (pt_pcs s ! 1) = [0]" "pl_items (pt_pool s) = [0]" "length (pt_pcs s) = 2"
    by (auto simp: p)
  have "0 \<notin> set (pt_items (pt_pcs s ! 0))"
    using mutex_pool_threads [OF _ pt_exec_reachable [OF pt_reachable.pt_begin s(1)], of 7 1] s(2,4) p
    by (auto dest!: spec [of _ "1 :: nat"])
  with p s show ?thesis by blast
qed

end
