(* ===== verification/SoloCall.thy ===== *)
theory SoloCall
  imports Prelude
begin

text \<open>
  A call that its thread runs alone, with exchanges that may fail spuriously at any step. A step
  that does not fail spuriously brings the call nearer to its end; one that does may send it back,
  but never further from the end than \<open>bound\<close> steps. So the call has ended when its thread has
  made \<open>bound\<close> steps, and \<open>bound\<close> more for each spurious failure among them.
\<close>

fun solo_run :: "(bool \<Rightarrow> 's \<Rightarrow> 's option) \<Rightarrow> bool list \<Rightarrow> 's \<Rightarrow> 's option" where
  "solo_run step [] s = Some s"
| "solo_run step (f # fs) s = (case step f s of None \<Rightarrow> None | Some s' \<Rightarrow> solo_run step fs s')"

locale solo_call =
  fixes step :: "bool \<Rightarrow> 's \<Rightarrow> 's option"
    and inv :: "'s \<Rightarrow> bool"
    and ended :: "'s \<Rightarrow> bool"
    and left :: "'s \<Rightarrow> nat"
    and bound :: nat
  assumes goes_on: "inv s \<Longrightarrow> \<not> ended s \<Longrightarrow>
      \<exists>s'. step spurious s = Some s' \<and> inv s' \<and> (\<not> spurious \<longrightarrow> ended s' \<or> left s' < left s)"
    and left_pos: "inv s \<Longrightarrow> \<not> ended s \<Longrightarrow> 0 < left s"
    and left_bound: "inv s \<Longrightarrow> left s \<le> bound"
begin

lemma ends_within:
  assumes "inv s" "left s + bound * count_list fs True \<le> length fs"
  shows "\<exists>j s'. j \<le> length fs \<and> solo_run step (take j fs) s = Some s' \<and> ended s'"
  using assms
proof (induction fs arbitrary: s)
  case Nil
  then have "ended s" using left_pos by fastforce
  then show ?case by (intro exI [of _ 0] exI [of _ s]) simp
next
  case (Cons f fs)
  show ?case
  proof (cases "ended s")
    case True
    then show ?thesis by (intro exI [of _ 0] exI [of _ s]) simp
  next
    case False
    from goes_on [OF Cons.prems(1) this, of f] obtain s' where
      s': "step f s = Some s'" "inv s'" "\<not> f \<longrightarrow> ended s' \<or> left s' < left s" by blast
    show ?thesis
    proof (cases "ended s'")
      case True
      with s'(1) show ?thesis by (intro exI [of _ 1] exI [of _ s']) simp
    next
      case False
      with s'(3) Cons.prems(2) left_pos [OF Cons.prems(1) \<open>\<not> ended s\<close>] left_bound [OF s'(2)]
      have "left s' + bound * count_list fs True \<le> length fs" by (cases f) simp_all
      from Cons.IH [OF s'(2) this] obtain j s'' where
        "j \<le> length fs" "solo_run step (take j fs) s' = Some s''" "ended s''" by blast
      with s'(1) show ?thesis by (intro exI [of _ "Suc j"] exI [of _ s'']) simp
    qed
  qed
qed

lemma ends:
  assumes "inv s" "bound * Suc (count_list fs True) \<le> length fs"
  shows "\<exists>j s'. j \<le> length fs \<and> solo_run step (take j fs) s = Some s' \<and> ended s'"
  by (rule ends_within [OF assms(1)]) (use left_bound [OF assms(1)] assms(2) in simp)

end

end
