(* ===== verification/ConcurrentIndexer_Threads.thy ===== *)
theory ConcurrentIndexer_Threads
  imports ConcurrentIndexer SoloCall
begin

text \<open>
  Threads that call \<open>Next\<close> and \<open>Return\<close> of one \<open>ConcurrentIndexer\<close> at the same
  time. Every step of a thread is one step of \<open>ci_step\<close>, and the steps of different
  threads interleave in any order on one sequentially consistent memory. A thread may only
  return an index that was handed out and not yet given back, as the class requires.

  The machine has one parameter: \<open>serial\<close> says that a call of \<open>Next\<close> begins only when
  no other is in progress (any number of \<open>Return\<close> calls may be). Without it the machine is
  the class as it is used by a pool shared between threads.
\<close>

section \<open>The machine\<close>

text \<open>Held indices are paired with the thread they were handed to.\<close>

record ci_sys =
  sy_ci :: ci
  sy_pcs :: "ci_pc option list"
  sy_held :: "(nat \<times> size_t) list"

datatype ci_action = BeginNext nat | BeginReturn nat nat | Step nat bool

fun in_Next :: "ci_pc option \<Rightarrow> bool" where
  "in_Next (Some N_Load) = True"
| "in_Next (Some N_Wrap) = True"
| "in_Next (Some N_WrapCas) = True"
| "in_Next (Some (N_LoadWrite r)) = True"
| "in_Next (Some (N_Check r)) = True"
| "in_Next (Some (N_Cas r)) = True"
| "in_Next (Some (N_Read p)) = True"
| "in_Next (Some (N_Clear p v)) = True"
| "in_Next _ = False"

text \<open>What a thread's call leaves when its last step is done.\<close>

fun ci_call_ends :: "nat \<Rightarrow> ci_pc \<Rightarrow> ci_pc option \<times> (nat \<times> size_t) list" where
  "ci_call_ends t (N_Done h) = (None, if ih_Empty h then [] else [(t, ih_Get h)])"
| "ci_call_ends t R_Done = (None, [])"
| "ci_call_ends t pc = (Some pc, [])"

fun ci_act :: "bool \<Rightarrow> ci_action \<Rightarrow> ci_sys \<Rightarrow> ci_sys option" where
  "ci_act serial (BeginNext t) s =
     (if t < length (sy_pcs s) \<and> sy_pcs s ! t = None \<and>
         (serial \<longrightarrow> \<not> list_ex in_Next (sy_pcs s))
      then Some (s\<lparr>sy_pcs := (sy_pcs s)[t := Some N_Load]\<rparr>) else None)"
| "ci_act serial (BeginReturn t k) s =
     (if t < length (sy_pcs s) \<and> sy_pcs s ! t = None \<and> k < length (sy_held s)
      then Some (s\<lparr>sy_pcs := (sy_pcs s)[t := Some (R_Load (snd (sy_held s ! k)))],
                   sy_held := take k (sy_held s) @ drop (Suc k) (sy_held s)\<rparr>) else None)"
| "ci_act serial (Step t spurious) s =
     (if t < length (sy_pcs s) then
        (case sy_pcs s ! t of
           None \<Rightarrow> None
         | Some pc \<Rightarrow>
             (case ci_step spurious (sy_ci s) pc of (c', pc') \<Rightarrow>
                (case ci_call_ends t pc' of (p, got) \<Rightarrow>
                   Some (s\<lparr>sy_ci := c', sy_pcs := (sy_pcs s)[t := p],
                           sy_held := sy_held s @ got\<rparr>))))
      else None)"

fun ci_exec :: "bool \<Rightarrow> ci_action list \<Rightarrow> ci_sys \<Rightarrow> ci_sys option" where
  "ci_exec serial [] s = Some s"
| "ci_exec serial (a # as) s =
     (case ci_act serial a s of None \<Rightarrow> None | Some s' \<Rightarrow> ci_exec serial as s')"

inductive ci_reachable :: "bool \<Rightarrow> size_t \<Rightarrow> nat \<Rightarrow> ci_sys \<Rightarrow> bool"
  for serial :: bool and n :: size_t and threads :: nat where
  start: "ConcurrentIndexer_new n = Inr c \<Longrightarrow>
    ci_reachable serial n threads \<lparr>sy_ci = c, sy_pcs = replicate threads None, sy_held = []\<rparr>"
| act: "ci_reachable serial n threads s \<Longrightarrow> ci_act serial a s = Some s' \<Longrightarrow>
    ci_reachable serial n threads s'"

lemma ci_exec_reachable:
  "ci_reachable serial n threads s \<Longrightarrow> ci_exec serial as s = Some s' \<Longrightarrow>
    ci_reachable serial n threads s'"
  by (induction as arbitrary: s) (auto split: option.splits intro: ci_reachable.act)

section \<open>The invariant of serial machines\<close>

text \<open>
  Per thread: the slot a \<open>Return\<close> has claimed and not yet written, the slot a \<open>Next\<close>
  has claimed and not yet cleared, the index a \<open>Return\<close> carries.
\<close>

fun pend1 :: "ci_pc option \<Rightarrow> nat list" where
  "pend1 (Some (R_Spin i p)) = [unat p]"
| "pend1 (Some (R_Store i p)) = [unat p]"
| "pend1 _ = []"

fun claim1 :: "ci_pc option \<Rightarrow> nat list" where
  "claim1 (Some (N_Read p)) = [unat p]"
| "claim1 (Some (N_Clear p v)) = [unat p]"
| "claim1 _ = []"

fun tok1 :: "ci_pc option \<Rightarrow> size_t list" where
  "tok1 (Some (R_Load i)) = [i]"
| "tok1 (Some (R_Wrap i)) = [i]"
| "tok1 (Some (R_WrapCas i)) = [i]"
| "tok1 (Some (R_Cas i w)) = [i]"
| "tok1 (Some (R_Spin i p)) = [i]"
| "tok1 (Some (R_Store i p)) = [i]"
| "tok1 _ = []"

definition pend :: "ci_pc option list \<Rightarrow> nat list" where
  "pend pcs = concat (map pend1 pcs)"

definition claim :: "ci_pc option list \<Rightarrow> nat list" where
  "claim pcs = concat (map claim1 pcs)"

definition toks :: "ci_pc option list \<Rightarrow> size_t list" where
  "toks pcs = concat (map tok1 pcs)"

text \<open>The indices that lie in the ring.\<close>

definition stored :: "ci \<Rightarrow> size_t multiset" where
  "stored c = image_mset (\<lambda>v. v - 1) {#v \<in># mset (ci_indices c). v \<noteq> UnusedPosition#}"

text \<open>What a thread knows at each step.\<close>

fun pc_ok :: "ci \<Rightarrow> ci_pc option \<Rightarrow> bool" where
  "pc_ok c (Some (N_LoadWrite r)) \<longleftrightarrow> r = ci_readPos c \<and> r \<noteq> ci_maxPositionSize c"
| "pc_ok c (Some (N_Check r)) \<longleftrightarrow> r = ci_readPos c \<and> r \<noteq> ci_maxPositionSize c"
| "pc_ok c (Some (N_Cas r)) \<longleftrightarrow> r = ci_readPos c \<and> r \<noteq> ci_maxPositionSize c \<and>
     ci_indices c ! ci_slot c 0 \<noteq> UnusedPosition"
| "pc_ok c (Some (N_Clear p v)) \<longleftrightarrow> v = ci_indices c ! unat p"
| "pc_ok c (Some (R_Cas i w)) \<longleftrightarrow> w \<noteq> ci_maxPositionSize c"
| "pc_ok c (Some (N_Done h)) \<longleftrightarrow> False"
| "pc_ok c (Some R_Done) \<longleftrightarrow> False"
| "pc_ok c (Some Crashed) \<longleftrightarrow> False"
| "pc_ok c _ \<longleftrightarrow> True"

definition slots_ok :: "size_t \<Rightarrow> ci \<Rightarrow> ci_pc option list \<Rightarrow> bool" where
  "slots_ok n c pcs \<longleftrightarrow>
     (claim pcs = [] \<or> claim pcs = [ci_slot c (ring_size n - 1)]) \<and>
     distinct (pend pcs) \<and> (\<forall>p \<in> set (pend pcs). \<exists>j < ci_count c. p = ci_slot c j) \<and>
     (\<forall>j < ring_size n. ci_indices c ! ci_slot c j \<noteq> UnusedPosition \<longleftrightarrow>
        j < ci_count c \<and> ci_slot c j \<notin> set (pend pcs) \<or> ci_slot c j \<in> set (claim pcs))"

definition thr_inv :: "size_t \<Rightarrow> ci \<Rightarrow> ci_pc option list \<Rightarrow> size_t multiset \<Rightarrow> bool" where
  "thr_inv n c pcs H \<longleftrightarrow> ci_shape n c \<and>
     ci_count c + length (claim pcs) + length (toks pcs) + size H = unat n + length (pend pcs) \<and>
     stored c + mset (toks pcs) + H = mset (all_indices n) \<and>
     slots_ok n c pcs \<and> length (filter in_Next pcs) \<le> 1 \<and> (\<forall>pc \<in> set pcs. pc_ok c pc)"

lemma per_thread_simps [simp]:
  "pend [] = []" "pend (us @ vs) = pend us @ pend vs" "pend (p # vs) = pend1 p @ pend vs"
  "claim [] = []" "claim (us @ vs) = claim us @ claim vs" "claim (p # vs) = claim1 p @ claim vs"
  "toks [] = []" "toks (us @ vs) = toks us @ toks vs" "toks (p # vs) = tok1 p @ toks vs"
  by (simp_all add: pend_def claim_def toks_def)

lemma pend_le_toks: "length (pend pcs) \<le> length (toks pcs)"
proof (induction pcs)
  case (Cons p pcs)
  have "length (pend1 p) \<le> length (tok1 p)" by (cases p rule: pend1.cases) simp_all
  with Cons show ?case by simp
qed simp

lemma claim_in_Next: "claim1 p \<noteq> [] \<Longrightarrow> in_Next p"
  by (cases p rule: claim1.cases) simp_all

lemma not_in_Next_claim: "\<not> in_Next p \<Longrightarrow> claim1 p = []"
  using claim_in_Next by blast

lemma claim_empty: "filter in_Next pcs = [] \<Longrightarrow> claim pcs = []"
  by (induction pcs) (auto simp: not_in_Next_claim split: if_splits)

text \<open>Room in the ring: what is counted, claimed and pending fits in \<open>n\<close> slots.\<close>

lemma thr_room:
  assumes "thr_inv n c pcs H"
  shows "ci_count c + length (claim pcs) \<le> unat n" "length (pend pcs) \<le> length (toks pcs)"
  using assms pend_le_toks [of pcs] by (simp_all add: thr_inv_def)

section \<open>Steps keep the invariant\<close>

text \<open>A step that touches no shared memory and claims or drops nothing.\<close>

lemma thr_local:
  assumes "thr_inv n c (us @ p # vs) H"
    and "claim1 p' = claim1 p" "pend1 p' = pend1 p" "tok1 p' = tok1 p"
    and "in_Next p' \<longrightarrow> in_Next p \<or> filter in_Next us = [] \<and> filter in_Next vs = []" "pc_ok c p'"
  shows "thr_inv n c (us @ p' # vs) H"
  using assms by (auto simp: thr_inv_def slots_ok_def split: if_splits)

lemma others_not_in_Next:
  assumes "thr_inv n c (us @ p # vs) H" "in_Next p"
  shows "filter in_Next us = []" "filter in_Next vs = []" "claim us = []" "claim vs = []"
    "\<forall>q \<in> set us \<union> set vs. \<not> in_Next q"
  using assms by (auto simp: thr_inv_def claim_empty filter_empty_conv)

lemma pc_ok_not_in_Next:
  "\<not> in_Next q \<Longrightarrow> pc_ok c q \<Longrightarrow> ci_maxPositionSize c' = ci_maxPositionSize c \<Longrightarrow> pc_ok c' q"
  by (cases "(c, q)" rule: pc_ok.cases) simp_all

lemma pc_ok_writePos [simp]: "pc_ok (c\<lparr>ci_writePos := w\<rparr>) q = pc_ok c q"
  by (cases "(c, q)" rule: pc_ok.cases) (simp_all add: ci_slot_def ci_rpos_def)

lemma stored_pos [simp]:
  "stored (c\<lparr>ci_readPos := r\<rparr>) = stored c" "stored (c\<lparr>ci_writePos := r\<rparr>) = stored c"
  by (simp_all add: stored_def)

lemma thr_wrap_read:
  assumes inv: "thr_inv n c (us @ Some N_WrapCas # vs) H"
    and "ci_readPos c = ci_maxPositionSize c"
  shows "thr_inv n (c\<lparr>ci_readPos := 0\<rparr>) (us @ Some N_Load # vs) H"
proof -
  from inv have sh: "ci_shape n c" by (simp add: thr_inv_def)
  note w = ci_wrap_read [OF sh assms(2)] and others = others_not_in_Next [OF inv, simplified]
  have same: "ci_count (c\<lparr>ci_readPos := 0\<rparr>) = ci_count c"
    "ci_slot (c\<lparr>ci_readPos := 0\<rparr>) j = ci_slot c j" for j
    using w(2) by (simp_all add: ci_count_def ci_wpos_def ci_slot_def)
  have "\<forall>q \<in> set us \<union> set vs. pc_ok (c\<lparr>ci_readPos := 0\<rparr>) q"
    using inv others(5) by (auto simp: thr_inv_def intro: pc_ok_not_in_Next [of _ c])
  with inv w(1) same show ?thesis by (simp add: thr_inv_def slots_ok_def)
qed

lemma thr_wrap_write:
  assumes inv: "thr_inv n c (us @ Some (R_WrapCas i) # vs) H"
    and "ci_writePos c = ci_maxPositionSize c"
  shows "thr_inv n (c\<lparr>ci_writePos := 0\<rparr>) (us @ Some (R_Load i) # vs) H"
proof -
  from inv have sh: "ci_shape n c" by (simp add: thr_inv_def)
  note w = ci_wrap_write [OF sh assms(2)]
  have same: "ci_count (c\<lparr>ci_writePos := 0\<rparr>) = ci_count c"
    "ci_slot (c\<lparr>ci_writePos := 0\<rparr>) j = ci_slot c j" for j
    using w(2) by (simp_all add: ci_count_def ci_rpos_def ci_slot_def)
  from inv w(1) same show ?thesis by (simp add: thr_inv_def slots_ok_def)
qed

text \<open>Slots are told apart by their distance from the read position.\<close>

lemma slots_ok_at:
  assumes "slots_ok n c pcs" "j < ring_size n"
  shows "ci_indices c ! ci_slot c j \<noteq> UnusedPosition \<longleftrightarrow>
    j < ci_count c \<and> ci_slot c j \<notin> set (pend pcs) \<or> ci_slot c j \<in> set (claim pcs)"
  using assms by (simp add: slots_ok_def)

text \<open>\<open>Next\<close> claims the slot at the read position.\<close>

lemma slots_claim_read:
  assumes sh: "ci_shape n c" and ok: "slots_ok n c pcs" and nw: "ci_readPos c \<noteq> ci_maxPositionSize c"
    and cl: "claim pcs = []" and used: "ci_indices c ! ci_slot c 0 \<noteq> UnusedPosition"
  defines "c' \<equiv> c\<lparr>ci_readPos := ci_readPos c + 1\<rparr>"
  assumes pcs': "pend pcs' = pend pcs" "claim pcs' = [ci_slot c 0]"
  shows "slots_ok n c' pcs'" "ci_shape n c'" "ci_count c = Suc (ci_count c')"
proof -
  note f = ci_shape_facts [OF sh]
  have z: "0 < ci_count c" "ci_slot c 0 \<notin> set (pend pcs)"
    using slots_ok_at [OF ok, of 0] used cl f(1) by auto
  then obtain k where k: "ci_count c = Suc k" by (cases "ci_count c") auto
  note adv = ci_advance_read [OF sh nw k, folded c'_def]
  have last: "ci_slot c' (ring_size n - 1) = ci_slot c 0"
    using adv(3) ci_slot_mod [OF sh] f(1) by simp
  have "\<exists>j < k. p = ci_slot c' j" if "p \<in> set (pend pcs)" for p
  proof -
    from that ok k obtain j where j: "j < Suc k" "p = ci_slot c j" by (auto simp: slots_ok_def)
    with z(2) that obtain j' where "j = Suc j'" by (cases j) auto
    with j adv(3) show ?thesis by auto
  qed
  moreover have "ci_indices c' ! ci_slot c' j \<noteq> UnusedPosition \<longleftrightarrow>
      j < k \<and> ci_slot c' j \<notin> set (pend pcs) \<or> ci_slot c' j = ci_slot c 0" if j: "j < ring_size n" for j
  proof (cases "Suc j = ring_size n")
    case True
    then have "ci_slot c' j = ci_slot c 0" using last by (metis diff_Suc_1)
    with used show ?thesis by (simp add: c'_def)
  next
    case False
    with j have Sj: "Suc j < ring_size n" by simp
    then have "ci_slot c' j \<noteq> ci_slot c 0"
      using ci_slot_inj [OF sh Sj f(1)] adv(3) by simp
    with slots_ok_at [OF ok Sj] cl k adv(3) show ?thesis by (simp add: c'_def)
  qed
  ultimately show "slots_ok n c' pcs'"
    using ok pcs' last adv(2) by (simp add: slots_ok_def)
  show "ci_shape n c'" "ci_count c = Suc (ci_count c')" using adv k by simp_all
qed

lemma thr_claim_read:
  assumes inv: "thr_inv n c (us @ Some (N_Cas r) # vs) H"
  shows "thr_inv n (c\<lparr>ci_readPos := ci_readPos c + 1\<rparr>)
    (us @ Some (N_Read (r mod ci_size c)) # vs) H"
proof -
  let ?pcs = "us @ Some (N_Cas r) # vs" and ?pcs' = "us @ Some (N_Read (r mod ci_size c)) # vs"
  let ?c' = "c\<lparr>ci_readPos := ci_readPos c + 1\<rparr>"
  from inv have sh: "ci_shape n c" and ok: "slots_ok n c ?pcs" and
    r: "r = ci_readPos c" "ci_readPos c \<noteq> ci_maxPositionSize c"
      "ci_indices c ! ci_slot c 0 \<noteq> UnusedPosition"
    by (auto simp: thr_inv_def)
  note others = others_not_in_Next [OF inv, simplified]
  have p': "unat (r mod ci_size c) = ci_slot c 0" using ci_read_normal(3) [OF sh r(2)] r(1) by simp
  note step = slots_claim_read [OF sh ok r(2) _ r(3), of ?pcs']
  have "slots_ok n ?c' ?pcs'" "ci_shape n ?c'" "ci_count c = Suc (ci_count ?c')"
    using step others p' by simp_all
  moreover have "\<forall>q \<in> set us \<union> set vs. pc_ok ?c' q"
    using inv others(5) by (auto simp: thr_inv_def intro: pc_ok_not_in_Next [of _ c])
  ultimately show ?thesis using inv others by (simp add: thr_inv_def)
qed

text \<open>\<open>Next\<close> clears the slot it claimed and hands its index out.\<close>

lemma mset_replace:
  assumes "k < length xs"
  shows "add_mset (xs ! k) (mset (xs[k := x])) = add_mset x (mset xs)"
  using assms by (simp add: mset_update)

lemma stored_clear:
  assumes "k < length (ci_indices c)" "ci_indices c ! k \<noteq> UnusedPosition"
  shows "stored c =
    add_mset (ci_indices c ! k - 1) (stored (c\<lparr>ci_indices := (ci_indices c)[k := UnusedPosition]\<rparr>))"
proof -
  let ?M = "mset ((ci_indices c)[k := UnusedPosition])"
  have "{#v \<in># add_mset (ci_indices c ! k) ?M. v \<noteq> UnusedPosition#} =
      {#v \<in># add_mset UnusedPosition (mset (ci_indices c)). v \<noteq> UnusedPosition#}"
    by (simp only: mset_replace [OF assms(1)])
  with assms(2) have "{#v \<in># mset (ci_indices c). v \<noteq> UnusedPosition#} =
      add_mset (ci_indices c ! k) {#v \<in># ?M. v \<noteq> UnusedPosition#}" by simp
  then show ?thesis by (simp add: stored_def)
qed

lemma stored_fill:
  assumes "k < length (ci_indices c)" "ci_indices c ! k = UnusedPosition" "x \<noteq> UnusedPosition"
  shows "stored (c\<lparr>ci_indices := (ci_indices c)[k := x]\<rparr>) = add_mset (x - 1) (stored c)"
proof -
  let ?M = "mset ((ci_indices c)[k := x])"
  have "{#v \<in># add_mset (ci_indices c ! k) ?M. v \<noteq> UnusedPosition#} =
      {#v \<in># add_mset x (mset (ci_indices c)). v \<noteq> UnusedPosition#}"
    by (simp only: mset_replace [OF assms(1)])
  with assms(2,3) show ?thesis by (simp add: stored_def)
qed

lemma thr_clear:
  assumes inv: "thr_inv n c (us @ Some (N_Clear p v) # vs) H"
  defines "c' \<equiv> c\<lparr>ci_indices := (ci_indices c)[unat p := UnusedPosition]\<rparr>"
  shows "thr_inv n c' (us @ None # vs) (add_mset (v - 1) H)" "unat p < length (ci_indices c)"
proof -
  let ?pcs = "us @ Some (N_Clear p v) # vs" and ?pcs' = "us @ None # vs"
  from inv have sh: "ci_shape n c" and ok: "slots_ok n c ?pcs" and v: "v = ci_indices c ! unat p"
    by (auto simp: thr_inv_def)
  note others = others_not_in_Next [OF inv, simplified] and f = ci_shape_facts [OF sh]
  have p: "unat p = ci_slot c (ring_size n - 1)" using ok others by (simp add: slots_ok_def)
  have last: "ring_size n - 1 < ring_size n" "\<not> ring_size n - 1 < ci_count c"
    using f thr_room(1) [OF inv] others by auto
  show lt: "unat p < length (ci_indices c)" using p f by (simp add: ci_slot_def)
  have used: "ci_indices c ! unat p \<noteq> UnusedPosition"
    using slots_ok_at [OF ok last(1)] p by simp
  have same: "ci_slot c' j = ci_slot c j" "ci_count c' = ci_count c" for j
    by (simp_all add: c'_def)
  have "ci_indices c' ! ci_slot c' j \<noteq> UnusedPosition \<longleftrightarrow>
      j < ci_count c \<and> ci_slot c j \<notin> set (pend ?pcs')" if j: "j < ring_size n" for j
  proof (cases "j = ring_size n - 1")
    case True
    then show ?thesis using p lt last by (simp add: same) (simp add: c'_def)
  next
    case False
    then have "ci_slot c j \<noteq> unat p" using p j last ci_slot_inj [OF sh] by simp
    with slots_ok_at [OF ok j] others show ?thesis by (simp add: same) (simp add: c'_def)
  qed
  then have "slots_ok n c' ?pcs'" using ok others by (simp add: slots_ok_def same)
  moreover have "\<forall>q \<in> set us \<union> set vs. pc_ok c' q"
    using inv others(5) by (auto simp: thr_inv_def c'_def intro: pc_ok_not_in_Next [of _ c])
  moreover have "ci_shape n c'" using sh by (simp add: ci_shape_def c'_def)
  moreover have "stored c = add_mset (v - 1) (stored c')"
    using stored_clear [OF lt used] v by (simp add: c'_def)
  moreover have "ci_count c + length (claim ?pcs) + length (toks ?pcs) + size H =
      unat n + length (pend ?pcs)" "stored c + mset (toks ?pcs) + H = mset (all_indices n)"
    using inv by (simp_all only: thr_inv_def)
  ultimately show "thr_inv n c' ?pcs' (add_mset (v - 1) H)"
    using others by (simp add: thr_inv_def same)
qed

text \<open>\<open>Return\<close> claims the slot at the write position.\<close>

lemma thr_claim_write:
  assumes inv: "thr_inv n c (us @ Some (R_Cas i w) # vs) H" and w: "w = ci_writePos c"
  defines "c' \<equiv> c\<lparr>ci_writePos := ci_writePos c + 1\<rparr>"
  shows "thr_inv n c' (us @ Some (R_Spin i (w mod ci_size c)) # vs) H"
proof -
  let ?pcs = "us @ Some (R_Cas i w) # vs" and ?pcs' = "us @ Some (R_Spin i (w mod ci_size c)) # vs"
  from inv w have sh: "ci_shape n c" and ok: "slots_ok n c ?pcs" and
    nw: "ci_writePos c \<noteq> ci_maxPositionSize c" by (auto simp: thr_inv_def)
  note f = ci_shape_facts [OF sh]
  have room: "ci_count c + length (claim ?pcs) < unat n"
    using inv pend_le_toks [of us] pend_le_toks [of vs] by (simp add: thr_inv_def)
  then have "Suc (ci_count c) < max_pos n" using f by linarith
  note adv = ci_advance_write [OF sh nw this, folded c'_def]
  have p: "unat (w mod ci_size c) = ci_slot c (ci_count c)"
    using ci_write_normal(3) [OF sh nw] w by simp
  have cS: "ci_count c < ring_size n" "ci_count c \<noteq> ring_size n - 1" using room f by linarith+
  have old: "\<forall>q \<in> set (pend ?pcs). \<exists>j < ci_count c. q = ci_slot c j"
    using ok by (simp add: slots_ok_def)
  have new: "ci_slot c (ci_count c) \<notin> set (pend ?pcs)"
    using old cS(1) ci_slot_inj [OF sh] by fastforce
  have "ci_slot c (ci_count c) \<noteq> ci_slot c (ring_size n - 1)"
    using cS ci_slot_inj [OF sh cS(1), of "ring_size n - 1"] f(1) by simp
  moreover have "claim ?pcs = [] \<or> claim ?pcs = [ci_slot c (ring_size n - 1)]"
    using ok by (simp only: slots_ok_def)
  ultimately have cl: "ci_slot c (ci_count c) \<notin> set (claim ?pcs)"
    by (elim disjE) (simp_all del: per_thread_simps)
  have "ci_indices c ! ci_slot c j \<noteq> UnusedPosition \<longleftrightarrow>
      j < Suc (ci_count c) \<and> ci_slot c j \<notin> set (pend ?pcs') \<or> ci_slot c j \<in> set (claim ?pcs')"
    if j: "j < ring_size n" for j
    using slots_ok_at [OF ok j] p cl ci_slot_inj [OF sh j cS(1)] by (auto simp: less_Suc_eq)
  moreover have "distinct (pend ?pcs')" using ok new p by (simp add: slots_ok_def)
  moreover have "\<exists>j < Suc (ci_count c). q = ci_slot c j" if "q \<in> set (pend ?pcs')" for q
    using that old p by (auto simp: less_Suc_eq)
  ultimately have "slots_ok n c' ?pcs'"
    using ok adv(2,3) by (simp add: slots_ok_def) (simp add: c'_def)
  with inv adv(1,2) show ?thesis by (simp add: thr_inv_def) (simp add: c'_def)
qed

text \<open>\<open>Return\<close> writes its index to the slot it claimed.\<close>

lemma thr_pending_unused:
  assumes inv: "thr_inv n c pcs H" and p: "p \<in> set (pend pcs)"
  obtains j where "j < ci_count c" "p = ci_slot c j" "p \<notin> set (claim pcs)"
    "ci_indices c ! p = UnusedPosition" "p < length (ci_indices c)"
proof -
  from inv have sh: "ci_shape n c" and ok: "slots_ok n c pcs" by (simp_all add: thr_inv_def)
  note f = ci_shape_facts [OF sh]
  from ok p obtain j where j: "j < ci_count c" "p = ci_slot c j" by (auto simp: slots_ok_def)
  have jS: "j < ring_size n" using j(1) thr_room(1) [OF inv] f(2) by linarith
  have "j \<noteq> ring_size n - 1" if "claim pcs \<noteq> []"
    using that j(1) thr_room(1) [OF inv] f(2) by (cases "claim pcs") auto
  then have cl: "p \<notin> set (claim pcs)"
    using ok j(2) ci_slot_inj [OF sh jS, of "ring_size n - 1"] f(1) by (auto simp: slots_ok_def)
  with slots_ok_at [OF ok jS] p j have "ci_indices c ! p = UnusedPosition" by auto
  moreover have "p < length (ci_indices c)" using j(2) f by (simp add: ci_slot_def)
  ultimately show ?thesis using that j cl by blast
qed

lemma thr_store:
  assumes inv: "thr_inv n c (us @ Some (R_Store i p) # vs) H"
  defines "c' \<equiv> c\<lparr>ci_indices := (ci_indices c)[unat p := i + 1]\<rparr>"
  shows "thr_inv n c' (us @ None # vs) H" "unat p < length (ci_indices c)"
proof -
  let ?pcs = "us @ Some (R_Store i p) # vs" and ?pcs' = "us @ None # vs"
  from inv have sh: "ci_shape n c" and ok: "slots_ok n c ?pcs" by (simp_all add: thr_inv_def)
  from thr_pending_unused [OF inv, of "unat p"] obtain j0 where
    j0: "j0 < ci_count c" "unat p = ci_slot c j0" "unat p \<notin> set (claim ?pcs)"
      "ci_indices c ! unat p = UnusedPosition" "unat p < length (ci_indices c)" by auto
  show "unat p < length (ci_indices c)" by (rule j0(5))
  have "i \<in># stored c + mset (toks ?pcs) + H" by simp
  then have "i \<in># mset (all_indices n)" using inv by (simp only: thr_inv_def)
  then have "i < n" by (simp add: set_all_indices)
  then have "unat (i + 1) = Suc (unat i)" by (rule unat_inc)
  then have nz: "i + 1 \<noteq> UnusedPosition" by (auto simp: UnusedPosition_def)
  have gone: "unat p \<notin> set (pend ?pcs')" using ok by (simp add: slots_ok_def)
  have same: "ci_slot c' j = ci_slot c j" "ci_count c' = ci_count c" for j
    by (simp_all add: c'_def)
  have val: "ci_indices c' ! q = (if q = unat p then i + 1 else ci_indices c ! q)" for q
    using j0(5) by (simp add: c'_def nth_list_update)
  have jS: "j0 < ring_size n" using j0(1) thr_room(1) [OF inv] ci_shape_facts(2) [OF sh] by linarith
  have "ci_indices c' ! ci_slot c' j \<noteq> UnusedPosition \<longleftrightarrow>
      j < ci_count c \<and> ci_slot c j \<notin> set (pend ?pcs') \<or> ci_slot c j \<in> set (claim ?pcs')"
    if j: "j < ring_size n" for j
  proof (cases "j = j0")
    case True
    with j0 gone nz val show ?thesis by (simp add: same)
  next
    case False
    then have "ci_slot c j \<noteq> unat p" using j0(2) ci_slot_inj [OF sh j jS] by simp
    with slots_ok_at [OF ok j] val show ?thesis by (auto simp: same)
  qed
  then have "slots_ok n c' ?pcs'" using ok by (simp add: slots_ok_def same)
  moreover have "pc_ok c' q" if "q \<in> set us \<union> set vs" for q
  proof -
    have old: "pc_ok c q" using inv that by (auto simp: thr_inv_def)
    have cl: "claim1 q \<noteq> [unat p]"
      using j0(3) that by (auto dest!: split_list)
    from old cl j0(4) show ?thesis
      by (cases "(c, q)" rule: pc_ok.cases) (auto simp: val same, auto simp: c'_def)
  qed
  moreover have "ci_shape n c'" using sh by (simp add: ci_shape_def c'_def)
  moreover have "stored c' = add_mset i (stored c)"
    using stored_fill [OF j0(5,4) nz] by (simp add: c'_def)
  ultimately show "thr_inv n c' ?pcs' H" using inv by (auto simp: thr_inv_def same)
qed

section \<open>Every step of every thread\<close>

lemma ci_same [simp]:
  "c\<lparr>ci_readPos := ci_readPos c\<rparr> = c" "c\<lparr>ci_writePos := ci_writePos c\<rparr> = c"
  by simp_all

lemma thr_claimed_slot:
  assumes inv: "thr_inv n c (us @ p # vs) H" and q: "claim1 p = [q]"
  shows "q < length (ci_indices c)" "ci_indices c ! q \<noteq> UnusedPosition"
proof -
  from inv have sh: "ci_shape n c" and ok: "slots_ok n c (us @ p # vs)" by (simp_all add: thr_inv_def)
  note f = ci_shape_facts [OF sh]
  have mem: "q \<in> set (claim (us @ p # vs))" using q by simp
  moreover have "claim (us @ p # vs) = [] \<or> claim (us @ p # vs) = [ci_slot c (ring_size n - 1)]"
    using ok by (simp only: slots_ok_def)
  ultimately have "q = ci_slot c (ring_size n - 1)"
    by (elim disjE) (simp_all del: per_thread_simps)
  with mem have q': "q = ci_slot c (ring_size n - 1)"
    "ci_slot c (ring_size n - 1) \<in> set (claim (us @ p # vs))" by blast+
  then show "q < length (ci_indices c)" using f by (simp add: ci_slot_def)
  show "ci_indices c ! q \<noteq> UnusedPosition"
    using slots_ok_at [OF ok, of "ring_size n - 1"] q' f(1) by (simp del: per_thread_simps)
qed

lemma thr_step_Next:
  assumes inv: "thr_inv n c (us @ Some pc # vs) H" and pc: "in_Next (Some pc)"
    and step: "ci_step sp c pc = (c', pc')" and ends: "ci_call_ends t pc' = (p, got)"
  shows "thr_inv n c' (us @ p # vs) (H + mset (map snd got))"
proof -
  note others = others_not_in_Next [OF inv pc]
  note loc = thr_local [OF inv, of p]
  from inv have sh: "ci_shape n c" and ok: "slots_ok n c (us @ Some pc # vs)" and
    pok: "pc_ok c (Some pc)" by (simp_all add: thr_inv_def)
  have lt: "ci_slot c j < length (ci_indices c)" for j
    using ci_shape_facts [OF sh] by (simp add: ci_slot_def)
  from pc show ?thesis
  proof (cases "Some pc" rule: in_Next.cases)
    case 1
    with step ends loc show ?thesis by (auto split: if_splits)
  next
    case 2
    with step ends loc show ?thesis by (auto split: if_splits)
  next
    case 3
    with step ends loc inv show ?thesis
      by (auto simp: compare_exchange_weak_def intro: thr_wrap_read split: if_splits)
  next
    case (4 r)
    with step ends loc pok show ?thesis by (auto split: if_splits)
  next
    case (5 r)
    with pok have r: "r = ci_readPos c" "ci_readPos c \<noteq> ci_maxPositionSize c" by auto
    from ci_read_normal(3) [OF sh r(2)] r(1) have "unat (r mod ci_size c) = ci_slot c 0" by simp
    with 5 step ends loc pok lt show ?thesis by (auto split: if_splits)
  next
    case (6 r)
    with step ends loc inv pok show ?thesis
      by (auto simp: compare_exchange_weak_def intro: thr_claim_read split: if_splits)
  next
    case (7 q)
    then have "unat q < length (ci_indices c)"
      using thr_claimed_slot(1) [OF inv, of "unat q"] by simp
    with 7 step ends loc show ?thesis by (auto split: if_splits)
  next
    case (8 q v)
    with inv have inv': "thr_inv n c (us @ Some (N_Clear q v) # vs) H" by simp
    from 8 step ends thr_clear [OF inv'] show ?thesis by (auto simp: add.commute)
  qed simp_all
qed

lemma thr_step_Return:
  assumes inv: "thr_inv n c (us @ Some pc # vs) H" and pc: "\<not> in_Next (Some pc)"
    and step: "ci_step sp c pc = (c', pc')" and ends: "ci_call_ends t pc' = (p, got)"
  shows "thr_inv n c' (us @ p # vs) (H + mset (map snd got))"
proof -
  note loc = thr_local [OF inv, of p]
  from inv have pok: "pc_ok c (Some pc)" by (simp add: thr_inv_def)
  from pc show ?thesis
  proof (cases pc)
    case (R_Load i)
    with step ends loc show ?thesis by (auto split: if_splits)
  next
    case (R_Wrap i)
    with step ends loc show ?thesis by (auto split: if_splits)
  next
    case (R_WrapCas i)
    with step ends loc inv show ?thesis
      by (auto simp: compare_exchange_weak_def intro: thr_wrap_write split: if_splits)
  next
    case (R_Cas i w)
    with inv have inv': "thr_inv n c (us @ Some (R_Cas i w) # vs) H" by simp
    from R_Cas step ends loc thr_claim_write [OF inv'] show ?thesis
      by (auto simp: compare_exchange_weak_def split: if_splits)
  next
    case (R_Spin i q)
    then have "unat q \<in> set (pend (us @ Some pc # vs))" by simp
    from thr_pending_unused [OF inv this] have
      "unat q < length (ci_indices c)" "ci_indices c ! unat q = UnusedPosition" by blast+
    with R_Spin step ends loc show ?thesis by (auto split: if_splits)
  next
    case (R_Store i q)
    with inv have inv': "thr_inv n c (us @ Some (R_Store i q) # vs) H" by simp
    from R_Store step ends thr_store [OF inv'] show ?thesis by auto
  qed (use pok in simp_all)
qed

lemma step_in_Next:
  "in_Next (Some pc) \<Longrightarrow> ci_step sp c pc = (c', pc') \<Longrightarrow>
     in_Next (Some pc') \<or> (\<exists>h. pc' = N_Done h) \<or> pc' = Crashed"
  by (cases pc) (auto split: if_splits sum.splits prod.splits)

lemma step_in_Return:
  "tok1 (Some pc) \<noteq> [] \<Longrightarrow> ci_step sp c pc = (c', pc') \<Longrightarrow>
     tok1 (Some pc') \<noteq> [] \<or> pc' = R_Done \<or> pc' = Crashed"
  by (cases pc) (auto split: if_splits sum.splits prod.splits)

lemma tok_not_Next: "tok1 (Some pc) \<noteq> [] \<Longrightarrow> \<not> in_Next (Some pc)"
  by (cases pc) simp_all

lemma thr_not_crashed: "thr_inv n c (us @ Some Crashed # vs) H \<Longrightarrow> False"
  by (simp add: thr_inv_def)

lemma thr_begin_Return:
  "thr_inv n c (us @ None # vs) (add_mset i H) \<Longrightarrow> thr_inv n c (us @ Some (R_Load i) # vs) H"
  by (simp add: thr_inv_def slots_ok_def)

lemma thr_begin_Next:
  assumes "thr_inv n c (us @ None # vs) H" "\<not> list_ex in_Next us" "\<not> list_ex in_Next vs"
  shows "thr_inv n c (us @ Some N_Load # vs) H"
  using assms by (intro thr_local [OF assms(1)]) (auto simp: list_ex_iff filter_empty_conv)

lemma call_ends_simps:
  "in_Next (Some pc) \<or> tok1 (Some pc) \<noteq> [] \<Longrightarrow> ci_call_ends t pc = (Some pc, [])"
  by (cases pc) simp_all

text \<open>A step of a \<open>Return\<close> and one of a \<open>Next\<close>, for programs that make these calls.\<close>

lemma thr_in_Return:
  assumes inv: "thr_inv n c (us @ Some pc # vs) H" and pc: "tok1 (Some pc) \<noteq> []"
    and c: "ci_step sp c pc = (c', pc')"
  shows "pc' = R_Done \<and> thr_inv n c' (us @ None # vs) H \<or>
    pc' \<noteq> R_Done \<and> tok1 (Some pc') \<noteq> [] \<and> thr_inv n c' (us @ Some pc' # vs) H"
proof -
  obtain p got where ends: "ci_call_ends 0 pc' = (p, got)" by (cases "ci_call_ends 0 pc'")
  note inv' = thr_step_Return [OF inv tok_not_Next [OF pc] c ends]
  from step_in_Return [OF pc c] show ?thesis
  proof (elim disjE)
    assume tok: "tok1 (Some pc') \<noteq> []"
    then have "pc' \<noteq> R_Done" by auto
    with tok call_ends_simps [of pc' 0] ends inv' show ?thesis by simp
  next
    assume "pc' = Crashed"
    with ends have "p = Some Crashed" by simp
    with inv' thr_not_crashed show ?thesis by blast
  qed (use inv' ends in auto)
qed

lemma thr_in_Next:
  assumes inv: "thr_inv n c (us @ Some pc # vs) H" and pc: "in_Next (Some pc)"
    and c: "ci_step sp c pc = (c', pc')"
  shows "(\<exists>h. pc' = N_Done h \<and>
      thr_inv n c' (us @ None # vs) (mset (if ih_Empty h then [] else [ih_Get h]) + H)) \<or>
    (\<forall>h. pc' \<noteq> N_Done h) \<and> in_Next (Some pc') \<and> thr_inv n c' (us @ Some pc' # vs) H"
proof -
  obtain p got where ends: "ci_call_ends 0 pc' = (p, got)" by (cases "ci_call_ends 0 pc'")
  note inv' = thr_step_Next [OF inv pc c ends]
  from step_in_Next [OF pc c] show ?thesis
  proof (elim disjE exE)
    assume nx: "in_Next (Some pc')"
    then have "pc' \<noteq> N_Done h" for h by auto
    with nx call_ends_simps [of pc' 0] ends inv' show ?thesis by simp
  next
    fix h
    assume "pc' = N_Done h"
    with ends inv' show ?thesis by (auto split: if_splits)
  next
    assume "pc' = Crashed"
    with ends have "p = Some Crashed" by simp
    with inv' thr_not_crashed show ?thesis by blast
  qed
qed

definition sys_inv :: "size_t \<Rightarrow> ci_sys \<Rightarrow> bool" where
  "sys_inv n s \<longleftrightarrow> thr_inv n (sy_ci s) (sy_pcs s) (mset (map snd (sy_held s)))"

lemma sys_inv_at:
  assumes "sys_inv n s" "t < length (sy_pcs s)"
  shows "thr_inv n (sy_ci s) (take t (sy_pcs s) @ sy_pcs s ! t # drop (Suc t) (sy_pcs s))
    (mset (map snd (sy_held s)))"
  using assms by (simp add: sys_inv_def id_take_nth_drop [symmetric])

lemma act_Step:
  assumes inv: "sys_inv n s" and act: "ci_act serial (Step t sp) s = Some s'"
  shows "sys_inv n s'"
proof -
  from act have t: "t < length (sy_pcs s)" by (simp split: if_splits)
  with act obtain pc where pc: "sy_pcs s ! t = Some pc" by (auto split: option.splits)
  obtain c' pc' where step: "ci_step sp (sy_ci s) pc = (c', pc')" by (cases "ci_step sp (sy_ci s) pc")
  obtain p got where ends: "ci_call_ends t pc' = (p, got)" by (cases "ci_call_ends t pc'")
  from act t pc step ends have s': "s' = s\<lparr>sy_ci := c', sy_pcs := (sy_pcs s)[t := p],
      sy_held := sy_held s @ got\<rparr>" by simp
  note at = sys_inv_at [OF inv t, unfolded pc]
  have "thr_inv n c' (take t (sy_pcs s) @ p # drop (Suc t) (sy_pcs s))
      (mset (map snd (sy_held s)) + mset (map snd got))"
    using thr_step_Next [OF at _ step ends] thr_step_Return [OF at _ step ends] by blast
  with t show ?thesis by (simp add: sys_inv_def s' upd_conv_take_nth_drop)
qed

lemma act_BeginNext:
  assumes inv: "sys_inv n s" and act: "ci_act True (BeginNext t) s = Some s'"
  shows "sys_inv n s'"
proof -
  from act have t: "t < length (sy_pcs s)" "sy_pcs s ! t = None"
    and idle: "filter in_Next (sy_pcs s) = []"
    and s': "s' = s\<lparr>sy_pcs := (sy_pcs s)[t := Some N_Load]\<rparr>"
    by (auto simp: list_ex_iff filter_empty_conv split: if_splits)
  have "filter in_Next (take t (sy_pcs s)) = []" "filter in_Next (drop (Suc t) (sy_pcs s)) = []"
    using idle by (auto simp: filter_empty_conv dest: in_set_takeD in_set_dropD)
  with thr_local [OF sys_inv_at [OF inv t(1)], of "Some N_Load"] t show ?thesis
    by (simp add: sys_inv_def s' upd_conv_take_nth_drop)
qed

lemma act_BeginReturn:
  assumes inv: "sys_inv n s" and act: "ci_act serial (BeginReturn t k) s = Some s'"
  shows "sys_inv n s'"
proof -
  let ?us = "take t (sy_pcs s)" and ?vs = "drop (Suc t) (sy_pcs s)" and ?h = "map snd (sy_held s)"
  let ?h' = "map snd (take k (sy_held s) @ drop (Suc k) (sy_held s))"
  from act have t: "t < length (sy_pcs s)" "sy_pcs s ! t = None" and k: "k < length (sy_held s)"
    and s': "s' = s\<lparr>sy_pcs := (sy_pcs s)[t := Some (R_Load (snd (sy_held s ! k)))],
      sy_held := take k (sy_held s) @ drop (Suc k) (sy_held s)\<rparr>"
    by (auto split: if_splits)
  have h: "mset ?h = add_mset (snd (sy_held s ! k)) (mset ?h')"
  proof -
    have "sy_held s = take k (sy_held s) @ sy_held s ! k # drop (Suc k) (sy_held s)"
      using id_take_nth_drop [OF k] .
    then have "?h = map snd (take k (sy_held s) @ sy_held s ! k # drop (Suc k) (sy_held s))" by simp
    then show ?thesis by simp
  qed
  have "thr_inv n (sy_ci s) (?us @ None # ?vs) (mset ?h)"
    using sys_inv_at [OF inv t(1)] t(2) by simp
  then have "thr_inv n (sy_ci s) (?us @ Some (R_Load (snd (sy_held s ! k))) # ?vs) (mset ?h')"
    unfolding h by (simp add: thr_inv_def slots_ok_def)
  with t show ?thesis by (simp add: sys_inv_def s' upd_conv_take_nth_drop)
qed

lemma act_inv: "sys_inv n s \<Longrightarrow> ci_act True a s = Some s' \<Longrightarrow> sys_inv n s'"
  by (cases a) (blast intro: act_Step act_BeginNext act_BeginReturn)+

section \<open>Idle machines and the ring of one thread\<close>

text \<open>The used slots, read from the read position on, are the ring's contents.\<close>

lemma mset_rotate_list: "mset (rotate k xs) = mset xs"
  by (simp add: rotate_drop_take) (metis add.commute append_take_drop_id mset_append)

lemma map_slots: "map (\<lambda>j. ci_indices c ! ci_slot c j) [0..<length (ci_indices c)] =
    rotate (ci_rpos c) (ci_indices c)"
  by (rule nth_equalityI) (simp_all add: nth_rotate ci_slot_def)

lemma filter_less_upt: "k \<le> m \<Longrightarrow> filter (\<lambda>j. j < k) [0..<m] = [0..<k]"
  by (induction m) (auto simp: le_Suc_eq)

lemma stored_avail:
  assumes "ci_inv n c"
  shows "stored c = mset (ci_avail c)"
proof -
  from assms have sh: "ci_shape n c" and "ci_count c \<le> unat n" by (simp_all add: ci_inv_def)
  then have le: "ci_count c \<le> ring_size n" using ci_shape_facts(2) [OF sh] by linarith
  let ?f = "\<lambda>j. ci_indices c ! ci_slot c j"
  have "mset (ci_indices c) = mset (map ?f [0..<ring_size n])"
    using map_slots [of c] ci_shape_facts(9) [OF sh] by (simp add: mset_rotate_list)
  then have "{#v \<in># mset (ci_indices c). v \<noteq> UnusedPosition#} =
      mset (filter (\<lambda>v. v \<noteq> UnusedPosition) (map ?f [0..<ring_size n]))" by simp
  also have "filter (\<lambda>v. v \<noteq> UnusedPosition) (map ?f [0..<ring_size n]) =
      map ?f (filter (\<lambda>j. j < ci_count c) [0..<ring_size n])"
    using assms by (auto simp: filter_map ci_inv_def intro!: arg_cong [of _ _ "map _"] filter_cong)
  finally show ?thesis
    using le by (simp add: stored_def ci_avail_def filter_less_upt image_mset.compositionality o_def)
qed

lemma idle_lists:
  assumes "\<forall>pc \<in> set pcs. pc = None"
  shows "pend pcs = []" "claim pcs = []" "toks pcs = []" "filter in_Next pcs = []"
    "\<forall>pc \<in> set pcs. pc_ok c pc"
  using assms by (induction pcs) auto

lemma idle_inv:
  assumes "\<forall>pc \<in> set pcs. pc = None"
  shows "thr_inv n c pcs H \<longleftrightarrow> ci_inv n c \<and> mset (ci_avail c) + H = mset (all_indices n)"
proof -
  have "ci_shape n c \<and> slots_ok n c pcs \<and> ci_count c \<le> unat n \<longleftrightarrow> ci_inv n c"
    by (auto simp: ci_inv_def slots_ok_def idle_lists [OF assms])
  moreover have "ci_count c + size H = unat n" if "mset (ci_avail c) + H = mset (all_indices n)"
    using arg_cong [OF that, of size] by (simp add: ci_avail_def)
  ultimately show ?thesis
    using stored_avail [of n c] idle_lists [OF assms] by (auto simp: thr_inv_def)
qed

lemma reachable_inv:
  assumes "ci_reachable True n threads s" and n: "size_limit n"
  shows "sys_inv n s"
  using assms(1)
proof induction
  case (start c)
  with ci_new_ok [OF n] have "ci_inv n c" "ci_avail c = all_indices n" by auto
  then show ?case using idle_inv [of "replicate threads None" n c "{#}"] by (simp add: sys_inv_def)
next
  case (act s a s')
  then show ?case by (blast intro: act_inv)
qed

section \<open>Progress\<close>

text \<open>
  How far a call is from its end, when its thread runs alone and no exchange fails
  spuriously: the number of steps left.
\<close>

fun steps_left :: "ci \<Rightarrow> ci_pc \<Rightarrow> nat" where
  "steps_left c (N_Clear p v) = 1"
| "steps_left c (N_Read p) = 2"
| "steps_left c (N_Cas r) = 3"
| "steps_left c (N_Check r) = 4"
| "steps_left c (N_LoadWrite r) = 5"
| "steps_left c N_Load = (if ci_readPos c = ci_maxPositionSize c then 9 else 6)"
| "steps_left c N_Wrap = (if ci_readPos c = ci_maxPositionSize c then 8 else 7)"
| "steps_left c N_WrapCas = (if ci_readPos c = ci_maxPositionSize c then 7 else 8)"
| "steps_left c (R_Store i p) = 1"
| "steps_left c (R_Spin i p) = 2"
| "steps_left c (R_Cas i w) = (if w = ci_writePos c then 3 else 8)"
| "steps_left c (R_Load i) = (if ci_writePos c = ci_maxPositionSize c then 7 else 4)"
| "steps_left c (R_Wrap i) = (if ci_writePos c = ci_maxPositionSize c then 6 else 5)"
| "steps_left c (R_WrapCas i) = (if ci_writePos c = ci_maxPositionSize c then 5 else 6)"
| "steps_left c _ = 0"

lemma steps_left_bound: "steps_left c pc \<le> 9"
  by (cases "(c, pc)" rule: steps_left.cases) simp_all

text \<open>
  In a serial machine neither busy-wait ever waits: the slot a \<open>Next\<close> has claimed is
  written, and the slot a \<open>Return\<close> has claimed is cleared, when the thread looks.
\<close>

lemma thr_no_wait:
  assumes inv: "thr_inv n c pcs H" and pc: "Some pc \<in> set pcs"
  shows "pc = N_Read p \<Longrightarrow> ci_step sp c pc = (c, N_Clear p (ci_indices c ! unat p))"
    "pc = R_Spin i p \<Longrightarrow> ci_step sp c pc = (c, R_Store i p)"
proof -
  from pc obtain us vs where pcs: "pcs = us @ Some pc # vs" by (meson split_list)
  show "ci_step sp c pc = (c, N_Clear p (ci_indices c ! unat p))" if "pc = N_Read p"
    using thr_claimed_slot [OF inv [unfolded pcs], of "unat p"] that by simp
  show "ci_step sp c pc = (c, R_Store i p)" if "pc = R_Spin i p"
  proof -
    have "unat p \<in> set (pend pcs)" using that pcs by simp
    from thr_pending_unused [OF inv this] have
      "unat p < length (ci_indices c)" "ci_indices c ! unat p = UnusedPosition" by blast+
    with that show ?thesis by simp
  qed
qed

lemma steps_left_step:
  assumes inv: "thr_inv n c pcs H" and pc: "Some pc \<in> set pcs"
    and step: "ci_step False c pc = (c', pc')"
  shows "ci_finished pc' \<or> steps_left c' pc' < steps_left c pc"
proof -
  from inv pc have pok: "pc_ok c (Some pc)" and sh: "ci_shape n c" by (auto simp: thr_inv_def)
  have "unat (ci_maxPositionSize c) \<noteq> 0" using ci_shape_facts [OF sh] by simp
  then have nz: "ci_maxPositionSize c \<noteq> 0" by auto
  note wait = thr_no_wait [OF inv pc, where sp = False]
  show ?thesis
    using step pok nz wait
    by (cases pc) (auto simp: compare_exchange_weak_def split: sum.splits if_splits)
qed

text \<open>The solo run of thread \<open>t\<close>.\<close>

text \<open>A thread alone, in a call.\<close>

definition call_left :: "nat \<Rightarrow> ci_sys \<Rightarrow> nat" where
  "call_left t s = (case sy_pcs s ! t of None \<Rightarrow> 0 | Some pc \<Rightarrow> steps_left (sy_ci s) pc)"

lemma solo_step:
  assumes inv: "sys_inv n s" and t: "t < length (sy_pcs s)" "sy_pcs s ! t = Some pc"
  shows "\<exists>s'. ci_act True (Step t sp) s = Some s' \<and> sys_inv n s' \<and> t < length (sy_pcs s') \<and>
    (\<not> sp \<longrightarrow> sy_pcs s' ! t = None \<or> call_left t s' < call_left t s)"
proof -
  obtain c' pc' where step: "ci_step sp (sy_ci s) pc = (c', pc')" by (cases "ci_step sp (sy_ci s) pc")
  obtain p got where ends: "ci_call_ends t pc' = (p, got)" by (cases "ci_call_ends t pc'")
  define s' where "s' = s\<lparr>sy_ci := c', sy_pcs := (sy_pcs s)[t := p], sy_held := sy_held s @ got\<rparr>"
  have act: "ci_act True (Step t sp) s = Some s'" using t step ends by (simp add: s'_def)
  have inv': "sys_inv n s'" using act_inv [OF inv act] .
  have now: "sy_pcs s' ! t = p" "t < length (sy_pcs s')" using t(1) by (simp_all add: s'_def)
  have "call_left t s' < call_left t s" if sp: "\<not> sp" and Some: "p = Some q" for q
  proof -
    have "q = pc' \<and> (\<not> ci_finished pc' \<or> pc' = Crashed)"
      using ends Some by (cases "(t, pc')" rule: ci_call_ends.cases) auto
    then have q: "q = pc'" and unfinished: "\<not> ci_finished pc' \<or> pc' = Crashed" by blast+
    have "Some pc' \<in> set (sy_pcs s')" using now Some q by (metis nth_mem)
    then have "pc' \<noteq> Crashed" using inv' by (auto simp: sys_inv_def thr_inv_def)
    moreover have "Some pc \<in> set (sy_pcs s)" using t by (metis nth_mem)
    ultimately have "steps_left c' pc' < steps_left (sy_ci s) pc"
      using steps_left_step inv step sp unfinished unfolding sys_inv_def by (metis (full_types))
    then show ?thesis using now(1) Some q t(2) by (simp add: call_left_def s'_def)
  qed
  with act inv' now show ?thesis by (cases p) auto
qed

lemma call_left_pos:
  assumes "sys_inv n s" "t < length (sy_pcs s)" "sy_pcs s ! t = Some pc"
  shows "0 < call_left t s"
proof -
  have "Some pc \<in> set (sy_pcs s)" using assms(2,3) by (metis nth_mem)
  with assms(1,3) show ?thesis
    by (cases pc) (auto simp: sys_inv_def thr_inv_def call_left_def split: if_splits)
qed

interpretation ci_solo: solo_call "\<lambda>sp. ci_act True (Step t sp)"
  "\<lambda>s. sys_inv n s \<and> t < length (sy_pcs s)" "\<lambda>s. sy_pcs s ! t = None" "call_left t" 9 for n t
proof unfold_locales
  fix s sp
  assume s: "sys_inv n s \<and> t < length (sy_pcs s)" "sy_pcs s ! t \<noteq> None"
  then obtain pc where pc: "sy_pcs s ! t = Some pc" by blast
  from s(1) pc call_left_pos show "0 < call_left t s" by blast
  from s(1) solo_step [OF _ _ pc] show "\<exists>s'. ci_act True (Step t sp) s = Some s' \<and>
      (sys_inv n s' \<and> t < length (sy_pcs s')) \<and>
      (\<not> sp \<longrightarrow> sy_pcs s' ! t = None \<or> call_left t s' < call_left t s)" by blast
qed (simp add: call_left_def steps_left_bound split: option.split)

lemma solo_exec: "solo_run (\<lambda>sp. ci_act serial (Step t sp)) fs s = ci_exec serial (map (Step t) fs) s"
  by (induction fs arbitrary: s) (simp_all split: option.split)

section \<open>Sample runs\<close>

text \<open>Three threads on a pool of two, all idle.\<close>

definition ring2 :: ci where
  "ring2 = \<lparr>ci_readPos = 0, ci_writePos = 2, ci_indices = [1, 2, 0, 0], ci_size = 4,
    ci_maxPositionSize = 18446744073709551612\<rparr>"

definition idle3 :: ci_sys where
  "idle3 = \<lparr>sy_ci = ring2, sy_pcs = replicate 3 None, sy_held = []\<rparr>"

definition steps :: "nat \<Rightarrow> nat \<Rightarrow> ci_action list" where
  "steps t k = replicate k (Step t False)"

lemma ring2_new: "ConcurrentIndexer_new 2 = Inr ring2"
  by code_simp

lemma idle3_reachable: "ci_reachable serial 2 3 idle3"
  unfolding idle3_def by (rule ci_reachable.start [OF ring2_new])

lemma size_limit_2: "size_limit 2"
  by (simp add: size_limit_def)

text \<open>Thread 0 takes index 0, thread 1 index 1, and thread 0 is half way through a \<open>Return\<close>.\<close>

definition take_two :: "ci_action list" where
  "take_two = [BeginNext 0] @ steps 0 6 @ [BeginNext 1] @ steps 1 6"

lemma take_two_run:
  obtains s where "ci_reachable True 2 3 s" "sy_held s = [(0, 0), (1, 1)]"
    "sy_pcs s = [None, None, None]"
proof -
  have "(case ci_exec True take_two idle3 of None \<Rightarrow> False
      | Some s \<Rightarrow> sy_held s = [(0, 0), (1, 1)] \<and> sy_pcs s = [None, None, None])"
    by code_simp
  with that ci_exec_reachable [OF idle3_reachable, of True take_two] show ?thesis
    by (auto split: option.splits)
qed

lemma half_return_run:
  obtains s where "ci_reachable True 2 3 s" "sy_held s = [(1, 1)]"
    "sy_pcs s = [Some (R_Spin 0 2), None, None]"
proof -
  have "(case ci_exec True (take_two @ [BeginReturn 0 0] @ steps 0 2) idle3 of None \<Rightarrow> False
      | Some s \<Rightarrow> sy_held s = [(1, 1)] \<and> sy_pcs s = [Some (R_Spin 0 2), None, None])"
    by code_simp
  with that ci_exec_reachable [OF idle3_reachable, of True "take_two @ [BeginReturn 0 0] @ steps 0 2"]
  show ?thesis by (auto split: option.splits)
qed

section \<open>What the machine guarantees\<close>

text \<open>C1: however the steps of any number of threads interleave, if no two \<open>Next\<close> calls
  overlap then no index is handed out to two holders at once, every index handed out is
  within the range of the pool, and no thread accesses the vector outside its bounds.\<close>

theorem ci_threads_exclusive:
  assumes "size_limit n" "ci_reachable True n threads s"
  shows "distinct (map snd (sy_held s)) \<and> (\<forall>(t, i) \<in> set (sy_held s). i < n) \<and>
    Some Crashed \<notin> set (sy_pcs s)"
proof -
  note inv = reachable_inv [OF assms(2,1), unfolded sys_inv_def]
  have sub: "mset (map snd (sy_held s)) \<subseteq># mset (all_indices n)"
    using inv by (metis thr_inv_def mset_subset_eq_add_right)
  then have "count (mset (map snd (sy_held s))) i \<le> 1" for i
    using mset_subset_eq_count [OF sub, of i] distinct_all_indices [of n]
    by (metis distinct_count_atmost_1 le_trans zero_le_one order.refl)
  then have "distinct (map snd (sy_held s))"
    by (simp add: distinct_count_atmost_1 le_Suc_eq count_eq_zero_iff)
  moreover have "i < n" if "(t, i) \<in> set (sy_held s)" for t i
    using mset_subset_eqD [OF sub, of i] that by (force simp: set_all_indices)
  moreover have "Some Crashed \<notin> set (sy_pcs s)" using inv by (auto simp: thr_inv_def)
  ultimately show ?thesis by blast
qed

theorem ci_threads_exclusive_witness:
  "\<exists>s. ci_reachable True 2 3 s \<and> sy_held s = [(0, 0), (1, 1)] \<and> distinct (map snd (sy_held s))"
  by (rule take_two_run) (use ci_threads_exclusive [OF size_limit_2] in blast)

text \<open>C14: when no call is in progress, the indexer is in a state of its sequential
  specification, and every index is either in the ring or held: none is lost, none is
  duplicated.\<close>

theorem ci_threads_conserve:
  assumes "size_limit n" "ci_reachable True n threads s" "\<forall>pc \<in> set (sy_pcs s). pc = None"
  shows "ci_inv n (sy_ci s) \<and>
    mset (ci_avail (sy_ci s)) + mset (map snd (sy_held s)) = mset (all_indices n)"
  using reachable_inv [OF assms(2,1)] idle_inv [OF assms(3)] by (simp add: sys_inv_def)

theorem ci_threads_conserve_witness:
  "\<exists>s. ci_reachable True 2 3 s \<and> sy_held s = [(0, 0), (1, 1)] \<and>
    mset (ci_avail (sy_ci s)) + mset (map snd (sy_held s)) = mset (all_indices 2)"
proof (rule take_two_run)
  fix s
  assume s: "ci_reachable True 2 3 s" "sy_held s = [(0, 0), (1, 1)]" "sy_pcs s = [None, None, None]"
  then have "\<forall>pc \<in> set (sy_pcs s). pc = None" by simp
  from ci_threads_conserve [OF size_limit_2 s(1) this] s show ?thesis by blast
qed

text \<open>C13: when \<open>Next\<close> calls do not overlap, a thread that is in the middle of a call and runs
  alone from then on has ended it after nine steps of its own, and nine more for each exchange
  that fails spuriously, whatever the other threads have left undone: \<open>fs\<close> says of each of its
  steps whether it fails spuriously. No busy-wait depends on a stalled thread.\<close>

theorem ci_threads_progress:
  assumes "size_limit n" "ci_reachable True n threads s" "t < length (sy_pcs s)"
    "9 * Suc (count_list fs True) \<le> length fs"
  shows "\<exists>j s'. j \<le> length fs \<and> ci_exec True (map (Step t) (take j fs)) s = Some s' \<and>
    sy_pcs s' ! t = None"
  using ci_solo.ends [of n s t fs] reachable_inv [OF assms(2,1)] assms(3,4) by (simp add: solo_exec take_map)

theorem ci_threads_progress_witness:
  "\<exists>s j s'. ci_reachable True 2 3 s \<and> sy_pcs s ! 0 = Some (R_Spin 0 2) \<and> j \<le> 18 \<and>
    ci_exec True (map (Step 0) (take j (True # replicate 17 False))) s = Some s' \<and> sy_pcs s' ! 0 = None"
proof (rule half_return_run)
  fix s
  assume s: "ci_reachable True 2 3 s" "sy_pcs s = [Some (R_Spin 0 2), None, None]"
  let ?fs = "True # replicate 17 False"
  have "0 < length (sy_pcs s)" "9 * Suc (count_list ?fs True) \<le> length ?fs"
    using s(2) by (simp_all add: eval_nat_numeral)
  from ci_threads_progress [OF size_limit_2 s(1) this] obtain j s' where
    "j \<le> length ?fs" "ci_exec True (map (Step 0) (take j ?fs)) s = Some s'" "sy_pcs s' ! 0 = None" by blast
  moreover have "sy_pcs s ! 0 = Some (R_Spin 0 2)" by (simp add: s(2))
  ultimately show ?thesis using s(1) by auto
qed

text \<open>
  Thread 0 claims position 0 and is stopped before it clears the slot; thread 1 takes and
  returns the other index until its \<open>Return\<close> claims position 4, slot 0 again; thread 2
  takes the stale value of the slot.
\<close>

definition stale_schedule :: "ci_action list" where
  "stale_schedule =
     [BeginNext 0] @ steps 0 5 @
     concat (replicate 2 ([BeginNext 1] @ steps 1 6 @ [BeginReturn 1 0] @ steps 1 4)) @
     [BeginNext 1] @ steps 1 6 @ [BeginReturn 1 0] @ steps 1 2 @
     [BeginNext 2] @ steps 2 6 @ steps 1 2 @ steps 0 1"

text \<open>With overlapping \<open>Next\<close> calls the same index can be handed to two threads while
  another index disappears: three threads on a pool of two reach a state where no call is
  in progress, threads 2 and 0 both hold index 0, and no slot of the ring holds index 1.\<close>

lemma ci_threads_overlap_duplicates:
  "\<exists>s. ci_reachable False 2 3 s \<and> sy_held s = [(2, 0), (0, 0)] \<and>
    sy_pcs s = [None, None, None] \<and> ci_indices (sy_ci s) = replicate 4 UnusedPosition"
proof -
  have "(case ci_exec False stale_schedule idle3 of None \<Rightarrow> False
      | Some s \<Rightarrow> sy_held s = [(2, 0), (0, 0)] \<and> sy_pcs s = [None, None, None] \<and>
          ci_indices (sy_ci s) = replicate 4 UnusedPosition)"
    by code_simp
  with ci_exec_reachable [OF idle3_reachable, of False stale_schedule] show ?thesis
    by (auto split: option.splits)
qed

end
