(* ===== verification/ConcurrentPool_Threads.thy ===== *)
theory ConcurrentPool_Threads
  imports PoolThreads ConcurrentIndexer_Threads
begin

text \<open>
  Threads that share an object pool whose indexer is a \<open>ConcurrentIndexer\<close>. The code of the
  pool is that of \<open>PoolThreads\<close>; where it calls the indexer, the steps of \<open>Next\<close> and \<open>Return\<close>
  on the ring interleave one by one with those of all other threads. As for the indexer,
  \<open>serial\<close> says that calls of \<open>Take\<close> are not in \<open>Next\<close> at the same time; destructors of
  handles may run at any time and together.
\<close>

section \<open>The machine\<close>

text \<open>In the code of the pool, in \<open>Next\<close> for a \<open>Take\<close>, or in \<open>Return\<close> for a handle.\<close>

datatype 'a cp_pc =
    C_Pool "'a pt_pc"
  | C_Next ci_pc
  | C_Return handle ci_pc

text \<open>Where a thread goes on that the code of the pool has brought to a call of the indexer.\<close>

fun cp_enter :: "'a pt_pc \<Rightarrow> 'a cp_pc" where
  "cp_enter T_Next = C_Next N_Load"
| "cp_enter (D_Return item) = C_Return item (R_Load (pi_PoolIndex item))"
| "cp_enter pc = C_Pool pc"

fun cp_step ::
    "bool \<Rightarrow> 'a item_type \<Rightarrow> ('a, ci) pool \<Rightarrow> 'a cp_pc \<Rightarrow>
     ('a, ci) pool \<times> 'a cp_pc option \<times> handle list" where
  "cp_step spurious ty p (C_Pool pc) =
     (case pt_step concurrent_ops ty p pc of (p', pc', got) \<Rightarrow> (p', map_option cp_enter pc', got))"
| "cp_step spurious ty p (C_Next pc) =
     (case ci_step spurious (pl_indexer p) pc of (c, pc') \<Rightarrow>
        (p\<lparr>pl_indexer := c\<rparr>,
         Some (case pc' of N_Done holder \<Rightarrow> C_Pool (T_Wrap holder) | _ \<Rightarrow> C_Next pc'), []))"
| "cp_step spurious ty p (C_Return item pc) =
     (case ci_step spurious (pl_indexer p) pc of (c, pc') \<Rightarrow>
        (p\<lparr>pl_indexer := c\<rparr>, if pc' = R_Done then None else Some (C_Return item pc'), []))"

record 'a cp_sys =
  cp_pool :: "('a, ci) pool"
  cp_pcs :: "'a cp_pc option list"
  cp_handles :: "handle list"

datatype 'a cp_action = CTake nat | CUse nat nat "'a \<Rightarrow> 'a" | CDestroy nat nat | CStep nat bool

text \<open>The call of the indexer a thread is in.\<close>

fun cp_call :: "'a cp_pc option \<Rightarrow> ci_pc option" where
  "cp_call (Some (C_Next pc)) = Some pc"
| "cp_call (Some (C_Return item pc)) = Some pc"
| "cp_call _ = None"

definition cp_idle :: "nat \<Rightarrow> 'a cp_sys \<Rightarrow> bool" where
  "cp_idle t s \<longleftrightarrow> t < length (cp_pcs s) \<and> cp_pcs s ! t = None"

definition cp_begin :: "nat \<Rightarrow> nat \<Rightarrow> 'a pt_pc \<Rightarrow> 'a cp_sys \<Rightarrow> 'a cp_sys option" where
  "cp_begin t k pc s =
     (if cp_idle t s \<and> k < length (cp_handles s)
      then Some (s\<lparr>cp_pcs := (cp_pcs s)[t := Some (cp_enter pc)],
                   cp_handles := without k (cp_handles s)\<rparr>)
      else None)"

fun cp_act :: "bool \<Rightarrow> 'a item_type \<Rightarrow> 'a cp_action \<Rightarrow> 'a cp_sys \<Rightarrow> 'a cp_sys option" where
  "cp_act serial ty (CTake t) s =
     (if cp_idle t s \<and> (serial \<longrightarrow> \<not> list_ex in_Next (map cp_call (cp_pcs s)))
      then Some (s\<lparr>cp_pcs := (cp_pcs s)[t := Some (cp_enter T_Next)]\<rparr>) else None)"
| "cp_act serial ty (CUse t k f) s = cp_begin t k (U_Use (cp_handles s ! k) f) s"
| "cp_act serial ty (CDestroy t k) s = cp_begin t k (D_Begin (cp_handles s ! k)) s"
| "cp_act serial ty (CStep t spurious) s =
     (if t < length (cp_pcs s) then
        (case cp_pcs s ! t of
           None \<Rightarrow> None
         | Some pc \<Rightarrow>
             (case cp_step spurious ty (cp_pool s) pc of (p, pc', got) \<Rightarrow>
                Some (s\<lparr>cp_pool := p, cp_pcs := (cp_pcs s)[t := pc'], cp_handles := cp_handles s @ got\<rparr>)))
      else None)"

fun cp_exec ::
    "bool \<Rightarrow> 'a item_type \<Rightarrow> 'a cp_action list \<Rightarrow> 'a cp_sys \<Rightarrow> 'a cp_sys option" where
  "cp_exec serial ty [] s = Some s"
| "cp_exec serial ty (a # as) s =
     (case cp_act serial ty a s of None \<Rightarrow> None | Some s' \<Rightarrow> cp_exec serial ty as s')"

definition cp_init :: "('a, ci) pool \<Rightarrow> nat \<Rightarrow> 'a cp_sys" where
  "cp_init p threads = \<lparr>cp_pool = p, cp_pcs = replicate threads None, cp_handles = []\<rparr>"

inductive cp_reachable :: "bool \<Rightarrow> 'a item_type \<Rightarrow> ('a, ci) pool \<Rightarrow> nat \<Rightarrow> 'a cp_sys \<Rightarrow> bool"
  for serial :: bool and ty :: "'a item_type" and p :: "('a, ci) pool" and threads :: nat where
  cp_start: "cp_reachable serial ty p threads (cp_init p threads)"
| cp_do: "cp_reachable serial ty p threads s \<Longrightarrow> cp_act serial ty a s = Some s' \<Longrightarrow>
    cp_reachable serial ty p threads s'"

lemma cp_exec_reachable:
  "cp_reachable serial ty p n s \<Longrightarrow> cp_exec serial ty as s = Some s' \<Longrightarrow> cp_reachable serial ty p n s'"
  by (induction as arbitrary: s) (auto split: option.splits intro: cp_reachable.cp_do)

section \<open>The invariant\<close>

text \<open>The items a thread has for itself; an index in \<open>Return\<close> is with the indexer.\<close>

fun cp_items :: "'a cp_pc option \<Rightarrow> size_t list" where
  "cp_items (Some (C_Pool pc)) = pt_items (Some pc)"
| "cp_items _ = []"

fun cp_pc_ok :: "'a cp_pc option \<Rightarrow> bool" where
  "cp_pc_ok (Some (C_Pool pc)) \<longleftrightarrow> pt_pc_ok (Some pc) \<and> cp_enter pc = C_Pool pc"
| "cp_pc_ok (Some (C_Next pc)) \<longleftrightarrow> in_Next (Some pc)"
| "cp_pc_ok (Some (C_Return item pc)) \<longleftrightarrow> tok1 (Some pc) \<noteq> []"
| "cp_pc_ok None \<longleftrightarrow> True"

definition cp_busy :: "'a cp_pc option list \<Rightarrow> size_t multiset" where
  "cp_busy pcs = mset (concat (map cp_items pcs))"

definition cp_inv :: "size_t \<Rightarrow> 'a cp_sys \<Rightarrow> bool" where
  "cp_inv n s \<longleftrightarrow> length (pl_items (cp_pool s)) = unat n \<and>
     thr_inv n (pl_indexer (cp_pool s)) (map cp_call (cp_pcs s))
       (mset (live (cp_handles s)) + cp_busy (cp_pcs s)) \<and>
     (\<forall>it \<in> set (cp_handles s). handle_ok it) \<and> (\<forall>pc \<in> set (cp_pcs s). cp_pc_ok pc)"

lemma cp_busy_simps [simp]:
  "cp_busy [] = {#}" "cp_busy (pc # pcs) = mset (cp_items pc) + cp_busy pcs"
  "cp_busy (us @ vs) = cp_busy us + cp_busy vs"
  by (simp_all add: cp_busy_def)

lemma cp_busy_new [simp]: "cp_busy (replicate k None) = {#}"
  by (induction k) simp_all

text \<open>An index that is out is in the range of the pool.\<close>

lemma thr_out_bound:
  assumes "thr_inv n c pcs H" "i \<in># H"
  shows "i < n"
proof -
  have "H \<subseteq># mset (all_indices n)"
    using assms(1) by (metis thr_inv_def mset_subset_eq_add_right)
  with assms(2) show ?thesis by (auto simp: set_all_indices dest: mset_subset_eqD)
qed

text \<open>A step; \<open>R\<close> is what the others have.\<close>

lemma cp_pool_step:
  assumes inv: "thr_inv n (pl_indexer p) (us @ None # vs) (mset (pt_items (Some pc)) + R)"
    and len: "length (pl_items p) = unat n"
    and ok: "pt_pc_ok (Some pc)" "cp_enter pc = C_Pool pc"
    and step: "pt_step concurrent_ops ty p pc = (p', q, got)"
  shows "length (pl_items p') = unat n \<and>
    thr_inv n (pl_indexer p') (us @ cp_call (map_option cp_enter q) # vs)
      (mset (cp_items (map_option cp_enter q)) + mset (live got) + R) \<and>
    cp_pc_ok (map_option cp_enter q) \<and> (\<forall>it \<in> set got. handle_ok it)"
proof (cases pc)
  case (T_Wrap holder)
  show ?thesis
  proof (cases "ih_Empty holder")
    case False
    then have "ih_Get holder < n" using thr_out_bound [OF inv, of "ih_Get holder"] by (simp add: T_Wrap)
    then have "unat (ih_Get holder) < length (pl_items p)" by (simp add: len word_less_nat_alt)
    with False inv len step show ?thesis by (auto simp: T_Wrap Let_def handle_ok_def)
  qed (use inv len step in \<open>auto simp: T_Wrap\<close>)
next
  case (U_Use item f)
  then show ?thesis using inv len ok step by (auto simp: pl_write_def split: option.splits)
next
  case (D_Begin item)
  then show ?thesis
    using inv len ok step by (auto simp: handle_ok_def split: item_callback.splits if_splits)
next
  case (D_Reset item)
  then have item: "pi_Get item = Some (unat (pi_index item))"
    using ok by (simp add: handle_ok_def pi_Get_def)
  have "pi_index item < n" using thr_out_bound [OF inv, of "pi_index item"] by (simp add: D_Reset)
  then have "unat (pi_index item) < length (pl_items p)" by (simp add: len word_less_nat_alt)
  with inv len ok step item thr_begin_Return [of n "pl_indexer p" us vs "pi_index item" R] show ?thesis
    by (auto simp: D_Reset pi_PoolIndex_def)
qed (use ok in simp_all)

lemma cp_step_ok:
  assumes inv: "thr_inv n (pl_indexer p) (us @ cp_call (Some pc) # vs) (mset (cp_items (Some pc)) + R)"
    and len: "length (pl_items p) = unat n" and ok: "cp_pc_ok (Some pc)"
    and step: "cp_step sp ty p pc = (p', pc', got)"
  shows "length (pl_items p') = unat n \<and>
    thr_inv n (pl_indexer p') (us @ cp_call pc' # vs) (mset (cp_items pc') + mset (live got) + R) \<and>
    cp_pc_ok pc' \<and> (\<forall>it \<in> set got. handle_ok it)"
proof (cases pc)
  case (C_Pool q)
  then show ?thesis
    using cp_pool_step [of n p us vs q R ty] inv len ok step by (auto split: prod.splits)
next
  case (C_Next q)
  obtain c q' where c: "ci_step sp (pl_indexer p) q = (c, q')" by (cases "ci_step sp (pl_indexer p) q")
  have "thr_inv n (pl_indexer p) (us @ Some q # vs) R" "in_Next (Some q)"
    using inv ok by (simp_all add: C_Next)
  from thr_in_Next [OF this c] show ?thesis
  proof (elim disjE exE conjE)
    fix h
    assume "q' = N_Done h" "thr_inv n c (us @ None # vs) (mset (if ih_Empty h then [] else [ih_Get h]) + R)"
    with step c len show ?thesis by (auto simp: C_Next)
  next
    assume nx: "\<forall>h. q' \<noteq> N_Done h" "in_Next (Some q')" "thr_inv n c (us @ Some q' # vs) R"
    then have "pc' = Some (C_Next q')" using step c by (auto simp: C_Next split: ci_pc.splits)
    with nx step c len show ?thesis by (auto simp: C_Next)
  qed
next
  case (C_Return item q)
  obtain c q' where c: "ci_step sp (pl_indexer p) q = (c, q')" by (cases "ci_step sp (pl_indexer p) q")
  have "thr_inv n (pl_indexer p) (us @ Some q # vs) R" "tok1 (Some q) \<noteq> []"
    using inv ok by (simp_all add: C_Return)
  from thr_in_Return [OF this c] step c len show ?thesis by (auto simp: C_Return)
qed


section \<open>Every action\<close>

lemma cp_inv_at:
  assumes "cp_inv n s" "t < length (cp_pcs s)"
  obtains us v vs where "cp_pcs s = us @ v # vs" "length us = t" "v = cp_pcs s ! t"
    "thr_inv n (pl_indexer (cp_pool s)) (map cp_call us @ cp_call v # map cp_call vs)
      (mset (cp_items v) + (mset (live (cp_handles s)) + (cp_busy us + cp_busy vs)))"
proof -
  let ?us = "take t (cp_pcs s)" and ?vs = "drop (Suc t) (cp_pcs s)"
  have pcs: "cp_pcs s = ?us @ cp_pcs s ! t # ?vs" by (rule id_take_nth_drop [OF assms(2)])
  have "thr_inv n (pl_indexer (cp_pool s)) (map cp_call (?us @ cp_pcs s ! t # ?vs))
      (mset (live (cp_handles s)) + cp_busy (?us @ cp_pcs s ! t # ?vs))"
    using assms(1) pcs by (simp add: cp_inv_def)
  then have "thr_inv n (pl_indexer (cp_pool s)) (map cp_call ?us @ cp_call (cp_pcs s ! t) # map cp_call ?vs)
      (mset (cp_items (cp_pcs s ! t)) + (mset (live (cp_handles s)) + (cp_busy ?us + cp_busy ?vs)))"
    by (simp add: union_ac)
  with that [OF pcs] assms(2) show ?thesis by simp
qed

lemma cp_inv_put:
  assumes inv: "cp_inv n s" and pcs: "cp_pcs s = us @ v # vs" "length us = t"
    and new: "thr_inv n (pl_indexer p) (map cp_call us @ cp_call pc # map cp_call vs)
      (mset (cp_items pc) + (mset (live hs) + (cp_busy us + cp_busy vs)))"
    and rest: "length (pl_items p) = unat n" "\<forall>it \<in> set hs. handle_ok it" "cp_pc_ok pc"
  shows "cp_inv n (s\<lparr>cp_pool := p, cp_pcs := (cp_pcs s)[t := pc], cp_handles := hs\<rparr>)"
proof -
  have "(cp_pcs s)[t := pc] = us @ pc # vs" using pcs by (simp add: list_update_append)
  with inv new rest pcs(1) show ?thesis by (auto simp: cp_inv_def union_ac)
qed

lemma cp_inv_begin:
  assumes inv: "cp_inv n s" and act: "cp_begin t k pc s = Some s'"
    and pc: "pt_items (Some pc) = live [cp_handles s ! k]" "cp_enter pc = C_Pool pc"
      "handle_ok (cp_handles s ! k) \<Longrightarrow> pt_pc_ok (Some pc)"
  shows "cp_inv n s'"
proof -
  from act have t: "t < length (cp_pcs s)" "cp_pcs s ! t = None" and k: "k < length (cp_handles s)"
    and s': "s' = s\<lparr>cp_pool := cp_pool s, cp_pcs := (cp_pcs s)[t := Some (C_Pool pc)],
      cp_handles := without k (cp_handles s)\<rparr>"
    by (auto simp: cp_begin_def cp_idle_def pc(2) split: if_splits)
  have h: "\<forall>it \<in> set (cp_handles s). handle_ok it" "length (pl_items (cp_pool s)) = unat n"
    using inv by (simp_all add: cp_inv_def)
  have "set (without k (cp_handles s)) \<subseteq> set (cp_handles s)"
    by (auto simp: without_def dest: in_set_takeD in_set_dropD)
  with h have h': "\<forall>it \<in> set (without k (cp_handles s)). handle_ok it" by blast
  from cp_inv_at [OF inv t(1)] obtain us v vs where at: "cp_pcs s = us @ v # vs" "length us = t"
    "v = cp_pcs s ! t" "thr_inv n (pl_indexer (cp_pool s)) (map cp_call us @ cp_call v # map cp_call vs)
      (mset (cp_items v) + (mset (live (cp_handles s)) + (cp_busy us + cp_busy vs)))" .
  show ?thesis
    unfolding s'
  proof (rule cp_inv_put [OF inv at(1,2)])
    have "mset (live (cp_handles s)) = mset (pt_items (Some pc)) + mset (live (without k (cp_handles s)))"
      using live_without [OF k] pc(1) by (simp add: add.commute)
    with at(3,4) t(2) show "thr_inv n (pl_indexer (cp_pool s))
        (map cp_call us @ cp_call (Some (C_Pool pc)) # map cp_call vs)
        (mset (cp_items (Some (C_Pool pc))) + (mset (live (without k (cp_handles s))) + (cp_busy us + cp_busy vs)))"
      by (simp add: add.assoc)
    show "cp_pc_ok (Some (C_Pool pc))" using pc h(1) k by simp
  qed (use h h' in simp_all)
qed

lemma cp_inv_act:
  assumes inv: "cp_inv n s" and act: "cp_act True ty a s = Some s'"
  shows "cp_inv n s'"
proof (cases a)
  case (CTake t)
  then have t: "t < length (cp_pcs s)" "cp_pcs s ! t = None" "\<not> list_ex in_Next (map cp_call (cp_pcs s))"
    and s': "s' = s\<lparr>cp_pool := cp_pool s, cp_pcs := (cp_pcs s)[t := Some (C_Next N_Load)],
      cp_handles := cp_handles s\<rparr>"
    using act by (auto simp: cp_idle_def split: if_splits)
  from cp_inv_at [OF inv t(1)] obtain us v vs where at: "cp_pcs s = us @ v # vs" "length us = t"
    "v = cp_pcs s ! t" "thr_inv n (pl_indexer (cp_pool s)) (map cp_call us @ cp_call v # map cp_call vs)
      (mset (cp_items v) + (mset (live (cp_handles s)) + (cp_busy us + cp_busy vs)))" .
  have "\<not> list_ex in_Next (map cp_call us)" "\<not> list_ex in_Next (map cp_call vs)"
    using t(3) by (simp_all add: at(1))
  from thr_begin_Next [OF _ this] at(3,4) t(2) show ?thesis
    unfolding s' by (intro cp_inv_put [OF inv at(1,2)]) (use inv in \<open>simp_all add: cp_inv_def\<close>)
next
  case (CUse t k f)
  with act cp_inv_begin [OF inv, of t k "U_Use (cp_handles s ! k) f"] show ?thesis by simp
next
  case (CDestroy t k)
  with act cp_inv_begin [OF inv, of t k "D_Begin (cp_handles s ! k)"] show ?thesis by simp
next
  case (CStep t sp)
  with act obtain pc p pc' got where t: "t < length (cp_pcs s)" "cp_pcs s ! t = Some pc"
    "cp_step sp ty (cp_pool s) pc = (p, pc', got)"
    and s': "s' = s\<lparr>cp_pool := p, cp_pcs := (cp_pcs s)[t := pc'], cp_handles := cp_handles s @ got\<rparr>"
    by (auto split: if_splits option.splits prod.splits)
  from cp_inv_at [OF inv t(1)] obtain us v vs where at: "cp_pcs s = us @ v # vs" "length us = t"
    "v = cp_pcs s ! t" "thr_inv n (pl_indexer (cp_pool s)) (map cp_call us @ cp_call v # map cp_call vs)
      (mset (cp_items v) + (mset (live (cp_handles s)) + (cp_busy us + cp_busy vs)))" .
  have "Some pc \<in> set (cp_pcs s)" using t by (metis nth_mem)
  then have "length (pl_items (cp_pool s)) = unat n" "cp_pc_ok (Some pc)"
    using inv by (auto simp: cp_inv_def)
  from cp_step_ok [OF at(4) [unfolded at(3) t(2)] this t(3)] have
    "length (pl_items p) = unat n" "cp_pc_ok pc'" "\<forall>it \<in> set got. handle_ok it"
    "thr_inv n (pl_indexer p) (map cp_call us @ cp_call pc' # map cp_call vs)
      (mset (cp_items pc') + mset (live got) + (mset (live (cp_handles s)) + (cp_busy us + cp_busy vs)))"
    by blast+
  then show ?thesis
    unfolding s' using inv by (intro cp_inv_put [OF inv at(1,2)]) (auto simp: cp_inv_def union_ac)
qed

lemma cp_inv_init:
  assumes "concurrent.pool_ok n p []"
  shows "cp_inv n (cp_init p threads)"
proof -
  have own: "concurrent.owned n (pl_indexer p) {#}" and len: "length (pl_items p) = unat n"
    using assms by (simp_all add: concurrent.pool_ok_def)
  from own idle_inv [of "replicate threads None" n "pl_indexer p" "{#}"]
  have "thr_inv n (pl_indexer p) (replicate threads None) {#}"
    by (auto simp: concurrent.owned_def)
  with len show ?thesis by (auto simp: cp_inv_def cp_init_def)
qed

lemma cp_reachable_inv:
  assumes "size_limit n" "Inr p \<in> {StaticPool concurrent_ops d n, RuntimePool concurrent_ops d n}"
    "cp_reachable True ty p threads s"
  shows "cp_inv n s"
proof -
  have "concurrent.pool_ok n p []"
    using assms(2) concurrent.static_ok [OF assms(1), of d] concurrent.runtime_ok [OF assms(1), of d]
    by fastforce
  with assms(3) show ?thesis
    by (induction rule: cp_reachable.induct) (auto intro: cp_inv_init cp_inv_act)
qed


section \<open>Progress\<close>

text \<open>How far a thread that runs alone, without spurious failures, is from the end of its call.\<close>

fun cp_left :: "('a, ci) pool \<Rightarrow> 'a cp_pc \<Rightarrow> nat" where
  "cp_left p (C_Next pc) = Suc (steps_left (pl_indexer p) pc)"
| "cp_left p (C_Return item pc) = steps_left (pl_indexer p) pc"
| "cp_left p (C_Pool (D_Begin item)) = 11"
| "cp_left p (C_Pool (D_Reset item)) = 10"
| "cp_left p (C_Pool pc) = 1"

lemma cp_left_bound: "cp_left p pc \<le> 11"
  by (cases "(p, pc)" rule: cp_left.cases) (auto intro: le_trans [OF steps_left_bound])

lemma steps_left_pos: "in_Next (Some pc) \<or> tok1 (Some pc) \<noteq> [] \<Longrightarrow> 0 < steps_left c pc"
  by (cases pc) auto

lemma cp_left_step:
  assumes inv: "cp_inv n s" and t: "t < length (cp_pcs s)" "cp_pcs s ! t = Some pc"
    and act: "cp_act True ty (CStep t False) s = Some s'" "cp_pcs s' ! t = Some pc'"
  shows "cp_left (cp_pool s') pc' < cp_left (cp_pool s) pc"
proof -
  let ?c = "pl_indexer (cp_pool s)"
  have thr: "thr_inv n ?c (map cp_call (cp_pcs s)) (mset (live (cp_handles s)) + cp_busy (cp_pcs s))"
    using inv by (simp add: cp_inv_def)
  have mem: "Some pc \<in> set (cp_pcs s)" using t by (metis nth_mem)
  then have ok: "cp_pc_ok (Some pc)" using inv by (simp add: cp_inv_def)
  have inv': "cp_inv n s'" by (rule cp_inv_act [OF inv act(1)])
  obtain p got where step: "cp_step False ty (cp_pool s) pc = (p, Some pc', got)" and s': "cp_pool s' = p"
    using act t by (auto split: prod.splits)
  have "t < length (cp_pcs s')" using act(1) t by (auto split: prod.splits)
  then have "Some pc' \<in> set (cp_pcs s')" using act(2) by (metis nth_mem)
  then have ok': "cp_pc_ok (Some pc')" using inv' by (simp add: cp_inv_def)
  show ?thesis
  proof (cases pc)
    case (C_Pool q)
    show ?thesis
    proof (cases q)
      case (D_Reset item)
      then show ?thesis
        using step ok' C_Pool
        by (auto simp: s' split: option.splits if_splits)
    qed (use step ok' ok C_Pool in \<open>auto simp: s' Let_def split: if_splits item_callback.splits\<close>)
  next
    case (C_Next q)
    obtain c q' where c: "ci_step False ?c q = (c, q')" by (cases "ci_step False ?c q")
    have "Some q \<in> set (map cp_call (cp_pcs s))" using mem by (force simp: C_Next)
    from steps_left_step [OF thr this c] steps_left_pos [of q ?c] show ?thesis
      using step c ok ok' by (cases q') (auto simp: C_Next s')
  next
    case (C_Return item q)
    obtain c q' where c: "ci_step False ?c q = (c, q')" by (cases "ci_step False ?c q")
    have "Some q \<in> set (map cp_call (cp_pcs s))" using mem by (force simp: C_Return)
    from steps_left_step [OF thr this c] show ?thesis
      using step c ok ok' by (cases q') (auto simp: C_Return s' split: if_splits)
  qed
qed

definition cp_call_left :: "nat \<Rightarrow> 'a cp_sys \<Rightarrow> nat" where
  "cp_call_left t s = (case cp_pcs s ! t of None \<Rightarrow> 0 | Some pc \<Rightarrow> Suc (cp_left (cp_pool s) pc))"

lemma cp_solo_step:
  assumes inv: "cp_inv n s" and t: "t < length (cp_pcs s)" "cp_pcs s ! t = Some pc"
  shows "\<exists>s'. cp_act True ty (CStep t sp) s = Some s' \<and> cp_inv n s' \<and> t < length (cp_pcs s') \<and>
    (\<not> sp \<longrightarrow> cp_pcs s' ! t = None \<or> cp_call_left t s' < cp_call_left t s)"
proof -
  obtain s' where act: "cp_act True ty (CStep t sp) s = Some s'"
    using t by (cases "cp_step sp ty (cp_pool s) pc") auto
  have "cp_inv n s'" by (rule cp_inv_act [OF inv act])
  moreover have "t < length (cp_pcs s')" using act t by (auto split: prod.splits)
  moreover have "cp_call_left t s' < cp_call_left t s" if "\<not> sp" "cp_pcs s' ! t = Some q" for q
    using cp_left_step [OF inv t, of ty s' q] act that t(2) by (simp add: cp_call_left_def)
  ultimately show ?thesis using act by (cases "cp_pcs s' ! t") auto
qed

interpretation cp_solo: solo_call "\<lambda>sp. cp_act True ty (CStep t sp)"
  "\<lambda>s. cp_inv n s \<and> t < length (cp_pcs s)" "\<lambda>s. cp_pcs s ! t = None" "cp_call_left t" 12 for ty n t
proof unfold_locales
  fix s :: "'a cp_sys" and sp
  assume s: "cp_inv n s \<and> t < length (cp_pcs s)" "cp_pcs s ! t \<noteq> None"
  then obtain pc where pc: "cp_pcs s ! t = Some pc" by blast
  show "0 < cp_call_left t s" using pc by (simp add: cp_call_left_def)
  from s(1) cp_solo_step [OF _ _ pc] show "\<exists>s'. cp_act True ty (CStep t sp) s = Some s' \<and>
      (cp_inv n s' \<and> t < length (cp_pcs s')) \<and>
      (\<not> sp \<longrightarrow> cp_pcs s' ! t = None \<or> cp_call_left t s' < cp_call_left t s)" by blast
qed (simp add: cp_call_left_def cp_left_bound [THEN le_imp_less_Suc, THEN Suc_leI, simplified] split: option.split)

lemma cp_solo_exec:
  "solo_run (\<lambda>sp. cp_act serial ty (CStep t sp)) fs s = cp_exec serial ty (map (CStep t) fs) s"
  by (induction fs arbitrary: s) (simp_all split: option.split)


section \<open>What the threads are guaranteed\<close>

lemma distinct_indices:
  assumes "S + mset xs = mset (all_indices n)"
  shows "distinct xs" "i \<in> set xs \<Longrightarrow> i \<notin># S"
proof -
  have one: "count S i + count (mset xs) i \<le> 1" for i
    using distinct_all_indices [of n] unfolding assms [symmetric] distinct_count_atmost_1
    by (metis assms count_union distinct_all_indices distinct_count_atmost_1 le_zero_eq nat_le_linear zero_le_one)
  then show "distinct xs" by (intro distinct_if_count) (metis add_leD2)
  show "i \<notin># S" if "i \<in> set xs"
  proof -
    have "0 < count (mset xs) i" using that by (simp only: count_greater_zero_iff set_mset_mset)
    with one [of i] have "count S i = 0" by linarith
    then show ?thesis by (simp only: not_in_iff)
  qed
qed

text \<open>Every index is in one place, and a call that is left alone ends.\<close>

lemma cp_owned_once:
  assumes "cp_inv n s"
  shows "stored (pl_indexer (cp_pool s)) + mset (toks (map cp_call (cp_pcs s))) +
      mset (live (cp_handles s) @ concat (map cp_items (cp_pcs s))) = mset (all_indices n)"
  using assms by (simp add: cp_inv_def thr_inv_def cp_busy_def add.assoc)

lemma cp_items_exclusive:
  assumes inv: "cp_inv n s" and t: "t < length (cp_pcs s)" "i \<in> set (cp_items (cp_pcs s ! t))"
  shows "(\<forall>u < length (cp_pcs s). t \<noteq> u \<longrightarrow> i \<notin> set (cp_items (cp_pcs s ! u))) \<and>
    i \<notin> set (live (cp_handles s)) \<and> i \<notin># stored (pl_indexer (cp_pool s))"
proof -
  let ?xs = "concat (map cp_items (cp_pcs s))"
  note once = distinct_indices [OF cp_owned_once [OF inv]]
  have i: "i \<in> set ?xs" using t nth_mem [OF t(1)] by auto
  have "i \<notin> set (cp_items (cp_pcs s ! u))" if "u < length (cp_pcs s)" "t \<noteq> u" for u
    using concat_nth_disjoint [of "map cp_items (cp_pcs s)" t u] once(1) t that by auto
  with once(1) once(2) [of i] i show ?thesis by (auto simp del: set_concat)
qed

lemma cp_none_lost:
  assumes inv: "cp_inv n s" and none: "\<forall>pc \<in> set (cp_pcs s). pc = None"
  shows "length (ci_avail (pl_indexer (cp_pool s))) + length (live (cp_handles s)) = unat n"
proof -
  have "\<forall>pc \<in> set (map cp_call (cp_pcs s)). pc = None" "concat (map cp_items (cp_pcs s)) = []"
    using none by auto
  with idle_inv [of "map cp_call (cp_pcs s)"] inv have
    "mset (ci_avail (pl_indexer (cp_pool s))) + mset (live (cp_handles s)) = mset (all_indices n)"
    by (simp add: cp_inv_def cp_busy_def)
  from arg_cong [OF this, of size] show ?thesis by simp
qed

lemma cp_call_ends:
  assumes inv: "cp_inv n s" and t: "t < length (cp_pcs s)" and fs: "12 * Suc (count_list fs True) \<le> length fs"
  shows "\<exists>j s'. j \<le> length fs \<and> cp_exec True ty (map (CStep t) (take j fs)) s = Some s' \<and> cp_pcs s' ! t = None"
  using cp_solo.ends [of n s t fs ty] inv t fs by (simp add: cp_solo_exec take_map)

lemma cp_none_failed:
  assumes "cp_inv n s"
  shows "Some (C_Pool (P_Fail e)) \<notin> set (cp_pcs s) \<and> Some (C_Next Crashed) \<notin> set (cp_pcs s) \<and>
    Some (C_Return it Crashed) \<notin> set (cp_pcs s)"
proof -
  have "\<forall>pc \<in> set (cp_pcs s). cp_pc_ok pc" using assms by (simp add: cp_inv_def)
  then show ?thesis by fastforce
qed

text \<open>C11: threads that share a pool with the concurrent indexer, with the accesses to the ring and
  to the items interleaved one by one, as long as no two are in the \<open>Next\<close> of a \<open>Take\<close> at once:
  no access is out of bounds; an item that a thread uses, resets or is about to hand out
  belongs to no other thread and no other handle, and its index is not in the ring; every
  index is in the ring, in a \<open>Return\<close>, in a handle or with a thread, exactly once; when no
  call is in progress the free items and the live handles add up to the size of the pool; and a
  thread that runs alone has ended its call after twelve steps of its own and twelve more for each
  of them that fails spuriously (\<open>fs\<close> says which), whatever the others have left undone.\<close>

theorem concurrent_pool_threads:
  assumes "size_limit n" "Inr p \<in> {StaticPool concurrent_ops d n, RuntimePool concurrent_ops d n}"
    "cp_reachable True ty p threads s"
  shows "(\<forall>e it. Some (C_Pool (P_Fail e)) \<notin> set (cp_pcs s) \<and> Some (C_Next Crashed) \<notin> set (cp_pcs s) \<and>
      Some (C_Return it Crashed) \<notin> set (cp_pcs s)) \<and>
    (\<forall>t < length (cp_pcs s). \<forall>i \<in> set (cp_items (cp_pcs s ! t)).
      (\<forall>u < length (cp_pcs s). t \<noteq> u \<longrightarrow> i \<notin> set (cp_items (cp_pcs s ! u))) \<and>
      i \<notin> set (live (cp_handles s)) \<and> i \<notin># stored (pl_indexer (cp_pool s))) \<and>
    distinct (live (cp_handles s)) \<and>
    stored (pl_indexer (cp_pool s)) + mset (toks (map cp_call (cp_pcs s))) +
      mset (live (cp_handles s)) + cp_busy (cp_pcs s) = mset (all_indices n) \<and>
    ((\<forall>pc \<in> set (cp_pcs s). pc = None) \<longrightarrow>
      length (ci_avail (pl_indexer (cp_pool s))) + length (live (cp_handles s)) = unat n) \<and>
    (\<forall>t < length (cp_pcs s). \<forall>fs. 12 * Suc (count_list fs True) \<le> length fs \<longrightarrow>
      (\<exists>j s'. j \<le> length fs \<and> cp_exec True ty (map (CStep t) (take j fs)) s = Some s' \<and>
        cp_pcs s' ! t = None))"
proof -
  have inv: "cp_inv n s" by (rule cp_reachable_inv [OF assms])
  note once = cp_owned_once [OF inv]
  have "distinct (live (cp_handles s))" using distinct_indices(1) [OF once] by simp
  moreover have "stored (pl_indexer (cp_pool s)) + mset (toks (map cp_call (cp_pcs s))) +
      mset (live (cp_handles s)) + cp_busy (cp_pcs s) = mset (all_indices n)"
    using once by (simp add: cp_busy_def add.assoc)
  ultimately show ?thesis
    using cp_none_failed [OF inv] cp_items_exclusive [OF inv] cp_none_lost [OF inv] cp_call_ends [OF inv]
    by blast
qed

text \<open>Two threads on a pool of two items. Thread 0 gives its item back, and is in the middle of
  \<open>Return\<close> when thread 1 takes and uses the other one.\<close>

definition cp_sample :: "int cp_action list" where
  "cp_sample = [CTake 0] @ replicate 7 (CStep 0 False) @ [CUse 0 0 (\<lambda>v. v + 1), CStep 0 False] @
     [CDestroy 0 0] @ replicate 5 (CStep 0 False) @
     [CTake 1] @ replicate 7 (CStep 1 False) @ [CUse 1 0 (\<lambda>v. v + 2)]"

theorem concurrent_pool_threads_witness:
  "\<exists>p s. StaticPool concurrent_ops (7 :: int) 2 = Inr p \<and>
     cp_exec True (Resetable (\<lambda>_. 0)) cp_sample (cp_init p 2) = Some s \<and>
     cp_items (cp_pcs s ! 1) = [1] \<and> pl_items (cp_pool s) = [0, 7] \<and>
     cp_pcs s ! 0 \<noteq> None \<and> 1 \<notin># stored (pl_indexer (cp_pool s)) \<and>
     (\<exists>j s'. j \<le> 24 \<and> cp_exec True (Resetable (\<lambda>_. 0))
        (map (CStep 0) (take j (True # replicate 23 False))) s = Some s' \<and> cp_pcs s' ! 0 = None)"
proof -
  obtain p where p: "StaticPool concurrent_ops (7 :: int) 2 = Inr p"
    using concurrent.static_ok [OF size_limit_2, of 7] by blast
  have "map_option (\<lambda>s. (map cp_call (cp_pcs s), map cp_items (cp_pcs s), pl_items (cp_pool s)))
      (case StaticPool concurrent_ops (7 :: int) 2 of Inl e \<Rightarrow> None | Inr p \<Rightarrow>
        cp_exec True (Resetable (\<lambda>_. 0)) cp_sample (cp_init p 2)) =
      Some ([Some (R_Store 0 2), None], [[], [1]], [0, 7])"
    by code_simp
  then obtain s where s: "cp_exec True (Resetable (\<lambda>_. 0)) cp_sample (cp_init p 2) = Some s"
    "map cp_call (cp_pcs s) = [Some (R_Store 0 2), None]" "map cp_items (cp_pcs s) = [[], [1]]"
    "pl_items (cp_pool s) = [0, 7]" by (auto simp: p)
  then have pcs: "length (cp_pcs s) = 2" "cp_items (cp_pcs s ! 1) = [1]"
    "cp_call (cp_pcs s ! 0) = Some (R_Store 0 2)" by (auto simp: map_eq_Cons_conv)
  from pcs(3) have busy: "cp_pcs s ! 0 \<noteq> None" by (cases "cp_pcs s ! 0") auto
  have "Inr p \<in> {StaticPool concurrent_ops (7 :: int) 2, RuntimePool concurrent_ops 7 2}" using p by simp
  from concurrent_pool_threads [OF size_limit_2 this cp_exec_reachable [OF cp_start s(1)]] have
    ring: "\<forall>t < length (cp_pcs s). \<forall>i \<in> set (cp_items (cp_pcs s ! t)). i \<notin># stored (pl_indexer (cp_pool s))"
    and ends: "\<forall>t < length (cp_pcs s). \<forall>fs. 12 * Suc (count_list fs True) \<le> length fs \<longrightarrow>
      (\<exists>j s'. j \<le> length fs \<and> cp_exec True (Resetable (\<lambda>_. 0)) (map (CStep t) (take j fs)) s = Some s' \<and>
        cp_pcs s' ! t = None)"
    by blast+
  have "1 \<notin># stored (pl_indexer (cp_pool s))" using ring [rule_format, of 1 1] pcs(1,2) by simp
  moreover have "12 * Suc (count_list (True # replicate 23 False) True) \<le> length (True # replicate 23 False)"
    by (simp add: eval_nat_numeral)
  with ends [rule_format, of 0 "True # replicate 23 False"] pcs(1)
  have "\<exists>j s'. j \<le> length (True # replicate 23 False) \<and> cp_exec True (Resetable (\<lambda>_. 0))
      (map (CStep 0) (take j (True # replicate 23 False))) s = Some s' \<and> cp_pcs s' ! 0 = None" by simp
  then have "\<exists>j s'. j \<le> 24 \<and> cp_exec True (Resetable (\<lambda>_. 0))
      (map (CStep 0) (take j (True # replicate 23 False))) s = Some s' \<and> cp_pcs s' ! 0 = None" by simp
  ultimately show ?thesis using p s(1,4) pcs(2) busy by blast
qed

text \<open>
  The run of the indexer in which overlapping calls of \<open>Next\<close> hand out an index twice, made
  by the users of a pool: thread 0 is delayed in \<open>Take\<close> while thread 1 takes and gives back the
  other item, and thread 2 takes the item that thread 0 is about to take.
\<close>

definition cp_stale :: "int cp_action list" where
  "cp_stale = (let st = (\<lambda>t k. replicate k (CStep t False)) in
     [CTake 0] @ st 0 5 @
     concat (replicate 2 ([CTake 1] @ st 1 7 @ [CDestroy 1 0] @ st 1 6)) @
     [CTake 1] @ st 1 7 @ [CDestroy 1 0] @ st 1 4 @
     [CTake 2] @ st 2 7 @ st 1 2 @ st 0 2)"

text \<open>C38: with overlapping calls of \<open>Take\<close> a pool with the concurrent indexer can give the same
  item to two threads while the other item is lost: three threads on a pool of two items reach a
  state where no call is in progress, two live handles point to item 0, and no slot of the ring
  holds an index.\<close>

theorem concurrent_pool_overlap:
  "\<exists>p s. StaticPool concurrent_ops (7 :: int) 2 = Inr p \<and>
     cp_reachable False NotResetable p 3 s \<and> cp_pcs s = [None, None, None] \<and>
     live (cp_handles s) = [0, 0] \<and> ci_indices (pl_indexer (cp_pool s)) = replicate 4 UnusedPosition"
proof -
  obtain p where p: "StaticPool concurrent_ops (7 :: int) 2 = Inr p"
    using concurrent.static_ok [OF size_limit_2, of 7] by blast
  have "map_option (\<lambda>s. (list_all (\<lambda>pc. case pc of None \<Rightarrow> True | Some _ \<Rightarrow> False) (cp_pcs s),
        length (cp_pcs s), live (cp_handles s), ci_indices (pl_indexer (cp_pool s))))
      (case StaticPool concurrent_ops (7 :: int) 2 of Inl e \<Rightarrow> None | Inr p \<Rightarrow>
        cp_exec False NotResetable cp_stale (cp_init p 3)) =
      Some (True, 3, [0, 0], replicate 4 UnusedPosition)"
    by code_simp
  then obtain s where s: "cp_exec False NotResetable cp_stale (cp_init p 3) = Some s"
    "list_all (\<lambda>pc. case pc of None \<Rightarrow> True | Some _ \<Rightarrow> False) (cp_pcs s)" "length (cp_pcs s) = 3"
    "live (cp_handles s) = [0, 0]" "ci_indices (pl_indexer (cp_pool s)) = replicate 4 UnusedPosition"
    by (auto simp: p)
  from s(2,3) have "cp_pcs s = [None, None, None]"
    by (auto simp: numeral_3_eq_3 length_Suc_conv split: option.splits)
  with p s cp_exec_reachable [OF cp_start s(1)] show ?thesis by blast
qed

end
