(* ===== verification/OrderedSet.thy ===== *)
theory OrderedSet
  imports Prelude
begin

text \<open>
  The ordered containers of the C++ standard library as the code uses them: \<open>std::set\<close> as
  the list of its elements in order, \<open>std::map\<close> as the list of its entries in the order of
  their keys. Both compare with one relation \<open>lt\<close> and take two elements as the same if
  neither is less than the other.
\<close>

section \<open>The containers\<close>

fun set_insert :: "('a \<Rightarrow> 'a \<Rightarrow> bool) \<Rightarrow> 'a \<Rightarrow> 'a list \<Rightarrow> 'a list" where
  "set_insert lt x [] = [x]"
| "set_insert lt x (y # ys) =
     (if lt x y then x # y # ys else if lt y x then y # set_insert lt x ys else y # ys)"

definition set_erase :: "('a \<Rightarrow> 'a \<Rightarrow> bool) \<Rightarrow> 'a \<Rightarrow> 'a list \<Rightarrow> 'a list" where
  "set_erase lt x xs = filter (\<lambda>y. lt x y \<or> lt y x) xs"

text \<open>\<open>m[k] = f(m[k])\<close>, where a key that is not there is first given the value \<open>d\<close>.\<close>

fun map_update :: "('k \<Rightarrow> 'k \<Rightarrow> bool) \<Rightarrow> 'k \<Rightarrow> 'v \<Rightarrow> ('v \<Rightarrow> 'v) \<Rightarrow> ('k \<times> 'v) list \<Rightarrow> ('k \<times> 'v) list" where
  "map_update lt k d f [] = [(k, f d)]"
| "map_update lt k d f ((l, v) # es) =
     (if lt k l then (k, f d) # (l, v) # es
      else if lt l k then (l, v) # map_update lt k d f es
      else (l, f v) # es)"

section \<open>Their contract\<close>

text \<open>\<open>std::set\<close> asks of its order that it is a strict weak order.\<close>

locale strict_weak_order =
  fixes lt :: "'a \<Rightarrow> 'a \<Rightarrow> bool"
  assumes irrefl: "\<not> lt x x"
    and trans: "lt x y \<Longrightarrow> lt y z \<Longrightarrow> lt x z"
    and weak: "lt x z \<Longrightarrow> lt x y \<or> lt y z"
begin

definition same :: "'a \<Rightarrow> 'a \<Rightarrow> bool" where
  "same x y \<longleftrightarrow> \<not> lt x y \<and> \<not> lt y x"

lemma same_refl [simp]: "same x x"
  by (simp add: same_def irrefl)

lemma same_lt: "same x y \<Longrightarrow> lt y z \<Longrightarrow> lt x z" "same x y \<Longrightarrow> lt z y \<Longrightarrow> lt z x"
  using weak [of y z x] weak [of z y x] by (auto simp: same_def)

lemma insert_subset: "set (set_insert lt x xs) \<subseteq> insert x (set xs)"
  by (induction xs) auto

lemma insert_keeps: "set xs \<subseteq> set (set_insert lt x xs)"
  by (induction xs) auto

lemma insert_sorted:
  assumes "sorted_wrt lt xs"
  shows "sorted_wrt lt (set_insert lt x xs)"
  using assms
proof (induction xs)
  case (Cons y ys)
  then show ?case
    using trans [of x y] insert_subset [of x ys] by auto
qed simp

lemma insert_has: "\<exists>y \<in> set (set_insert lt x xs). same x y"
  by (induction xs) (auto simp: same_def irrefl)

text \<open>An element goes in exactly if there is no equivalent one.\<close>

lemma insert_set:
  "sorted_wrt lt xs \<Longrightarrow>
     set (set_insert lt x xs) = (if \<exists>y \<in> set xs. same x y then set xs else insert x (set xs))"
proof (induction xs)
  case (Cons y ys)
  have "\<not> same x z" if "lt x y" "z \<in> set (y # ys)" for z
    using that Cons.prems trans [of x y z] by (auto simp: same_def)
  with Cons show ?case by (auto simp: same_def)
qed simp

text \<open>Two sets with the same elements are the same list.\<close>

lemma sorted_unique:
  assumes "sorted_wrt lt xs" "sorted_wrt lt ys" "set xs = set ys"
  shows "xs = ys"
  using assms
proof (induction xs arbitrary: ys)
  case (Cons x xs)
  obtain y ys' where ys: "ys = y # ys'" using Cons.prems(3) by (cases ys) auto
  have "x = y"
    using Cons.prems irrefl trans unfolding ys by (metis insert_iff list.simps(15) sorted_wrt.simps(2))
  moreover have "set xs = set ys'"
  proof -
    have "x \<notin> set xs" "y \<notin> set ys'"
      using Cons.prems irrefl unfolding ys by auto
    then show ?thesis
      using Cons.prems(3) \<open>x = y\<close> unfolding ys by auto
  qed
  ultimately show ?case using Cons unfolding ys by simp
qed simp

lemma sorted_distinct: "sorted_wrt lt xs \<Longrightarrow> distinct xs"
  using irrefl by (induction xs) auto

lemma map_keys:
  "map fst (map_update lt k d f es) = set_insert lt k (map fst es)"
  by (induction lt k d f es rule: map_update.induct) auto

end

end
