(* ===== verification/ThreadProgram.thy ===== *)
theory ThreadProgram
  imports Prelude
begin

text \<open>
  Programs of several threads that can always be brought to their end: as long as not all have
  ended some thread may go on, and a thread that goes on alone gets something done after
  finitely many steps.
\<close>

fun tp_run :: "(nat \<Rightarrow> 's \<Rightarrow> 's option) \<Rightarrow> nat list \<Rightarrow> 's \<Rightarrow> 's option" where
  "tp_run act [] s = Some s"
| "tp_run act (t # ts) s = (case act t s of None \<Rightarrow> None | Some s' \<Rightarrow> tp_run act ts s')"

lemma tp_run_append:
  "tp_run act (ts @ us) s = (case tp_run act ts s of None \<Rightarrow> None | Some s' \<Rightarrow> tp_run act us s')"
  by (induction ts arbitrary: s) (simp_all split: option.splits)

text \<open>\<open>left\<close> counts what is to be done, \<open>call_left\<close> the steps of a thread until it has done
  the next thing.\<close>

locale thread_program =
  fixes act :: "nat \<Rightarrow> 's \<Rightarrow> 's option"
    and inv :: "'s \<Rightarrow> bool"
    and can :: "nat \<Rightarrow> 's \<Rightarrow> bool"
    and left :: "'s \<Rightarrow> nat"
    and call_left :: "nat \<Rightarrow> 's \<Rightarrow> nat"
    and ended :: "'s \<Rightarrow> bool"
  assumes some_can: "inv s \<Longrightarrow> \<not> ended s \<Longrightarrow> \<exists>t. can t s"
    and goes_on: "inv s \<Longrightarrow> can t s \<Longrightarrow> \<exists>s'. act t s = Some s' \<and> inv s' \<and>
      (left s' < left s \<or> left s' = left s \<and> can t s' \<and> call_left t s' < call_left t s)"
begin

lemma alone:
  assumes "inv s" "can t s"
  shows "\<exists>ts s'. tp_run act ts s = Some s' \<and> inv s' \<and> left s' < left s"
  using assms
proof (induction "call_left t s" arbitrary: s rule: less_induct)
  case less
  from goes_on [OF less.prems] obtain s' where s': "act t s = Some s'" "inv s'"
    "left s' < left s \<or> left s' = left s \<and> can t s' \<and> call_left t s' < call_left t s" by blast
  from s'(3) show ?case
  proof (elim disjE conjE)
    assume "left s' < left s"
    with s' show ?thesis by (intro exI [of _ "[t]"] exI [of _ s']) simp
  next
    assume same: "left s' = left s" and "can t s'" "call_left t s' < call_left t s"
    with less.hyps s'(2) obtain ts s'' where
      "tp_run act ts s' = Some s''" "inv s''" "left s'' < left s'" by blast
    with s'(1) same show ?thesis by (intro exI [of _ "t # ts"] exI [of _ s'']) simp
  qed
qed

lemma can_end:
  assumes "inv s"
  shows "\<exists>ts s'. tp_run act ts s = Some s' \<and> inv s' \<and> ended s'"
  using assms
proof (induction "left s" arbitrary: s rule: less_induct)
  case less
  show ?case
  proof (cases "ended s")
    case True
    with less.prems show ?thesis by (intro exI [of _ "[]"] exI [of _ s]) simp
  next
    case False
    with some_can less.prems alone obtain ts s' where
      s': "tp_run act ts s = Some s'" "inv s'" "left s' < left s" by blast
    from less.hyps [OF s'(3,2)] obtain us s'' where
      "tp_run act us s' = Some s''" "inv s''" "ended s''" by blast
    with s'(1) show ?thesis
      by (intro exI [of _ "ts @ us"] exI [of _ s'']) (simp add: tp_run_append)
  qed
qed

end

end
