(* ===== verification/IndexerFuzz.thy ===== *)
theory IndexerFuzz
  imports ConcurrentIndexer_Threads OrderedSet ThreadProgram
begin

text \<open>
  The fuzz program \<open>fuzz/ConcurrentIndexerFuzzTest.cpp\<close> of \<open>ConcurrentIndexer\<close>: tester
  threads that take indices, keep them in a set of their own and give them back, and the
  check, after they have ended, that every index is in the indexer again. As long as calls of
  \<open>Next\<close> do not overlap no tester fails, all of them can end, and the check passes; with
  overlapping calls there is a run that the check rejects.
\<close>

section \<open>The testers\<close>

text \<open>
  Where \<open>runTest\<close> is: at the test of its loop, in \<open>Next\<close>, at the choice whether to return
  an index, in the \<open>Return\<close> of one, at the test of the last loop with the indices that are
  to be returned, in its \<open>Return\<close>, at the end. The pauses are left out, since a thread may
  be delayed at any step.
\<close>

datatype tester_pc =
    T_Loop int
  | T_Next int ci_pc
  | T_Choose int
  | T_Return int size_t ci_pc
  | T_Rest "size_t list"
  | T_RestReturn "size_t list" ci_pc
  | T_End

record tester =
  te_failed :: bool
  te_indices :: "size_t list"
  te_pc :: tester_pc

definition tester_new :: tester where
  "tester_new = \<lparr>te_failed = False, te_indices = [], te_pc = T_Loop 0\<rparr>"

text \<open>What a tester does with the result of \<open>Next\<close>.\<close>

definition tester_got :: "int \<Rightarrow> index_holder \<Rightarrow> tester \<Rightarrow> tester" where
  "tester_got i result te =
     (if ih_Empty result then te\<lparr>te_pc := T_Choose i\<rparr>
      else if ih_Get result \<in> set (te_indices te) then te\<lparr>te_failed := True, te_pc := T_End\<rparr>
      else te\<lparr>te_indices := set_insert (<) (ih_Get result) (te_indices te), te_pc := T_Choose i\<rparr>)"

text \<open>
  One step of \<open>runTest\<close>: a step of the method it is in, with what follows the method's end
  up to the next shared access, or a step of its own.
\<close>

definition tester_step ::
    "int \<Rightarrow> bool \<Rightarrow> bool \<Rightarrow> ci \<Rightarrow> tester \<Rightarrow> ci \<times> tester" where
  "tester_step iterations spurious shouldReturn c te =
     (case te_pc te of
        T_Loop i \<Rightarrow>
          (c, te\<lparr>te_pc := if i < iterations then T_Next i N_Load else T_Rest (te_indices te)\<rparr>)
      | T_Next i pc \<Rightarrow>
          (case ci_step spurious c pc of (c', pc') \<Rightarrow>
             (c', case pc' of N_Done result \<Rightarrow> tester_got i result te
                  | _ \<Rightarrow> te\<lparr>te_pc := T_Next i pc'\<rparr>))
      | T_Choose i \<Rightarrow>
          (c, te\<lparr>te_pc :=
             if te_indices te \<noteq> [] \<and> shouldReturn
             then T_Return i (hd (te_indices te)) (R_Load (hd (te_indices te)))
             else T_Loop (i + 1)\<rparr>)
      | T_Return i index pc \<Rightarrow>
          (case ci_step spurious c pc of (c', pc') \<Rightarrow>
             (c', if pc' = R_Done
                  then te\<lparr>te_indices := set_erase (<) index (te_indices te), te_pc := T_Loop (i + 1)\<rparr>
                  else te\<lparr>te_pc := T_Return i index pc'\<rparr>))
      | T_Rest indices \<Rightarrow>
          (c, te\<lparr>te_pc := case indices of [] \<Rightarrow> T_End
                          | index # rest \<Rightarrow> T_RestReturn rest (R_Load index)\<rparr>)
      | T_RestReturn rest pc \<Rightarrow>
          (case ci_step spurious c pc of (c', pc') \<Rightarrow>
             (c', te\<lparr>te_pc := if pc' = R_Done then T_Rest rest else T_RestReturn rest pc'\<rparr>))
      | T_End \<Rightarrow> (c, te))"

text \<open>The method call a tester is in.\<close>

fun pc_call :: "tester_pc \<Rightarrow> ci_pc option" where
  "pc_call (T_Next i pc) = Some pc"
| "pc_call (T_Return i index pc) = Some pc"
| "pc_call (T_RestReturn rest pc) = Some pc"
| "pc_call _ = None"

definition tester_call :: "tester \<Rightarrow> ci_pc option" where
  "tester_call te = pc_call (te_pc te)"

section \<open>The program\<close>

record fuzz_sys =
  fz_indexer :: ci
  fz_testers :: "tester list"

definition fz_start :: "size_t \<Rightarrow> nat \<Rightarrow> cxx_error + fuzz_sys" where
  "fz_start itemCount numThreads =
     andThen (ConcurrentIndexer_new itemCount) (\<lambda>indexer.
       Inr \<lparr>fz_indexer = indexer, fz_testers = replicate numThreads tester_new\<rparr>)"

text \<open>Tester \<open>t\<close> makes a step. With \<open>serial\<close> it only begins \<open>Next\<close> if no tester is in it.\<close>

fun begins_Next :: "int \<Rightarrow> tester_pc \<Rightarrow> bool" where
  "begins_Next iterations (T_Loop i) = (i < iterations)"
| "begins_Next iterations _ = False"

definition fz_act ::
    "bool \<Rightarrow> int \<Rightarrow> nat \<times> bool \<times> bool \<Rightarrow> fuzz_sys \<Rightarrow> fuzz_sys option" where
  "fz_act serial iterations = (\<lambda>(t, spurious, shouldReturn) s.
     if t < length (fz_testers s) \<and>
        (serial \<and> begins_Next iterations (te_pc (fz_testers s ! t)) \<longrightarrow>
           \<not> list_ex in_Next (map tester_call (fz_testers s)))
     then (case tester_step iterations spurious shouldReturn (fz_indexer s) (fz_testers s ! t) of
             (c, te) \<Rightarrow> Some \<lparr>fz_indexer = c, fz_testers = (fz_testers s)[t := te]\<rparr>)
     else None)"

fun fz_exec ::
    "bool \<Rightarrow> int \<Rightarrow> (nat \<times> bool \<times> bool) list \<Rightarrow> fuzz_sys \<Rightarrow> fuzz_sys option" where
  "fz_exec serial iterations [] s = Some s"
| "fz_exec serial iterations (a # as) s =
     (case fz_act serial iterations a s of None \<Rightarrow> None | Some s' \<Rightarrow> fz_exec serial iterations as s')"

definition all_ended :: "fuzz_sys \<Rightarrow> bool" where
  "all_ended s \<longleftrightarrow> list_all (\<lambda>te. te_pc te = T_End) (fz_testers s)"

text \<open>
  What \<open>VerifyFuzzMultipleThreadsAndItems\<close> checks when the testers have ended: \<open>None\<close> when
  \<open>REQUIRE_FALSE(result.Empty())\<close> fails, else the set of the indices.
\<close>

fun take_all :: "nat \<Rightarrow> ci \<Rightarrow> size_t list \<Rightarrow> cxx_error + size_t list option" where
  "take_all 0 c indices = Inr (Some indices)"
| "take_all (Suc k) c indices =
     andThen (ci_Next c) (\<lambda>(result, c').
       if ih_Empty result then Inr None
       else take_all k c' (set_insert (<) (ih_Get result) indices))"

definition verify_end :: "size_t \<Rightarrow> fuzz_sys \<Rightarrow> cxx_error + bool" where
  "verify_end itemCount s =
     (if list_ex te_failed (fz_testers s) then Inr False
      else andThen (take_all (unat itemCount) (fz_indexer s) []) (\<lambda>r.
        Inr (case r of None \<Rightarrow> False | Some indices \<Rightarrow> length indices = unat itemCount)))"

inductive fz_reachable :: "bool \<Rightarrow> size_t \<Rightarrow> int \<Rightarrow> nat \<Rightarrow> fuzz_sys \<Rightarrow> bool"
  for serial :: bool and n :: size_t and iterations :: int and threads :: nat where
  start: "fz_start n threads = Inr s \<Longrightarrow> fz_reachable serial n iterations threads s"
| act: "fz_reachable serial n iterations threads s \<Longrightarrow> fz_act serial iterations a s = Some s' \<Longrightarrow>
    fz_reachable serial n iterations threads s'"

lemma fz_exec_reachable:
  "fz_reachable serial n iterations threads s \<Longrightarrow> fz_exec serial iterations as s = Some s' \<Longrightarrow>
    fz_reachable serial n iterations threads s'"
  by (induction as arbitrary: s) (auto split: option.splits intro: fz_reachable.act)

section \<open>The invariant\<close>

interpretation index_order: strict_weak_order "(<) :: size_t \<Rightarrow> size_t \<Rightarrow> bool"
  by unfold_locales auto

lemma index_set_insert:
  assumes "sorted_wrt (<) xs" "(x :: size_t) \<notin> set xs"
  shows "mset (set_insert (<) x xs) = add_mset x (mset xs)" "sorted_wrt (<) (set_insert (<) x xs)"
proof -
  show "sorted_wrt (<) (set_insert (<) x xs)" using index_order.insert_sorted [OF assms(1)] .
  have "mset (set_insert (<) x xs) = add_mset x (mset xs)" if "x \<notin> set xs" for xs :: "size_t list"
    using that by (induction xs) (auto simp: add_mset_commute)
  with assms(2) show "mset (set_insert (<) x xs) = add_mset x (mset xs)" by blast
qed

lemma index_set_erase: "set_erase (<) (x :: size_t) xs = removeAll x xs"
  by (simp add: set_erase_def removeAll_filter_not_eq neq_iff)

text \<open>The indices a tester has out of the indexer.\<close>

fun pc_held :: "size_t list \<Rightarrow> tester_pc \<Rightarrow> size_t list" where
  "pc_held is (T_Return i index pc) = removeAll index is"
| "pc_held is (T_Rest indices) = indices"
| "pc_held is (T_RestReturn rest pc) = rest"
| "pc_held is T_End = []"
| "pc_held is _ = is"

definition tester_held :: "tester \<Rightarrow> size_t list" where
  "tester_held te = pc_held (te_indices te) (te_pc te)"

fun pc_wf :: "int \<Rightarrow> size_t list \<Rightarrow> tester_pc \<Rightarrow> bool" where
  "pc_wf iterations is (T_Next i pc) = (in_Next (Some pc) \<and> i < iterations)"
| "pc_wf iterations is (T_Return i index pc) = (tok1 (Some pc) \<noteq> [] \<and> index \<in> set is)"
| "pc_wf iterations is (T_RestReturn rest pc) = (tok1 (Some pc) \<noteq> [])"
| "pc_wf iterations is _ = True"

definition tester_wf :: "int \<Rightarrow> tester \<Rightarrow> bool" where
  "tester_wf iterations te \<longleftrightarrow> \<not> te_failed te \<and> sorted_wrt (<) (te_indices te) \<and>
     pc_wf iterations (te_indices te) (te_pc te)"

definition held_all :: "tester list \<Rightarrow> size_t multiset" where
  "held_all ts = mset (concat (map tester_held ts))"

definition fz_inv :: "size_t \<Rightarrow> int \<Rightarrow> fuzz_sys \<Rightarrow> bool" where
  "fz_inv n iterations s \<longleftrightarrow>
     thr_inv n (fz_indexer s) (map tester_call (fz_testers s)) (held_all (fz_testers s)) \<and>
     (\<forall>te \<in> set (fz_testers s). tester_wf iterations te)"

lemma held_all_simps [simp]:
  "held_all [] = {#}" "held_all (te # ts) = mset (tester_held te) + held_all ts"
  "held_all (us @ vs) = held_all us + held_all vs"
  by (simp_all add: held_all_def)

section \<open>Steps keep the invariant\<close>

text \<open>Indices that are out are distinct.\<close>

lemma thr_held_new:
  assumes "thr_inv n c pcs (add_mset i H)"
  shows "i \<notin># H"
proof -
  from assms have "add_mset i H \<subseteq># mset (all_indices n)"
    by (metis thr_inv_def mset_subset_eq_add_right)
  from mset_subset_eq_count [OF this, of i] have "count H i < count (mset (all_indices n)) i" by simp
  moreover have "count (mset (all_indices n)) i \<le> 1"
    using distinct_all_indices [of n] by (simp add: distinct_count_atmost_1 split: if_splits)
  ultimately show ?thesis by (simp add: count_eq_zero_iff [symmetric])
qed

lemma tester_step_Next:
  assumes inv: "thr_inv n c (us @ Some pc # vs) (mset (te_indices te) + R)"
    and wf: "tester_wf iterations te" and at: "te_pc te = T_Next i pc"
    and step: "tester_step iterations sp ret c te = (c', te')"
  shows "thr_inv n c' (us @ tester_call te' # vs) (mset (tester_held te') + R) \<and>
    tester_wf iterations te'"
proof -
  from wf at have pc: "in_Next (Some pc)" "i < iterations"
    and srt: "sorted_wrt (<) (te_indices te)" by (simp_all add: tester_wf_def)
  obtain pc' where c: "ci_step sp c pc = (c', pc')"
    using step at by (auto simp: tester_step_def split: prod.splits)
  from thr_in_Next [OF inv pc(1) c] show ?thesis
  proof (elim disjE exE conjE)
    fix h
    assume h: "pc' = N_Done h"
      "thr_inv n c' (us @ None # vs) (mset (if ih_Empty h then [] else [ih_Get h]) + (mset (te_indices te) + R))"
    show ?thesis
    proof (cases "ih_Empty h")
      case True
      with h(1) step at c have "te' = te\<lparr>te_pc := T_Choose i\<rparr>"
        by (simp add: tester_step_def tester_got_def)
      with True h(2) wf show ?thesis
        by (simp add: tester_call_def tester_held_def tester_wf_def)
    next
      case False
      with h(2) have H: "thr_inv n c' (us @ None # vs) (add_mset (ih_Get h) (mset (te_indices te) + R))"
        by simp
      have new: "ih_Get h \<notin> set (te_indices te)" using thr_held_new [OF H] by simp
      with False h(1) step at c have te': "te' = te\<lparr>
          te_indices := set_insert (<) (ih_Get h) (te_indices te), te_pc := T_Choose i\<rparr>"
        by (simp add: tester_step_def tester_got_def)
      with H index_set_insert [OF srt new] wf show ?thesis
        by (simp add: tester_call_def tester_held_def tester_wf_def)
    qed
  next
    assume nx: "\<forall>h. pc' \<noteq> N_Done h" "in_Next (Some pc')"
      "thr_inv n c' (us @ Some pc' # vs) (mset (te_indices te) + R)"
    then have "te' = te\<lparr>te_pc := T_Next i pc'\<rparr>"
      using step at c by (auto simp: tester_step_def split: ci_pc.splits)
    with nx wf pc(2) show ?thesis
      by (simp add: tester_call_def tester_held_def tester_wf_def)
  qed
qed

lemma tester_step_Return:
  assumes inv: "thr_inv n c (us @ Some pc # vs) (mset (removeAll index (te_indices te)) + R)"
    and wf: "tester_wf iterations te" and at: "te_pc te = T_Return i index pc"
    and step: "tester_step iterations sp ret c te = (c', te')"
  shows "thr_inv n c' (us @ tester_call te' # vs) (mset (tester_held te') + R) \<and>
    tester_wf iterations te'"
proof -
  from wf at have pc: "tok1 (Some pc) \<noteq> []" by (simp add: tester_wf_def)
  obtain pc' where c: "ci_step sp c pc = (c', pc')"
    using step at by (auto simp: tester_step_def split: prod.splits)
  from thr_in_Return [OF inv pc c] show ?thesis
  proof (elim disjE conjE)
    assume "pc' = R_Done" "thr_inv n c' (us @ None # vs) (mset (removeAll index (te_indices te)) + R)"
    moreover from this(1) step at c have "te' = te\<lparr>
        te_indices := removeAll index (te_indices te), te_pc := T_Loop (i + 1)\<rparr>"
      by (simp add: tester_step_def index_set_erase)
    ultimately show ?thesis using wf
      by (simp add: tester_call_def tester_held_def tester_wf_def sorted_wrt_filter removeAll_filter_not_eq)
  next
    assume "pc' \<noteq> R_Done" "tok1 (Some pc') \<noteq> []"
      "thr_inv n c' (us @ Some pc' # vs) (mset (removeAll index (te_indices te)) + R)"
    moreover from this(1) step at c have "te' = te\<lparr>te_pc := T_Return i index pc'\<rparr>"
      by (simp add: tester_step_def)
    ultimately show ?thesis using wf at
      by (simp add: tester_call_def tester_held_def tester_wf_def)
  qed
qed

lemma tester_step_RestReturn:
  assumes inv: "thr_inv n c (us @ Some pc # vs) (mset rest + R)"
    and wf: "tester_wf iterations te" and at: "te_pc te = T_RestReturn rest pc"
    and step: "tester_step iterations sp ret c te = (c', te')"
  shows "thr_inv n c' (us @ tester_call te' # vs) (mset (tester_held te') + R) \<and>
    tester_wf iterations te'"
proof -
  from wf at have pc: "tok1 (Some pc) \<noteq> []" by (simp add: tester_wf_def)
  obtain pc' where c: "ci_step sp c pc = (c', pc')"
    using step at by (auto simp: tester_step_def split: prod.splits)
  with step at have "te' = te\<lparr>te_pc := if pc' = R_Done then T_Rest rest else T_RestReturn rest pc'\<rparr>"
    by (simp add: tester_step_def)
  with thr_in_Return [OF inv pc c] wf show ?thesis
    by (auto simp: tester_call_def tester_held_def tester_wf_def)
qed

lemma mset_hd_removeAll:
  "sorted_wrt (<) xs \<Longrightarrow> (xs :: size_t list) \<noteq> [] \<Longrightarrow>
     mset xs = add_mset (hd xs) (mset (removeAll (hd xs) xs))"
  by (cases xs) (auto simp: removeAll_id)

lemma tester_step_Choose:
  assumes inv: "thr_inv n c (us @ tester_call te # vs) (mset (tester_held te) + R)"
    and wf: "tester_wf iterations te" and T_Choose: "te_pc te = T_Choose i"
    and step: "tester_step iterations sp ret c te = (c', te')"
  shows "thr_inv n c' (us @ tester_call te' # vs) (mset (tester_held te') + R) \<and>
    tester_wf iterations te'"
proof (cases "te_indices te \<noteq> [] \<and> ret")
  case True
  let ?x = "hd (te_indices te)"
  from True T_Choose step have te': "te' = te\<lparr>te_pc := T_Return i ?x (R_Load ?x)\<rparr>" "c' = c"
    by (auto simp: tester_step_def)
  have "mset (te_indices te) = add_mset ?x (mset (removeAll ?x (te_indices te)))"
    using wf True by (intro mset_hd_removeAll) (auto simp: tester_wf_def)
  with inv T_Choose have
    "thr_inv n c (us @ None # vs) (add_mset ?x (mset (removeAll ?x (te_indices te)) + R))"
    by (simp add: tester_call_def tester_held_def)
  from thr_begin_Return [OF this] te' wf True show ?thesis
    by (simp add: tester_call_def tester_held_def tester_wf_def)
next
  case False
  with T_Choose step have "te' = te\<lparr>te_pc := T_Loop (i + 1)\<rparr>" "c' = c"
    by (auto simp: tester_step_def)
  with T_Choose inv wf show ?thesis by (simp add: tester_call_def tester_held_def tester_wf_def)
qed

lemma tester_step_Rest:
  assumes inv: "thr_inv n c (us @ tester_call te # vs) (mset (tester_held te) + R)"
    and wf: "tester_wf iterations te" and T_Rest: "te_pc te = T_Rest indices"
    and step: "tester_step iterations sp ret c te = (c', te')"
  shows "thr_inv n c' (us @ tester_call te' # vs) (mset (tester_held te') + R) \<and>
    tester_wf iterations te'"
proof (cases indices)
  case Nil
  with T_Rest step have "te' = te\<lparr>te_pc := T_End\<rparr>" "c' = c" by (auto simp: tester_step_def)
  with Nil T_Rest inv wf show ?thesis by (simp add: tester_call_def tester_held_def tester_wf_def)
next
  case (Cons x rest)
  with T_Rest step have te': "te' = te\<lparr>te_pc := T_RestReturn rest (R_Load x)\<rparr>" "c' = c"
    by (auto simp: tester_step_def)
  from Cons T_Rest inv have "thr_inv n c (us @ None # vs) (add_mset x (mset rest + R))"
    by (simp add: tester_call_def tester_held_def)
  from thr_begin_Return [OF this] te' wf show ?thesis
    by (simp add: tester_call_def tester_held_def tester_wf_def)
qed

lemma tester_step_inv:
  assumes inv: "thr_inv n c (us @ tester_call te # vs) (mset (tester_held te) + R)"
    and wf: "tester_wf iterations te"
    and step: "tester_step iterations sp ret c te = (c', te')"
    and serial: "begins_Next iterations (te_pc te) \<Longrightarrow> \<not> list_ex in_Next us \<and> \<not> list_ex in_Next vs"
  shows "thr_inv n c' (us @ tester_call te' # vs) (mset (tester_held te') + R) \<and>
    tester_wf iterations te'"
proof (cases "te_pc te")
  case (T_Loop i)
  show ?thesis
  proof (cases "i < iterations")
    case True
    with T_Loop step have "te' = te\<lparr>te_pc := T_Next i N_Load\<rparr>" "c' = c" by (auto simp: tester_step_def)
    with True T_Loop inv wf serial show ?thesis
      by (simp add: tester_call_def tester_held_def tester_wf_def thr_begin_Next)
  next
    case False
    with T_Loop step have "te' = te\<lparr>te_pc := T_Rest (te_indices te)\<rparr>" "c' = c"
      by (auto simp: tester_step_def)
    with T_Loop inv wf show ?thesis by (simp add: tester_call_def tester_held_def tester_wf_def)
  qed
next
  case (T_Next i pc)
  with inv have "thr_inv n c (us @ Some pc # vs) (mset (te_indices te) + R)"
    by (simp add: tester_call_def tester_held_def)
  from tester_step_Next [OF this wf T_Next step] show ?thesis by blast
next
  case (T_Choose i)
  from tester_step_Choose [OF inv wf T_Choose step] show ?thesis .
next
  case (T_Return i index pc)
  with inv have "thr_inv n c (us @ Some pc # vs) (mset (removeAll index (te_indices te)) + R)"
    by (simp add: tester_call_def tester_held_def)
  from tester_step_Return [OF this wf T_Return step] show ?thesis .
next
  case (T_Rest indices)
  from tester_step_Rest [OF inv wf T_Rest step] show ?thesis .
next
  case (T_RestReturn rest pc)
  with inv have "thr_inv n c (us @ Some pc # vs) (mset rest + R)"
    by (simp add: tester_call_def tester_held_def)
  from tester_step_RestReturn [OF this wf T_RestReturn step] show ?thesis .
next
  case T_End
  with step inv wf show ?thesis by (simp add: tester_step_def)
qed

lemma fz_act_inv:
  assumes inv: "fz_inv n iterations s" and act: "fz_act True iterations (t, sp, ret) s = Some s'"
  shows "fz_inv n iterations s'"
proof -
  let ?ts = "fz_testers s" let ?us = "take t ?ts" and ?vs = "drop (Suc t) ?ts"
  from act have t: "t < length ?ts" by (simp add: fz_act_def split: if_splits)
  obtain c' te' where step: "tester_step iterations sp ret (fz_indexer s) (?ts ! t) = (c', te')"
    by (cases "tester_step iterations sp ret (fz_indexer s) (?ts ! t)")
  with act have s': "s' = \<lparr>fz_indexer = c', fz_testers = ?ts[t := te']\<rparr>"
    by (simp add: fz_act_def split: if_splits)
  have ts: "?ts = ?us @ ?ts ! t # ?vs" using id_take_nth_drop [OF t] .
  have ts': "?ts[t := te'] = ?us @ te' # ?vs" using upd_conv_take_nth_drop [OF t] .
  have serial: "\<not> list_ex in_Next (map tester_call ?us) \<and> \<not> list_ex in_Next (map tester_call ?vs)"
    if "begins_Next iterations (te_pc (?ts ! t))"
    using act that by (auto simp: fz_act_def list_ex_iff dest: in_set_takeD in_set_dropD split: if_splits)
  have split_inv: "fz_inv n iterations \<lparr>fz_indexer = c, fz_testers = ?us @ te # ?vs\<rparr> \<longleftrightarrow>
      thr_inv n c (map tester_call ?us @ tester_call te # map tester_call ?vs)
        (mset (tester_held te) + (held_all ?us + held_all ?vs)) \<and>
      tester_wf iterations te \<and> (\<forall>te \<in> set ?us \<union> set ?vs. tester_wf iterations te)" for c te
    by (auto simp: fz_inv_def ac_simps)
  have "s = \<lparr>fz_indexer = fz_indexer s, fz_testers = ?us @ ?ts ! t # ?vs\<rparr>" using ts by simp
  with inv have now: "fz_inv n iterations \<lparr>fz_indexer = fz_indexer s, fz_testers = ?us @ ?ts ! t # ?vs\<rparr>"
    by simp
  note now = now [unfolded split_inv]
  from tester_step_inv [OF conjunct1 [OF now] conjunct1 [OF conjunct2 [OF now]] step serial] now
  show ?thesis unfolding s' ts' split_inv by blast
qed

lemma held_all_new: "held_all (replicate k tester_new) = {#}"
  by (induction k) (simp_all add: tester_new_def tester_held_def)

lemma fz_start_inv:
  assumes n: "size_limit n" and s: "fz_start n threads = Inr s"
  shows "fz_inv n iterations s"
proof -
  from ci_new_ok [OF n] obtain c where c: "ConcurrentIndexer_new n = Inr c" "ci_inv n c"
    "ci_avail c = all_indices n" by blast
  with s have s: "s = \<lparr>fz_indexer = c, fz_testers = replicate threads tester_new\<rparr>"
    by (simp add: fz_start_def)
  have call: "tester_call tester_new = None" "tester_wf iterations tester_new"
    by (simp_all add: tester_new_def tester_call_def tester_wf_def)
  then have "thr_inv n c (map tester_call (replicate threads tester_new)) {#}"
    using c by (subst idle_inv) simp_all
  with call show ?thesis by (simp add: fz_inv_def s held_all_new)
qed

lemma fz_reachable_inv:
  assumes "fz_reachable True n iterations threads s" "size_limit n"
  shows "fz_inv n iterations s"
  using assms(1)
proof induction
  case (act s a s')
  then show ?case by (cases a) (blast intro: fz_act_inv)
qed (use assms(2) fz_start_inv in blast)

section \<open>The testers can end\<close>

text \<open>What a tester has still to do, where the steps within a method do not count.\<close>

fun pc_left :: "int \<Rightarrow> nat \<Rightarrow> tester_pc \<Rightarrow> nat" where
  "pc_left iterations k (T_Loop i) = 6 * nat (iterations - i) + 2 * k + 2"
| "pc_left iterations k (T_Next i pc) = 6 * nat (iterations - i) + 2 * k + 1"
| "pc_left iterations k (T_Choose i) = 6 * nat (iterations - (i + 1)) + 2 * k + 4"
| "pc_left iterations k (T_Return i index pc) = 6 * nat (iterations - (i + 1)) + 2 * k + 3"
| "pc_left iterations k (T_Rest indices) = 2 * length indices + 1"
| "pc_left iterations k (T_RestReturn rest pc) = 2 * length rest + 2"
| "pc_left iterations k T_End = 0"

definition tester_left :: "int \<Rightarrow> tester \<Rightarrow> nat" where
  "tester_left iterations te = pc_left iterations (length (te_indices te)) (te_pc te)"

definition fz_left :: "int \<Rightarrow> fuzz_sys \<Rightarrow> nat" where
  "fz_left iterations s = sum_list (map (tester_left iterations) (fz_testers s))"

lemma length_set_insert: "length (set_insert lt x xs) \<le> Suc (length xs)"
  by (induction xs) auto

lemma length_set_erase: "length (set_erase lt x xs) \<le> length xs"
  by (simp add: set_erase_def)

lemma tester_got_left:
  assumes "i < iterations"
  shows "tester_left iterations (tester_got i h te) <
    6 * nat (iterations - i) + 2 * length (te_indices te) + 1"
proof -
  have "nat (iterations - i) = Suc (nat (iterations - (i + 1)))" using assms by simp
  then show ?thesis
    using length_set_insert [of "(<)" "ih_Get h" "te_indices te"]
    by (simp add: tester_got_def tester_left_def)
qed

text \<open>A step finishes something, or it is a step within a method.\<close>

lemma tester_step_left:
  assumes wf: "tester_wf iterations te" and live: "te_pc te \<noteq> T_End"
    and step: "tester_step iterations sp ret c te = (c', te')"
  shows "tester_left iterations te' < tester_left iterations te \<or>
    tester_left iterations te' = tester_left iterations te \<and>
    (\<exists>pc pc'. tester_call te = Some pc \<and> tester_call te' = Some pc' \<and> ci_step sp c pc = (c', pc'))"
proof (cases "te_pc te")
  case (T_Next i pc)
  obtain pc' where c: "ci_step sp c pc = (c', pc')"
    using step T_Next by (auto simp: tester_step_def split: prod.splits)
  show ?thesis
  proof (cases "\<exists>h. pc' = N_Done h")
    case True
    with step T_Next c obtain h where "te' = tester_got i h te" by (auto simp: tester_step_def)
    with tester_got_left [of i iterations h te] wf T_Next show ?thesis
      by (simp add: tester_wf_def tester_left_def)
  next
    case False
    with step T_Next c have "te' = te\<lparr>te_pc := T_Next i pc'\<rparr>"
      by (cases pc') (simp_all add: tester_step_def)
    with T_Next c show ?thesis by (simp add: tester_left_def tester_call_def)
  qed
next
  case (T_Return i index pc)
  obtain pc' where c: "ci_step sp c pc = (c', pc')"
    using step T_Return by (auto simp: tester_step_def split: prod.splits)
  have "length (set_erase (<) index (te_indices te)) \<le> length (te_indices te)"
    by (rule length_set_erase)
  with step T_Return c show ?thesis
    by (cases "pc' = R_Done") (auto simp: tester_step_def tester_left_def tester_call_def)
next
  case (T_RestReturn rest pc)
  obtain pc' where c: "ci_step sp c pc = (c', pc')"
    using step T_RestReturn by (auto simp: tester_step_def split: prod.splits)
  with step T_RestReturn show ?thesis
    by (cases "pc' = R_Done") (auto simp: tester_step_def tester_left_def tester_call_def)
qed (use live step in \<open>auto simp: tester_step_def tester_left_def split: if_splits list.splits\<close>)

lemma fz_act_enabled:
  assumes "t < length (fz_testers s)"
    and "begins_Next iterations (te_pc (fz_testers s ! t)) \<Longrightarrow>
      \<not> list_ex in_Next (map tester_call (fz_testers s))"
    and "tester_step iterations sp ret (fz_indexer s) (fz_testers s ! t) = (c', te')"
  shows "fz_act serial iterations (t, sp, ret) s =
    Some \<lparr>fz_indexer = c', fz_testers = (fz_testers s)[t := te']\<rparr>"
  using assms by (simp add: fz_act_def)

lemma tester_pc_sound:
  assumes "fz_inv n iterations s" "t < length (fz_testers s)" "tester_call (fz_testers s ! t) = Some pc"
  shows "Some pc \<in> set (map tester_call (fz_testers s))" "\<not> ci_finished pc"
    "tester_wf iterations (fz_testers s ! t)"
proof -
  show mem: "Some pc \<in> set (map tester_call (fz_testers s))" using assms(2,3) by (force simp: set_conv_nth)
  then have "pc_ok (fz_indexer s) (Some pc)" using assms(1) by (auto simp: fz_inv_def thr_inv_def)
  then show "\<not> ci_finished pc" by (cases pc) simp_all
  show "tester_wf iterations (fz_testers s ! t)" using assms(1,2) by (simp add: fz_inv_def)
qed

definition call_left :: "nat \<Rightarrow> fuzz_sys \<Rightarrow> nat" where
  "call_left t s =
     (case tester_call (fz_testers s ! t) of None \<Rightarrow> 0 | Some pc \<Rightarrow> steps_left (fz_indexer s) pc)"

text \<open>A tester may go on if it has not ended and need not wait for another to leave \<open>Next\<close>.\<close>

definition tester_can :: "int \<Rightarrow> nat \<Rightarrow> fuzz_sys \<Rightarrow> bool" where
  "tester_can iterations t s \<longleftrightarrow> t < length (fz_testers s) \<and> te_pc (fz_testers s ! t) \<noteq> T_End \<and>
     (begins_Next iterations (te_pc (fz_testers s ! t)) \<longrightarrow>
       \<not> list_ex in_Next (map tester_call (fz_testers s)))"

lemma some_tester_can:
  assumes "\<not> all_ended s"
  shows "\<exists>t. tester_can iterations t s"
proof (cases "list_ex in_Next (map tester_call (fz_testers s))")
  case True
  then obtain t where t: "t < length (fz_testers s)" "in_Next (tester_call (fz_testers s ! t))"
    by (auto simp: list_ex_iff in_set_conv_nth)
  then have "te_pc (fz_testers s ! t) \<noteq> T_End \<and> \<not> begins_Next iterations (te_pc (fz_testers s ! t))"
    by (cases "te_pc (fz_testers s ! t)") (simp_all add: tester_call_def)
  with t(1) show ?thesis by (auto simp: tester_can_def)
next
  case False
  from assms obtain t where "t < length (fz_testers s)" "te_pc (fz_testers s ! t) \<noteq> T_End"
    by (auto simp: all_ended_def list_all_iff in_set_conv_nth)
  with False show ?thesis by (auto simp: tester_can_def)
qed

lemma tester_goes_on:
  assumes inv: "fz_inv n iterations s" and can: "tester_can iterations t s"
  shows "\<exists>s'. fz_act True iterations (t, False, False) s = Some s' \<and> fz_inv n iterations s' \<and>
    (fz_left iterations s' < fz_left iterations s \<or> fz_left iterations s' = fz_left iterations s \<and>
      tester_can iterations t s' \<and> call_left t s' < call_left t s)"
proof -
  let ?te = "fz_testers s ! t"
  from can have t: "t < length (fz_testers s)" "te_pc ?te \<noteq> T_End"
    "begins_Next iterations (te_pc ?te) \<Longrightarrow> \<not> list_ex in_Next (map tester_call (fz_testers s))"
    by (auto simp: tester_can_def)
  obtain c' te' where step: "tester_step iterations False False (fz_indexer s) ?te = (c', te')"
    by (cases "tester_step iterations False False (fz_indexer s) ?te")
  define s' where "s' = \<lparr>fz_indexer = c', fz_testers = (fz_testers s)[t := te']\<rparr>"
  have act: "fz_act True iterations (t, False, False) s = Some s'"
    unfolding s'_def by (rule fz_act_enabled [OF t(1,3) step])
  note inv' = fz_act_inv [OF inv act]
  have wf: "tester_wf iterations ?te" using inv t(1) by (simp add: fz_inv_def)
  have left: "fz_left iterations s' + tester_left iterations ?te =
      fz_left iterations s + tester_left iterations te'"
    using sum_list_map_update [OF t(1), of "tester_left iterations" te'] by (simp add: fz_left_def s'_def)
  have t': "t < length (fz_testers s')" "fz_testers s' ! t = te'" "fz_indexer s' = c'"
    using t(1) by (simp_all add: s'_def)
  from tester_step_left [OF wf t(2) step] show ?thesis
  proof (elim disjE conjE exE)
    assume "tester_left iterations te' < tester_left iterations ?te"
    with left have "fz_left iterations s' < fz_left iterations s" by linarith
    with act inv' show ?thesis by blast
  next
    fix pc pc'
    assume same: "tester_left iterations te' = tester_left iterations ?te"
      and pcs: "tester_call ?te = Some pc" "tester_call te' = Some pc'"
      and c: "ci_step False (fz_indexer s) pc = (c', pc')"
    have "\<not> ci_finished pc'" using tester_pc_sound(2) [OF inv' t'(1)] t'(2) pcs by simp
    moreover have "ci_finished pc' \<or> steps_left c' pc' < steps_left (fz_indexer s) pc"
      using steps_left_step [OF conjunct1 [OF inv [unfolded fz_inv_def]]
          tester_pc_sound(1) [OF inv t(1) pcs(1)] c] .
    ultimately have dec: "call_left t s' < call_left t s" using pcs t' by (simp add: call_left_def)
    have "te_pc te' \<noteq> T_End \<and> \<not> begins_Next iterations (te_pc te')"
      using pcs(2) by (cases "te_pc te'") (simp_all add: tester_call_def)
    then have "tester_can iterations t s'" using t' by (simp add: tester_can_def)
    with act inv' left same dec show ?thesis by auto
  qed
qed

interpretation testers: thread_program "\<lambda>t. fz_act True iterations (t, False, False)"
  "fz_inv n iterations" "tester_can iterations" "fz_left iterations" call_left all_ended
  for n iterations
  by unfold_locales (auto intro: some_tester_can tester_goes_on)

lemma testers_exec:
  "tp_run (\<lambda>t. fz_act serial iterations (t, False, False)) ts s =
     fz_exec serial iterations (map (\<lambda>t. (t, False, False)) ts) s"
  by (induction ts arbitrary: s) (simp_all split: option.splits)

lemma testers_can_end:
  "fz_inv n iterations s \<Longrightarrow>
     \<exists>as s'. fz_exec True iterations as s = Some s' \<and> fz_inv n iterations s' \<and> all_ended s'"
  using testers.can_end [of n iterations s] unfolding testers_exec by blast

section \<open>The final check\<close>

lemma take_all_distinct:
  assumes "ci_inv n c" "ci_avail c = is" "distinct is" "set is \<inter> set indices = {}"
    "sorted_wrt (<) indices"
  shows "\<exists>all. take_all (length is) c indices = Inr (Some all) \<and>
    length all = length indices + length is"
  using assms
proof (induction "is" arbitrary: c indices)
  case (Cons i "is")
  from ci_Next_some [OF Cons.prems(1,2)] obtain c' where
    c': "ci_Next c = Inr (IndexHolder i, c')" "ci_inv n c'" "ci_avail c' = is" by blast
  have "i \<notin> set indices" using Cons.prems(4) by simp
  note ins = index_set_insert [OF Cons.prems(5) this]
  have "set (set_insert (<) i indices) = insert i (set indices)"
    "length (set_insert (<) i indices) = Suc (length indices)"
    using arg_cong [OF ins(1), of set_mset] arg_cong [OF ins(1), of size] by simp_all
  with Cons.IH [OF c'(2,3), of "set_insert (<) i indices"] Cons.prems(3,4) ins(2) c'(1)
  show ?case by auto
qed simp

lemma verify_end_ok:
  assumes inv: "fz_inv n iterations s" and ended: "all_ended s"
  shows "verify_end n s = Inr True"
proof -
  have te: "tester_call te = None \<and> tester_held te = [] \<and> \<not> te_failed te"
    if "te \<in> set (fz_testers s)" for te
    using inv ended that
    by (auto simp: fz_inv_def tester_wf_def all_ended_def list_all_iff tester_call_def tester_held_def)
  then have H: "held_all (fz_testers s) = {#}" by (simp add: held_all_def)
  have "\<forall>pc \<in> set (map tester_call (fz_testers s)). pc = None" using te by auto
  from idle_inv [OF this] inv H have c: "ci_inv n (fz_indexer s)"
    "mset (ci_avail (fz_indexer s)) = mset (all_indices n)" by (simp_all add: fz_inv_def)
  have len: "length (ci_avail (fz_indexer s)) = unat n" using arg_cong [OF c(2), of size] by simp
  have "distinct (ci_avail (fz_indexer s))"
    using mset_eq_imp_distinct_iff [OF c(2)] distinct_all_indices by blast
  with take_all_distinct [OF c(1) refl this, of "[]"] len te show ?thesis
    by (auto simp: verify_end_def list_ex_iff)
qed

section \<open>Sample runs\<close>

text \<open>Tester \<open>t\<close> makes \<open>k\<close> steps.\<close>

definition tester_runs :: "nat \<Rightarrow> nat \<Rightarrow> bool \<Rightarrow> (nat \<times> bool \<times> bool) list" where
  "tester_runs t k ret = replicate k (t, False, ret)"

definition fuzz2 :: fuzz_sys where
  "fuzz2 = \<lparr>fz_indexer = ring2, fz_testers = replicate 3 tester_new\<rparr>"

lemma fuzz2_reachable: "fz_reachable serial 2 iterations 3 fuzz2"
  by (rule fz_reachable.start) (simp add: fz_start_def ring2_new fuzz2_def)

text \<open>The testers one after the other, with two iterations each.\<close>

definition fuzz_in_turn :: "(nat \<times> bool \<times> bool) list" where
  "fuzz_in_turn = tester_runs 0 40 False @ tester_runs 1 40 True @ tester_runs 2 40 False"

text \<open>
  Tester 0 is stopped before it clears the slot it has claimed; tester 1 takes and returns
  the other index until its \<open>Return\<close> waits for that slot; tester 2 takes the stale value
  in it; then all of them go on to their ends.
\<close>

definition fuzz_overlap :: "(nat \<times> bool \<times> bool) list" where
  "fuzz_overlap = tester_runs 0 6 False @
     tester_runs 1 12 True @ tester_runs 1 12 True @ tester_runs 1 10 True @
     tester_runs 2 7 True @ tester_runs 1 2 True @ tester_runs 0 1 False @
     tester_runs 0 60 True @ tester_runs 1 60 True @ tester_runs 2 60 True"

text \<open>The state after it: two slots with index 0 and none with index 1.\<close>

lemma fuzz_overlap_run:
  "\<exists>s. fz_exec False 3 fuzz_overlap fuzz2 = Some s \<and> all_ended s \<and>
    \<not> list_ex te_failed (fz_testers s) \<and> fz_indexer s = \<lparr>ci_readPos = 9, ci_writePos = 11,
      ci_indices = [0, 1, 1, 0], ci_size = 4, ci_maxPositionSize = 18446744073709551612\<rparr>"
proof -
  have "(case fz_exec False 3 fuzz_overlap fuzz2 of None \<Rightarrow> False
      | Some s \<Rightarrow> all_ended s \<and> \<not> list_ex te_failed (fz_testers s) \<and>
          fz_indexer s = \<lparr>ci_readPos = 9, ci_writePos = 11, ci_indices = [0, 1, 1, 0],
            ci_size = 4, ci_maxPositionSize = 18446744073709551612\<rparr>)"
    by code_simp
  then show ?thesis by (auto split: option.splits)
qed

lemma take_all_overlap:
  "take_all 2 \<lparr>ci_readPos = 9, ci_writePos = 11, ci_indices = [0, 1, 1, 0], ci_size = 4,
      ci_maxPositionSize = 18446744073709551612\<rparr> [] = Inr (Some [0])"
proof -
  have "ci_Next \<lparr>ci_readPos = 9, ci_writePos = 11, ci_indices = [0, 1, 1, 0], ci_size = 4,
      ci_maxPositionSize = 18446744073709551612\<rparr> =
    Inr (IndexHolder 0, \<lparr>ci_readPos = 10, ci_writePos = 11, ci_indices = [0, 0, 1, 0], ci_size = 4,
      ci_maxPositionSize = 18446744073709551612\<rparr>)"
    by (simp add: ci_Next_def ci_run_eqs vget_def vset_def UnusedPosition_def compare_exchange_weak_def)
  moreover have "ci_Next \<lparr>ci_readPos = 10, ci_writePos = 11, ci_indices = [0, 0, 1, 0], ci_size = 4,
      ci_maxPositionSize = 18446744073709551612\<rparr> =
    Inr (IndexHolder 0, \<lparr>ci_readPos = 11, ci_writePos = 11, ci_indices = [0, 0, 0, 0], ci_size = 4,
      ci_maxPositionSize = 18446744073709551612\<rparr>)"
    by (simp add: ci_Next_def ci_run_eqs vget_def vset_def UnusedPosition_def compare_exchange_weak_def)
  ultimately show ?thesis by (simp add: numeral_2_eq_2)
qed

text \<open>With overlapping calls of \<open>Next\<close> the program can reject the class: three testers with
  three iterations each end, and the check finds one index twice and the other lost.\<close>

lemma indexer_fuzz_overlap_fails:
  "\<exists>s. fz_reachable False 2 3 3 s \<and> all_ended s \<and> verify_end 2 s = Inr False"
proof -
  from fuzz_overlap_run obtain s where s: "fz_exec False 3 fuzz_overlap fuzz2 = Some s" "all_ended s"
    "\<not> list_ex te_failed (fz_testers s)" "fz_indexer s = \<lparr>ci_readPos = 9, ci_writePos = 11,
      ci_indices = [0, 1, 1, 0], ci_size = 4, ci_maxPositionSize = 18446744073709551612\<rparr>" by blast
  have "unat (2 :: size_t) = 2" by simp
  with s take_all_overlap have "verify_end 2 s = Inr False" by (simp add: verify_end_def)
  with s fz_exec_reachable [OF fuzz2_reachable s(1)] show ?thesis by blast
qed

section \<open>What the program shows\<close>

section \<open>The test cases\<close>

text \<open>Both test cases call \<open>VerifyFuzzMultipleThreadsAndItems\<close> in three nested loops, and print
  how far they are. What a test case does is the list of its calls and its messages.\<close>

datatype fuzz_event = Running_with size_t size_t | Verify size_t int nat

text \<open>The values of \<open>i\<close> in \<open>for(i = from; i <= to; i += step)\<close>.\<close>

definition for_steps :: "nat \<Rightarrow> nat \<Rightarrow> nat \<Rightarrow> nat list" where
  "for_steps from to step =
     (if to < from then [] else map (\<lambda>k. from + k * step) [0..<Suc ((to - from) div step)])"

definition fuzz_loops :: "nat \<Rightarrow> nat \<Rightarrow> nat \<Rightarrow> nat \<Rightarrow> nat \<Rightarrow> fuzz_event list" where
  "fuzz_loops maxItems maxIterations maxThreads step checkInterval =
     concat (map (\<lambda>items.
       (if items mod checkInterval = 0 then [Running_with (of_nat items) (of_nat maxItems)] else []) @
       concat (map (\<lambda>iterations.
         map (\<lambda>numThreads. Verify (of_nat items) (int iterations) numThreads)
           (for_steps 2 maxThreads step))
         (for_steps 1 maxIterations step)))
       (for_steps 1 maxItems step))"

definition smoke_case :: "fuzz_event list" where
  "smoke_case = fuzz_loops 1000 10 10 1 50"

definition full_case :: "fuzz_event list" where
  "full_case = fuzz_loops 6200 120 210 5 50"

lemma set_for_steps:
  "0 < step \<Longrightarrow> i \<in> set (for_steps from to step) \<longleftrightarrow> from \<le> i \<and> i \<le> to \<and> (i - from) mod step = 0"
proof (intro iffI)
  assume step: "0 < step" and "i \<in> set (for_steps from to step)"
  then obtain k where k: "from \<le> to" "i = from + k * step" "k \<le> (to - from) div step"
    by (auto simp: for_steps_def split: if_splits)
  then have "k * step \<le> to - from" using step by (simp add: less_eq_div_iff_mult_less_eq)
  with k show "from \<le> i \<and> i \<le> to \<and> (i - from) mod step = 0" by simp
next
  assume i: "from \<le> i \<and> i \<le> to \<and> (i - from) mod step = 0"
  have "(i - from) div step * step = i - from" using i div_mult_mod_eq [of "i - from" step] by simp
  then have "i = from + (i - from) div step * step" using i by linarith
  moreover have "(i - from) div step \<le> (to - from) div step"
    by (rule div_le_mono) (use i in linarith)
  ultimately obtain k where k: "i = from + k * step" "k \<le> (to - from) div step" by blast
  have "k \<in> {0..<Suc ((to - from) div step)}" using k(2) by simp
  moreover have "\<not> to < from" using i by simp
  ultimately show "i \<in> set (for_steps from to step)" unfolding for_steps_def k(1) by auto
qed

text \<open>Every call of a test case has a number of items that the constructor is right for. The
  longer one never prints how far it is: its numbers of items are all 1 more than a multiple of 5.\<close>

lemma verify_in_loops:
  assumes "0 < step" "Verify n iterations threads \<in> set (fuzz_loops maxItems maxIterations maxThreads step c)"
  shows "\<exists>items. n = of_nat items \<and> 1 \<le> items \<and> items \<le> maxItems \<and> 1 \<le> iterations \<and>
    iterations \<le> int maxIterations \<and> 2 \<le> threads \<and> threads \<le> maxThreads"
  using assms by (auto simp: fuzz_loops_def set_for_steps split: if_splits)

lemma fuzz_cases_fit:
  assumes "Verify n iterations threads \<in> set (smoke_case @ full_case)"
  shows "size_limit n \<and> 0 < iterations \<and> 2 \<le> threads \<and> threads \<le> 210"
proof -
  obtain items where items: "n = of_nat items" "1 \<le> items" "items \<le> 6200" and
    rest: "1 \<le> iterations" "2 \<le> threads" "threads \<le> 210"
    using assms verify_in_loops [of 1 n iterations threads 1000 10 10 50]
      verify_in_loops [of 5 n iterations threads 6200 120 210 50]
    by (fastforce simp: smoke_case_def full_case_def)
  have "unat n = items" using items by (simp add: unat_of_nat)
  then show ?thesis using items rest by (simp add: size_limit_def)
qed

lemma full_case_silent: "Running_with items maxItems \<notin> set full_case"
proof -
  have "i mod 50 \<noteq> 0" if "1 \<le> i" "(i - 1) mod 5 = 0" for i :: nat
    using that by presburger
  then show ?thesis by (auto simp: full_case_def fuzz_loops_def set_for_steps)
qed

lemma smoke_case_reports: "Running_with 1000 1000 \<in> set smoke_case"
proof -
  have "1000 \<in> set (for_steps 1 1000 1)" by (simp add: set_for_steps)
  then show ?thesis by (force simp: smoke_case_def fuzz_loops_def)
qed

text \<open>C19: as long as no two testers are in \<open>Next\<close> at once, whatever the interleaving and
  the random choices, no tester fails or accesses the vector outside its bounds; from every
  state the testers can all end; and when they have ended the check passes: the indexer
  gives each of its indices once.\<close>

theorem indexer_fuzz_passes:
  assumes "size_limit n" "fz_reachable True n iterations threads s"
  shows "(\<forall>te \<in> set (fz_testers s). \<not> te_failed te \<and> tester_call te \<noteq> Some Crashed) \<and>
    (\<exists>as s'. fz_exec True iterations as s = Some s' \<and> all_ended s') \<and>
    (all_ended s \<longrightarrow> verify_end n s = Inr True)"
proof (intro conjI ballI impI)
  note inv = fz_reachable_inv [OF assms(2,1)]
  show "\<not> te_failed te" if "te \<in> set (fz_testers s)" for te
    using inv that by (auto simp: fz_inv_def tester_wf_def)
  show "tester_call te \<noteq> Some Crashed" if te: "te \<in> set (fz_testers s)" for te
  proof
    assume "tester_call te = Some Crashed"
    with te obtain us vs where "map tester_call (fz_testers s) = us @ Some Crashed # vs"
      by (metis (no_types, lifting) in_set_conv_decomp list.simps(9) map_append)
    with inv thr_not_crashed show False unfolding fz_inv_def by metis
  qed
  show "\<exists>as s'. fz_exec True iterations as s = Some s' \<and> all_ended s'"
    using testers_can_end [OF inv] by blast
  show "verify_end n s = Inr True" if "all_ended s" by (rule verify_end_ok [OF inv that])
qed

theorem indexer_fuzz_passes_witness:
  "\<exists>s. fz_exec True 2 fuzz_in_turn fuzz2 = Some s \<and> all_ended s \<and> verify_end 2 s = Inr True"
proof -
  have "(case fz_exec True 2 fuzz_in_turn fuzz2 of None \<Rightarrow> False | Some s \<Rightarrow> all_ended s)"
    by code_simp
  then obtain s where s: "fz_exec True 2 fuzz_in_turn fuzz2 = Some s" "all_ended s"
    by (auto split: option.splits)
  from indexer_fuzz_passes [OF size_limit_2 fz_exec_reachable [OF fuzz2_reachable s(1)]] s
  show ?thesis by blast
qed

text \<open>So each call of the test cases passes, as long as its testers do not overlap in \<open>Next\<close>.\<close>

lemma fuzz_cases_pass:
  assumes "Verify n iterations threads \<in> set (smoke_case @ full_case)"
    "fz_reachable True n iterations threads s" "all_ended s"
  shows "\<not> list_ex te_failed (fz_testers s) \<and> verify_end n s = Inr True"
proof -
  have "size_limit n" using fuzz_cases_fit [OF assms(1)] by blast
  from fz_reachable_inv [OF assms(2) this] have inv: "fz_inv n iterations s" .
  then have "\<not> te_failed te" if "te \<in> set (fz_testers s)" for te
    using that by (auto simp: fz_inv_def tester_wf_def)
  then show ?thesis using verify_end_ok [OF inv assms(3)] by (auto simp: list_ex_iff)
qed

end
