(* ===== verification/DataPoolApp.thy ===== *)
theory DataPoolApp
  imports PoolInstances
begin

text \<open>
  The example program \<open>examples/DataPoolApp.cpp\<close>, which uses each kind of object pool once. The
  output is a string; a function that prints gives the output it adds. The pools are local to
  their functions, which give the pool as it is before its destructor runs.
\<close>

section \<open>The buffers\<close>

record static_buffer =
  sb_buffer :: "char list"
  sb_position :: size_t

definition StaticBuffer :: "nat \<Rightarrow> static_buffer" where
  "StaticBuffer BufferSize = \<lparr>sb_buffer = replicate BufferSize (CHR 0x00), sb_position = 0\<rparr>"

definition sb_Add :: "char \<Rightarrow> static_buffer \<Rightarrow> cxx_error + static_buffer" where
  "sb_Add cData b =
     (if unat (sb_position b) < length (sb_buffer b)
      then Inr (b\<lparr>sb_buffer := (sb_buffer b)[unat (sb_position b) := cData],
                  sb_position := sb_position b + 1\<rparr>)
      else Inl OutOfRange)"

definition sb_Get :: "size_t \<Rightarrow> static_buffer \<Rightarrow> cxx_error + char" where
  "sb_Get pos b =
     (if unat pos < length (sb_buffer b) then Inr (sb_buffer b ! unat pos) else Inl OutOfRange)"

definition sb_Size :: "static_buffer \<Rightarrow> size_t" where
  "sb_Size b = sb_position b"

definition sb_Reset :: "static_buffer \<Rightarrow> static_buffer" where
  "sb_Reset b = b\<lparr>sb_buffer := replicate (length (sb_buffer b)) (CHR 0x00), sb_position := 0\<rparr>"

definition DynamicBuffer :: "char list" where
  "DynamicBuffer = replicate 64 (CHR 0x00)"

section \<open>The examples\<close>

text \<open>A \<open>char\<close> is even or not whether it is signed or not.\<close>

definition even_char :: "char \<Rightarrow> bool" where
  "even_char c \<longleftrightarrow> (of_char c :: int) mod 2 = 0"

fun add_even :: "char list \<Rightarrow> static_buffer \<Rightarrow> cxx_error + static_buffer" where
  "add_even [] buffer = Inr buffer"
| "add_even (cData # numbers) buffer =
     (if even_char cData then andThen (sb_Add cData buffer) (add_even numbers)
      else add_even numbers buffer)"

function print_buffer :: "size_t \<Rightarrow> static_buffer \<Rightarrow> string \<Rightarrow> cxx_error + string" where
  "print_buffer pos buffer out =
     (if pos < sb_Size buffer
      then andThen (sb_Get pos buffer) (\<lambda>c. print_buffer (pos + 1) buffer (out @ [c, CHR '' '']))
      else Inr (out @ [CHR 0x0A]))"
  by pat_completeness auto
termination
  by (relation "measure (\<lambda>(pos, b, out). unat (sb_Size b) - unat pos)")
    (auto simp: unat_inc word_less_nat_alt)

declare print_buffer.simps [simp del]

text \<open>When \<open>Add\<close> throws, the exception leaves the function.\<close>

definition selectEvenNumbersStaticPool ::
    "char list \<Rightarrow> cxx_error + string \<times> (static_buffer, mutex_indexer) pool" where
  "selectEvenNumbersStaticPool numbers =
     andThen (StaticPool mutex_ops (StaticBuffer 64) 8) (\<lambda>pool.
     andThen (pl_Take mutex_ops pool) (\<lambda>(item, pool).
     andThen
       (if pi_Empty item then Inr ('''', pool)
        else
          (case pi_Get item of
             None \<Rightarrow> Inl UndefinedBehaviour
           | Some a \<Rightarrow>
               andThen (add_even numbers (pl_items pool ! a)) (\<lambda>buffer.
               andThen (print_buffer 0 buffer '''') (\<lambda>out.
                 Inr (out, pool\<lparr>pl_items := (pl_items pool)[a := buffer]\<rparr>))))) (\<lambda>(out, pool).
     andThen (pl_destroy mutex_ops (Resetable sb_Reset) item pool) (\<lambda>pool. Inr (out, pool)))))"

definition exampleRuntimePool :: "cxx_error + (char list, mutex_indexer) pool" where
  "exampleRuntimePool =
     andThen (RuntimePool mutex_ops DynamicBuffer 2) (\<lambda>pool.
     andThen (pl_Take mutex_ops pool) (\<lambda>(item, pool).
       pl_destroy mutex_ops NotResetable item pool))"

definition stringReseter :: "string \<Rightarrow> string" where
  "stringReseter value = ''''"

text \<open>The item a handle points to, which must not be null.\<close>

definition deref :: "handle \<Rightarrow> ('a, 'x) pool \<Rightarrow> cxx_error + 'a" where
  "deref item pool =
     (case pi_Get item of None \<Rightarrow> Inl UndefinedBehaviour | Some a \<Rightarrow> Inr (pl_items pool ! a))"

definition exampleCustomReseter :: "cxx_error + string \<times> (string, mutex_indexer) pool" where
  "exampleCustomReseter =
     andThen (Pool_sized_reset mutex_ops '''' 1 stringReseter) (\<lambda>pool.
     andThen (pl_Take mutex_ops pool) (\<lambda>(item, pool).
     andThen
       (if pi_Empty item then Inr ('''', pool)
        else
          (let pool = pl_write item (\<lambda>_. ''hello'') pool in
           andThen (deref item pool) (\<lambda>value.
             Inr (''string item before reset is: '' @ [CHR 0x27] @ value @ [CHR 0x27, CHR 0x0A], pool))))
       (\<lambda>(out, pool).
     andThen (pl_destroy mutex_ops NotResetable item pool) (\<lambda>pool.
     andThen (pl_Take mutex_ops pool) (\<lambda>(item, pool).
     andThen (deref item pool) (\<lambda>value.
     andThen (pl_destroy mutex_ops NotResetable item pool) (\<lambda>pool.
       Inr (out @ ''string item after reset is: '' @ [CHR 0x27] @ value @ [CHR 0x27, CHR 0x0A], pool))))))))"

definition exampleNoReseterConcurrentIndexer :: "cxx_error + (int, ci) pool" where
  "exampleNoReseterConcurrentIndexer =
     andThen (StaticPool concurrent_ops 0 1) (\<lambda>pool.
     andThen (pl_Take concurrent_ops pool) (\<lambda>(item, pool).
       pl_destroy concurrent_ops NotResetable item pool))"

definition data_pool_main :: "cxx_error + string" where
  "data_pool_main =
     andThen (selectEvenNumbersStaticPool ''abcd'') (\<lambda>(out1, _).
     andThen exampleRuntimePool (\<lambda>_.
     andThen exampleCustomReseter (\<lambda>(out2, _).
     andThen exampleNoReseterConcurrentIndexer (\<lambda>_.
       Inr (out1 @ out2)))))"

section \<open>Lemmas\<close>

text \<open>A buffer to which \<open>xs\<close> was added.\<close>

definition holds_chars :: "static_buffer \<Rightarrow> char list \<Rightarrow> bool" where
  "holds_chars b xs \<longleftrightarrow> length xs \<le> 64 \<and> sb_position b = of_nat (length xs) \<and>
     sb_buffer b = xs @ replicate (64 - length xs) (CHR 0x00)"

lemma unat_small: "n \<le> 64 \<Longrightarrow> unat (of_nat n :: size_t) = n"
  by (simp add: unat_of_nat)

lemma add_one:
  assumes b: "holds_chars b xs"
  shows "if length xs < 64 then \<exists>b'. sb_Add c b = Inr b' \<and> holds_chars b' (xs @ [c])
    else sb_Add c b = Inl OutOfRange"
proof (cases "length xs < 64")
  case True
  define b' where "b' = b\<lparr>sb_buffer := (sb_buffer b)[length xs := c], sb_position := sb_position b + 1\<rparr>"
  have "sb_Add c b = Inr b'"
    using b True by (simp add: sb_Add_def holds_chars_def unat_small b'_def)
  moreover have "holds_chars b' (xs @ [c])"
  proof -
    have "64 - length xs = Suc (64 - length (xs @ [c]))" using True by simp
    then have rep: "replicate (64 - length xs) (CHR 0x00) = CHR 0x00 # replicate (64 - length (xs @ [c])) (CHR 0x00)"
      by (simp only: replicate_Suc)
    have "sb_buffer b' = (xs @ [c]) @ replicate (64 - length (xs @ [c])) (CHR 0x00)"
      using b unfolding holds_chars_def b'_def rep by (simp add: list_update_append)
    moreover have "sb_position b' = of_nat (length (xs @ [c]))"
      using b by (simp add: holds_chars_def b'_def add.commute)
    ultimately show ?thesis using True by (simp add: holds_chars_def)
  qed
  ultimately show ?thesis using True by simp
next
  case False
  then show ?thesis using b by (simp add: sb_Add_def holds_chars_def unat_small)
qed

lemma add_all:
  "holds_chars b xs \<Longrightarrow> if length xs + length (filter even_char cs) \<le> 64
     then \<exists>b'. add_even cs b = Inr b' \<and> holds_chars b' (xs @ filter even_char cs)
     else add_even cs b = Inl OutOfRange"
proof (induction cs arbitrary: b xs)
  case Nil
  then show ?case by (simp add: holds_chars_def)
next
  case (Cons c cs)
  show ?case
  proof (cases "even_char c \<and> length xs < 64")
    case True
    with add_one [OF Cons.prems, of c] obtain b' where
      b': "sb_Add c b = Inr b'" "holds_chars b' (xs @ [c])" by auto
    have "(xs @ [c]) @ filter even_char cs = xs @ filter even_char (c # cs)" using True by simp
    then show ?thesis using Cons.IH [OF b'(2)] True b'(1) by (auto split: if_splits)
  next
    case False
    with add_one [OF Cons.prems, of c] Cons.IH [OF Cons.prems] show ?thesis by auto
  qed
qed

lemma print_all:
  assumes b: "holds_chars b xs" and k: "k \<le> length xs"
  shows "print_buffer (of_nat k) b out =
    Inr (out @ concat (map (\<lambda>c. [c, CHR '' '']) (drop k xs)) @ [CHR 0x0A])"
  using k
proof (induction "length xs - k" arbitrary: k out)
  case 0
  then show ?case using b by (simp add: print_buffer.simps [of "of_nat k"] sb_Size_def holds_chars_def)
next
  case (Suc m)
  then have k: "k < length xs" "k \<le> 64" "length xs \<le> 64" using b by (auto simp: holds_chars_def)
  then have less: "(of_nat k :: size_t) < sb_Size b"
    using b by (simp add: sb_Size_def holds_chars_def word_less_nat_alt unat_small)
  have get: "sb_Get (of_nat k) b = Inr (xs ! k)"
    using b k by (simp add: sb_Get_def holds_chars_def unat_small nth_append)
  have "drop k xs = xs ! k # drop (Suc k) xs" using k(1) by (simp add: Cons_nth_drop_Suc)
  with Suc.hyps(1) [of "Suc k" "out @ [xs ! k, CHR '' '']"] Suc.hyps(2) k(1) less get show ?case
    by (simp add: print_buffer.simps [of "of_nat k"] add.commute)
qed

lemma replicate_update: "(replicate n x)[i := x] = replicate n x"
  by (induction n arbitrary: i) (auto split: nat.split)

lemma select_even:
  "if length (filter even_char numbers) \<le> 64
   then \<exists>p. selectEvenNumbersStaticPool numbers =
       Inr (concat (map (\<lambda>c. [c, CHR '' '']) (filter even_char numbers)) @ [CHR 0x0A], p) \<and>
     length (mi_avail (pl_indexer p)) = 8 \<and> pl_items p = replicate 8 (StaticBuffer 64)
   else selectEvenNumbersStaticPool numbers = Inl OutOfRange"
proof -
  obtain p0 where p0: "StaticPool mutex_ops (StaticBuffer 64) 8 = Inr p0" "mutex.pool_ok 8 p0 []"
    "pl_items p0 = replicate (unat (8 :: size_t)) (StaticBuffer 64)"
    using mutex.static_ok [OF TrueI] .
  from mutex.take_spec [OF p0(2)] obtain item p1 where
    p1: "pl_Take mutex_ops p0 = Inr (item, p1)" "mutex.pool_ok 8 p1 [item]" "pl_items p1 = pl_items p0"
    "\<not> pi_Empty item" "pi_Get item = Some (unat (pi_index item))" by auto
  let ?a = "unat (pi_index item)"
  have a: "?a < 8"
    using mutex.pool_ok_meaning(3) [OF p1(2)] p1(4) by (simp add: live_def pi_Empty_def word_less_nat_alt)
  have items: "pl_items p1 = replicate 8 (StaticBuffer 64)" using p0(3) p1(3) by simp
  then have buffer: "holds_chars (pl_items p1 ! ?a) []" using a by (simp add: holds_chars_def StaticBuffer_def)
  note run = selectEvenNumbersStaticPool_def p0(1) p1(1,4,5) andThen_simps prod.case if_False option.case
  show ?thesis
  proof (cases "length (filter even_char numbers) \<le> 64")
    case True
    with add_all [OF buffer, of numbers] obtain b where
      b: "add_even numbers (pl_items p1 ! ?a) = Inr b" "holds_chars b (filter even_char numbers)" by auto
    let ?p2 = "p1\<lparr>pl_items := (pl_items p1)[?a := b]\<rparr>"
    have "mutex.pool_ok 8 ?p2 [item]" by (rule mutex.pool_ok_items [OF p1(2)]) simp
    from mutex.destroy_spec [OF this, of 0 "Resetable sb_Reset"] p1(5) a items obtain p3 where
      p3: "pl_destroy mutex_ops (Resetable sb_Reset) item ?p2 = Inr p3" "mutex.pool_ok 8 p3 []"
      "pl_items p3 = (replicate 8 (StaticBuffer 64))[?a := sb_Reset b]"
      by (auto simp: InvokeReset_def)
    have "length (sb_buffer b) = 64" using b(2) by (simp add: holds_chars_def)
    then have "sb_Reset b = StaticBuffer 64" by (simp add: sb_Reset_def StaticBuffer_def)
    then have "pl_items p3 = replicate 8 (StaticBuffer 64)" by (simp only: p3(3) replicate_update)
    moreover have "length (mi_avail (pl_indexer p3)) = 8"
      using mutex.pool_ok_meaning(4) [OF p3(2)] by simp
    moreover have "selectEvenNumbersStaticPool numbers =
        Inr (concat (map (\<lambda>c. [c, CHR '' '']) (filter even_char numbers)) @ [CHR 0x0A], p3)"
      using print_all [OF b(2), of 0 "''''"] b(1) p3(1) by (simp add: run)
    ultimately show ?thesis using True by simp
  next
    case False
    with add_all [OF buffer, of numbers] have "add_even numbers (pl_items p1 ! ?a) = Inl OutOfRange" by simp
    then show ?thesis using False by (simp add: run)
  qed
qed

lemma concurrent_example: "\<exists>p. exampleNoReseterConcurrentIndexer = Inr p"
proof -
  have one: "size_limit 1" by (simp add: size_limit_def)
  obtain p0 :: "(int, ci) pool" where
    p0: "StaticPool concurrent_ops 0 1 = Inr p0" "concurrent.pool_ok 1 p0 []"
    using concurrent.static_ok [OF one] .
  from concurrent.take_spec [OF p0(2)] obtain item p1 where
    p1: "pl_Take concurrent_ops p0 = Inr (item, p1)" "concurrent.pool_ok 1 p1 [item]" by auto
  from concurrent.destroy_spec [OF p1(2), of 0 NotResetable] p0(1) p1(1) show ?thesis
    by (auto simp: exampleNoReseterConcurrentIndexer_def)
qed

lemma other_examples:
  "map_sum id fst (selectEvenNumbersStaticPool ''abcd'') = Inr (''b d '' @ [CHR 0x0A])"
  "map_sum id (\<lambda>_. ()) exampleRuntimePool = Inr ()"
  "map_sum id fst exampleCustomReseter = Inr (
     ''string item before reset is: '' @ [CHR 0x27] @ ''hello'' @ [CHR 0x27, CHR 0x0A] @
     ''string item after reset is: '' @ [CHR 0x27, CHR 0x27, CHR 0x0A])"
  by code_simp+

lemma inr_part: "map_sum f g r = Inr x \<Longrightarrow> \<exists>y. r = Inr y \<and> g y = x"
  by (cases r) auto

lemma main_output:
  "data_pool_main = Inr (''b d '' @ [CHR 0x0A] @
     ''string item before reset is: '' @ [CHR 0x27] @ ''hello'' @ [CHR 0x27, CHR 0x0A] @
     ''string item after reset is: '' @ [CHR 0x27, CHR 0x27, CHR 0x0A])"
proof -
  from inr_part [OF other_examples(1)] obtain x where
    x: "selectEvenNumbersStaticPool ''abcd'' = Inr x" "fst x = ''b d '' @ [CHR 0x0A]" by blast
  from inr_part [OF other_examples(2)] obtain y where y: "exampleRuntimePool = Inr y" by blast
  from inr_part [OF other_examples(3)] obtain z where z: "exampleCustomReseter = Inr z"
    "fst z = ''string item before reset is: '' @ [CHR 0x27] @ ''hello'' @ [CHR 0x27, CHR 0x0A] @
     ''string item after reset is: '' @ [CHR 0x27, CHR 0x27, CHR 0x0A]" by blast
  from concurrent_example obtain p where p: "exampleNoReseterConcurrentIndexer = Inr p" ..
  have "data_pool_main = Inr (fst x @ fst z)"
    by (simp only: data_pool_main_def x(1) y z(1) p andThen_simps prod.case_eq_if)
  then show ?thesis by (simp only: x(2) z(2) append_assoc)
qed

section \<open>Properties\<close>

text \<open>C37: the function that selects the even numbers of its argument prints them, each followed by
  a space, as long as they are at most the 64 a buffer can hold, and then the pool has all its
  items again, all of them reset; with more of them it throws the exception of
  \<open>std::array::at\<close>. The program, with its argument \<open>abcd\<close>, ends and prints what it is
  meant to.\<close>

theorem data_pool_app:
  "(if length (filter even_char numbers) \<le> 64
    then \<exists>p. selectEvenNumbersStaticPool numbers =
        Inr (concat (map (\<lambda>c. [c, CHR '' '']) (filter even_char numbers)) @ [CHR 0x0A], p) \<and>
      length (mi_avail (pl_indexer p)) = 8 \<and> pl_items p = replicate 8 (StaticBuffer 64)
    else selectEvenNumbersStaticPool numbers = Inl OutOfRange) \<and>
   data_pool_main = Inr (''b d '' @ [CHR 0x0A] @
     ''string item before reset is: '' @ [CHR 0x27] @ ''hello'' @ [CHR 0x27, CHR 0x0A] @
     ''string item after reset is: '' @ [CHR 0x27, CHR 0x27, CHR 0x0A])"
  using select_even main_output by blast

end
