(* ===== verification/CMem.thy ===== *)
theory CMem
  imports Prelude "HOL-Library.AList"
begin

text \<open>
  The part of C that \<open>simple_pool/dyn_mem_pool.h\<close> is written in: a heap of blocks given out by
  \<open>malloc\<close>, and the struct fields that live in them, one function from addresses for each
  field. An access that is not to a live, large enough block is an error, and so are freeing
  what is not allocated and a failing assertion.
\<close>

section \<open>Memory\<close>

type_synonym addr = nat

text \<open>\<open>NULL\<close> is address 0. \<open>mn_\<close> are the fields of \<open>struct MemNode\<close>, \<open>mp_\<close> those of
  \<open>struct MemPool\<close>, \<open>mu_pools\<close> the array of \<open>struct MultiPool\<close>, and \<open>hdr\<close> the word in front
  of the data of a memory node. \<open>blocks\<close> lists the live blocks with their sizes, \<open>calls\<close>
  counts the calls of \<open>malloc\<close>.\<close>

record cmem =
  blocks :: "(addr \<times> nat) list"
  calls :: nat
  mn_next :: "addr \<Rightarrow> addr"
  mn_data :: "addr \<Rightarrow> addr"
  mn_pool :: "addr \<Rightarrow> addr"
  hdr :: "addr \<Rightarrow> addr"
  mp_head :: "addr \<Rightarrow> addr"
  mp_size :: "addr \<Rightarrow> u32"
  mp_allocs :: "addr \<Rightarrow> u32"
  mp_avail :: "addr \<Rightarrow> u32"
  mu_pools :: "addr \<Rightarrow> nat \<Rightarrow> addr"

text \<open>\<open>NoReturn\<close> stands for a loop that does not end.\<close>

datatype c_error = AssertFail | BadAccess | BadFree | NoReturn

text \<open>
  What the code is compiled with: the allocator, which chooses the address (or \<open>NULL\<close>) from
  the number of calls so far, the live blocks and the size; and whether
  \<open>TRACK_POOL_USAGE\<close> is defined.
\<close>

record c_env =
  ce_malloc :: "nat \<Rightarrow> (addr \<times> nat) list \<Rightarrow> nat \<Rightarrow> addr"
  ce_track :: bool

section \<open>Accesses and allocation\<close>

definition blk :: "cmem \<Rightarrow> addr \<rightharpoonup> nat" where
  "blk s = map_of (blocks s)"

definition valid :: "nat \<Rightarrow> addr \<Rightarrow> cmem \<Rightarrow> bool" where
  "valid n p s = (case blk s p of None \<Rightarrow> False | Some k \<Rightarrow> p \<noteq> 0 \<and> n \<le> k)"

definition access :: "nat \<Rightarrow> addr \<Rightarrow> cmem \<Rightarrow> c_error + 'a \<Rightarrow> c_error + 'a" where
  "access n p s r = (if valid n p s then r else Inl BadAccess)"

definition c_malloc :: "c_env \<Rightarrow> nat \<Rightarrow> cmem \<Rightarrow> addr \<times> cmem" where
  "c_malloc E n s =
     (let p = ce_malloc E (calls s) (blocks s) n in
      (p, s\<lparr>calls := Suc (calls s),
            blocks := (if p = 0 then blocks s else (p, n) # blocks s)\<rparr>))"

definition c_free :: "addr \<Rightarrow> cmem \<Rightarrow> c_error + cmem" where
  "c_free p s =
     (if p = 0 then Inr s
      else if blk s p = None then Inl BadFree
      else Inr (s\<lparr>blocks := AList.delete p (blocks s)\<rparr>))"

lemma access_ok [simp]: "valid n p s \<Longrightarrow> access n p s r = r"
  by (simp add: access_def)

lemma valid_block: "blk s p = Some k \<Longrightarrow> p \<noteq> 0 \<Longrightarrow> n \<le> k \<Longrightarrow> valid n p s"
  by (simp add: valid_def)

lemma blk_update [simp]:
  "blk (s\<lparr>calls := c\<rparr>) = blk s"
  "blk (s\<lparr>mn_next := f\<rparr>) = blk s"
  "blk (s\<lparr>mn_data := f\<rparr>) = blk s"
  "blk (s\<lparr>mn_pool := f\<rparr>) = blk s"
  "blk (s\<lparr>hdr := f\<rparr>) = blk s"
  "blk (s\<lparr>mp_head := f\<rparr>) = blk s"
  "blk (s\<lparr>mp_size := g\<rparr>) = blk s"
  "blk (s\<lparr>mp_allocs := g\<rparr>) = blk s"
  "blk (s\<lparr>mp_avail := g\<rparr>) = blk s"
  "blk (s\<lparr>mu_pools := h\<rparr>) = blk s"
  "blk (s\<lparr>blocks := (p, n) # blocks s\<rparr>) = (blk s)(p \<mapsto> n)"
  "blk (s\<lparr>blocks := AList.delete p (blocks s)\<rparr>) = (blk s)(p := None)"
  by (simp_all add: blk_def delete_conv')

section \<open>What the C library promises\<close>

text \<open>Two blocks, given by address and size, do not overlap.\<close>

definition apart :: "addr \<Rightarrow> nat \<Rightarrow> addr \<Rightarrow> nat \<Rightarrow> bool" where
  "apart p n q k \<longleftrightarrow> p + n \<le> q \<or> q + k \<le> p"

definition heap_ok :: "(addr \<rightharpoonup> nat) \<Rightarrow> bool" where
  "heap_ok B \<longleftrightarrow> (\<forall>p n. B p = Some n \<longrightarrow> 0 < p \<and> 0 < n) \<and>
     (\<forall>p n q k. B p = Some n \<longrightarrow> B q = Some k \<longrightarrow> p \<noteq> q \<longrightarrow> apart p n q k)"

text \<open>\<open>malloc\<close> returns \<open>NULL\<close> or a block that overlaps no live block.\<close>

definition malloc_ok :: "c_env \<Rightarrow> bool" where
  "malloc_ok E \<longleftrightarrow> (\<forall>c B n. ce_malloc E c B n \<noteq> 0 \<longrightarrow>
     (\<forall>q k. map_of B q = Some k \<longrightarrow> apart (ce_malloc E c B n) n q k))"

lemma heap_ok_pos: "heap_ok B \<Longrightarrow> B p = Some n \<Longrightarrow> 0 < p \<and> 0 < n"
  by (simp add: heap_ok_def)

lemma heap_ok_free: "heap_ok B \<Longrightarrow> heap_ok (B(p := None))"
  by (auto simp: heap_ok_def split: if_splits)

lemma apart_sym: "apart p n q k \<longleftrightarrow> apart q k p n"
  by (auto simp: apart_def)

lemma heap_ok_insert:
  assumes "heap_ok B" "0 < p" "0 < n" "\<forall>q k. B q = Some k \<longrightarrow> apart p n q k"
  shows "heap_ok (B(p \<mapsto> n))" "B p = None"
proof -
  show "B p = None"
  proof (rule ccontr)
    assume "B p \<noteq> None"
    then obtain k where k: "B p = Some k" by blast
    with assms(4) have "apart p n p k" by blast
    with heap_ok_pos [OF assms(1) k] assms(3) show False by (simp add: apart_def)
  qed
  show "heap_ok (B(p \<mapsto> n))"
    using assms apart_sym [of p n] by (auto simp: heap_ok_def split: if_splits)
qed

text \<open>The two outcomes of \<open>malloc\<close>.\<close>

lemma c_malloc_cases:
  assumes "malloc_ok E" "heap_ok (blk s)" "0 < n"
  obtains (null) "c_malloc E n s = (0, s\<lparr>calls := Suc (calls s)\<rparr>)"
  | (block) p where "c_malloc E n s =
      (p, s\<lparr>calls := Suc (calls s)\<rparr>\<lparr>blocks := (p, n) # blocks s\<rparr>)"
    "0 < p" "blk s p = None" "heap_ok ((blk s)(p \<mapsto> n))"
proof (cases "ce_malloc E (calls s) (blocks s) n = 0")
  case True
  then show ?thesis using null by (simp add: c_malloc_def Let_def)
next
  case False
  let ?p = "ce_malloc E (calls s) (blocks s) n"
  have "\<forall>q k. blk s q = Some k \<longrightarrow> apart ?p n q k"
    using assms(1) False by (simp add: malloc_ok_def blk_def)
  with False heap_ok_insert [OF assms(2) _ assms(3), of ?p] block [of ?p] show ?thesis
    by (simp add: c_malloc_def Let_def)
qed

lemma c_free_ok: "heap_ok (blk s) \<Longrightarrow> blk s p = Some k \<Longrightarrow>
    c_free p s = Inr (s\<lparr>blocks := AList.delete p (blocks s)\<rparr>)"
  using heap_ok_pos [of "blk s" p k] by (simp add: c_free_def)

section \<open>An allocator\<close>

text \<open>
  An allocator that keeps the promise: a new block starts where the last live block ends.
  \<open>fails\<close> says which calls return \<open>NULL\<close>.
\<close>

definition next_fit :: "(nat \<Rightarrow> bool) \<Rightarrow> nat \<Rightarrow> (addr \<times> nat) list \<Rightarrow> nat \<Rightarrow> addr" where
  "next_fit fails c B n = (if fails c then 0 else foldr (\<lambda>(p, k) m. max m (p + k)) B 8)"

definition next_fit_env :: "(nat \<Rightarrow> bool) \<Rightarrow> c_env" where
  "next_fit_env fails = \<lparr>ce_malloc = next_fit fails, ce_track = True\<rparr>"

text \<open>Memory before the program has allocated anything; the fields hold arbitrary values.\<close>

definition empty_mem :: cmem where
  "empty_mem = \<lparr>blocks = [], calls = 0, mn_next = (\<lambda>_. 1), mn_data = (\<lambda>_. 1),
     mn_pool = (\<lambda>_. 1), hdr = (\<lambda>_. 1), mp_head = (\<lambda>_. 1), mp_size = (\<lambda>_. 1),
     mp_allocs = (\<lambda>_. 1), mp_avail = (\<lambda>_. 1), mu_pools = (\<lambda>_ _. 1)\<rparr>"

lemma next_fit_ends: "(q, k) \<in> set B \<Longrightarrow> q + k \<le> foldr (\<lambda>(p, k) m. max m (p + k)) B (8 :: nat)"
  by (induction B) auto

lemma next_fit_ok: "malloc_ok (next_fit_env fails)"
  using next_fit_ends
  by (auto simp: malloc_ok_def next_fit_env_def next_fit_def apart_def dest!: map_of_SomeD)

lemma heap_ok_empty [simp]: "heap_ok (blk empty_mem)"
  by (simp add: heap_ok_def blk_def empty_mem_def)

end
