(* ===== verification/MemPool.thy ===== *)
theory MemPool
  imports CMem
begin

text \<open>
  The memory pool of \<open>simple_pool/dyn_mem_pool.h\<close>, used by one thread: a list of free memory
  nodes, linked through \<open>next\<close>, from which blocks of one size are acquired and to which they
  are returned. Functions that return a pointer give it with the new memory.
\<close>

section \<open>The code\<close>

definition sizeof_MemNode :: nat where
  "sizeof_MemNode = 24"

definition sizeof_MemPool :: "c_env \<Rightarrow> nat" where
  "sizeof_MemPool E = (if ce_track E then 24 else 16)"

definition sizeof_ptrdiff_t :: nat where
  "sizeof_ptrdiff_t = 8"

definition track_pool_usage_allocs :: "c_env \<Rightarrow> addr \<Rightarrow> cmem \<Rightarrow> c_error + cmem" where
  "track_pool_usage_allocs E pool s =
     (if ce_track E
      then access (sizeof_MemPool E) pool s
        (Inr (s\<lparr>mp_allocs := (mp_allocs s)(pool := mp_allocs s pool + 1)\<rparr>))
      else Inr s)"

definition track_pool_usage_returned :: "c_env \<Rightarrow> addr \<Rightarrow> cmem \<Rightarrow> c_error + cmem" where
  "track_pool_usage_returned E pool s =
     (if ce_track E
      then access (sizeof_MemPool E) pool s
        (Inr (s\<lparr>mp_avail := (mp_avail s)(pool := mp_avail s pool + 1)\<rparr>))
      else Inr s)"

definition track_pool_usage_memnode_unavailable ::
    "c_env \<Rightarrow> addr \<Rightarrow> cmem \<Rightarrow> c_error + cmem" where
  "track_pool_usage_memnode_unavailable E pool s =
     (if ce_track E
      then access (sizeof_MemPool E) pool s
        (Inr (s\<lparr>mp_avail := (mp_avail s)(pool := mp_avail s pool - 1)\<rparr>))
      else Inr s)"

definition get_memnode_in_data :: "addr \<Rightarrow> cmem \<Rightarrow> c_error + addr" where
  "get_memnode_in_data data s =
     (if data = 0 then Inl AssertFail
      else if data < sizeof_ptrdiff_t then Inl BadAccess
      else access sizeof_ptrdiff_t (data - sizeof_ptrdiff_t) s (Inr (hdr s (data - sizeof_ptrdiff_t))))"

definition alloc_poolable_mem :: "c_env \<Rightarrow> addr \<Rightarrow> cmem \<Rightarrow> c_error + addr \<times> cmem" where
  "alloc_poolable_mem E pool s =
     (if pool = 0 then Inl AssertFail
      else access (sizeof_MemPool E) pool s
       (if mp_size s pool = 0 then Inl AssertFail
        else (case c_malloc E sizeof_MemNode s of (node, s1) \<Rightarrow>
          if node = 0 then Inr (0, s1)
          else access sizeof_MemNode node s1
            (let s2 = s1\<lparr>mn_next := (mn_next s1)(node := 0)\<rparr> in
             (case c_malloc E (unat (mp_size s2 pool) + sizeof_ptrdiff_t) s2 of (ptr_data, s3) \<Rightarrow>
               if ptr_data = 0 then andThen (c_free node s3) (\<lambda>s4. Inr (0, s4))
               else access sizeof_ptrdiff_t ptr_data s3
                 (Inr (node, s3\<lparr>hdr := (hdr s3)(ptr_data := node),
                   mn_data := (mn_data s3)(node := ptr_data + sizeof_ptrdiff_t),
                   mn_pool := (mn_pool s3)(node := pool)\<rparr>)))))))"

definition free_poolable_mem :: "addr \<Rightarrow> cmem \<Rightarrow> c_error + cmem" where
  "free_poolable_mem node s =
     (if node = 0 then Inl AssertFail
      else access sizeof_MemNode node s
        (let ptr_data = mn_data s node in
         if ptr_data < sizeof_ptrdiff_t then Inl BadAccess
         else andThen (c_free (ptr_data - sizeof_ptrdiff_t) s) (c_free node)))"

definition alloc_mem_pool :: "c_env \<Rightarrow> u32 \<Rightarrow> cmem \<Rightarrow> addr \<times> cmem" where
  "alloc_mem_pool E mem_size s =
     (case c_malloc E (sizeof_MemPool E) s of (pool, s1) \<Rightarrow>
        if pool = 0 then (0, s1)
        else
          (let s2 = s1\<lparr>mp_head := (mp_head s1)(pool := 0), mp_size := (mp_size s1)(pool := 0),
                       mp_allocs := (mp_allocs s1)(pool := 0),
                       mp_avail := (mp_avail s1)(pool := 0)\<rparr> in
           (pool, s2\<lparr>mp_size := (mp_size s2)(pool := mem_size)\<rparr>)))"

text \<open>The body of the loop of \<open>pool_mem_free_all\<close>, and the loop; \<open>None\<close> if it never ends.\<close>

definition free_all_step :: "c_env \<Rightarrow> addr \<Rightarrow> addr \<Rightarrow> cmem \<Rightarrow> c_error + cmem" where
  "free_all_step E pool node s =
     access sizeof_MemNode node s (access (sizeof_MemPool E) pool s
      (andThen (free_poolable_mem node (s\<lparr>mp_head := (mp_head s)(pool := mn_next s node)\<rparr>))
        (track_pool_usage_memnode_unavailable E pool)))"

partial_function (option) free_all_loop ::
    "c_env \<Rightarrow> addr \<Rightarrow> addr \<Rightarrow> cmem \<Rightarrow> (c_error + cmem) option" where
  "free_all_loop E pool node s =
     (if node = 0 then Some (Inr s)
      else
        (case free_all_step E pool node s of
           Inl e \<Rightarrow> Some (Inl e)
         | Inr s' \<Rightarrow>
             if valid (sizeof_MemPool E) pool s' then free_all_loop E pool (mp_head s' pool) s'
             else Some (Inl BadAccess)))"

definition pool_mem_free_all :: "c_env \<Rightarrow> addr \<Rightarrow> cmem \<Rightarrow> c_error + cmem" where
  "pool_mem_free_all E pool s =
     (if pool = 0 then Inl AssertFail
      else access (sizeof_MemPool E) pool s
        (case free_all_loop E pool (mp_head s pool) s of None \<Rightarrow> Inl NoReturn | Some r \<Rightarrow> r))"

definition free_mem_pool :: "c_env \<Rightarrow> addr \<Rightarrow> cmem \<Rightarrow> c_error + cmem" where
  "free_mem_pool E pool s =
     (if pool = 0 then Inl AssertFail
      else andThen (pool_mem_free_all E pool s) (c_free pool))"

definition pool_mem_try_alloc_data :: "c_env \<Rightarrow> addr \<Rightarrow> cmem \<Rightarrow> c_error + addr \<times> cmem" where
  "pool_mem_try_alloc_data E pool s =
     (if pool = 0 then Inl AssertFail
      else andThen (alloc_poolable_mem E pool s) (\<lambda>(node, s1).
        if node = 0 then Inr (0, s1)
        else andThen (track_pool_usage_allocs E pool s1) (\<lambda>s2.
          access sizeof_MemNode node s2 (Inr (mn_data s2 node, s2)))))"

text \<open>
  The loops of \<open>pool_mem_acquire\<close> and \<open>pool_mem_return\<close>. With no other thread the
  compare-and-exchange fails only spuriously, as its weak form may: \<open>spurious\<close> is how many
  times it does before it succeeds.
\<close>

fun acquire_loop :: "c_env \<Rightarrow> nat \<Rightarrow> addr \<Rightarrow> cmem \<Rightarrow> c_error + addr \<times> cmem" where
  "acquire_loop E spurious pool s =
     access (sizeof_MemPool E) pool s
      (let previous_head = mp_head s pool in
       if previous_head = 0 then pool_mem_try_alloc_data E pool s
       else access sizeof_MemNode previous_head s
        (let new_head = mn_next s previous_head in
         (case spurious of
            Suc k \<Rightarrow> acquire_loop E k pool s
          | 0 \<Rightarrow>
              andThen (track_pool_usage_memnode_unavailable E pool
                        (s\<lparr>mp_head := (mp_head s)(pool := new_head)\<rparr>)) (\<lambda>s1.
                access sizeof_MemNode previous_head s1 (Inr (mn_data s1 previous_head, s1))))))"

definition pool_mem_acquire :: "c_env \<Rightarrow> nat \<Rightarrow> addr \<Rightarrow> cmem \<Rightarrow> c_error + addr \<times> cmem" where
  "pool_mem_acquire E spurious pool s =
     (if pool = 0 then Inl AssertFail else acquire_loop E spurious pool s)"

fun return_loop :: "c_env \<Rightarrow> nat \<Rightarrow> addr \<Rightarrow> addr \<Rightarrow> cmem \<Rightarrow> c_error + cmem" where
  "return_loop E spurious pool new_head s =
     access (sizeof_MemPool E) pool s
      (let previous_head = mp_head s pool in
       access sizeof_MemNode new_head s
        (let s1 = s\<lparr>mn_next := (mn_next s)(new_head := previous_head)\<rparr> in
         (case spurious of
            Suc k \<Rightarrow> return_loop E k pool new_head s1
          | 0 \<Rightarrow> track_pool_usage_returned E pool
                   (s1\<lparr>mp_head := (mp_head s1)(pool := new_head)\<rparr>))))"

definition pool_mem_return :: "c_env \<Rightarrow> nat \<Rightarrow> addr \<Rightarrow> cmem \<Rightarrow> c_error + cmem" where
  "pool_mem_return E spurious data s =
     (if data = 0 then Inl AssertFail
      else andThen (get_memnode_in_data data s) (\<lambda>new_head.
        access sizeof_MemNode new_head s (return_loop E spurious (mn_pool s new_head) new_head s)))"

declare acquire_loop.simps [simp del] return_loop.simps [simp del]

section \<open>What a pool owns\<close>

text \<open>
  A pool in memory is described by its address, its free nodes from the head on, and the nodes
  whose data is out with clients. Each node owns a block for its data, whose first word points
  back to it.
\<close>

type_synonym pool_desc = "addr \<times> addr list \<times> addr list"

fun chain :: "(addr \<Rightarrow> addr) \<Rightarrow> addr \<Rightarrow> addr list \<Rightarrow> bool" where
  "chain nxt a [] \<longleftrightarrow> a = 0"
| "chain nxt a (n # ns) \<longleftrightarrow> a = n \<and> a \<noteq> 0 \<and> chain nxt (nxt a) ns"

definition data_block :: "cmem \<Rightarrow> addr \<Rightarrow> addr" where
  "data_block s n = mn_data s n - sizeof_ptrdiff_t"

definition node_rep :: "cmem \<Rightarrow> addr \<Rightarrow> addr \<Rightarrow> bool" where
  "node_rep s p n \<longleftrightarrow> blk s n = Some sizeof_MemNode \<and> mn_pool s n = p \<and>
     sizeof_ptrdiff_t < mn_data s n \<and>
     blk s (data_block s n) = Some (unat (mp_size s p) + sizeof_ptrdiff_t) \<and>
     hdr s (data_block s n) = n"

fun pool_rep :: "c_env \<Rightarrow> cmem \<Rightarrow> pool_desc \<Rightarrow> bool" where
  "pool_rep E s (p, ns, os) \<longleftrightarrow> blk s p = Some (sizeof_MemPool E) \<and> mp_size s p \<noteq> 0 \<and>
     chain (mn_next s) (mp_head s p) ns \<and> (\<forall>n \<in> set (ns @ os). node_rep s p n) \<and>
     (ce_track E \<longrightarrow> mp_avail s p = of_nat (length ns))"

definition node_blocks :: "cmem \<Rightarrow> addr list \<Rightarrow> addr list" where
  "node_blocks s ns = concat (map (\<lambda>n. [n, data_block s n]) ns)"

fun owned_by :: "cmem \<Rightarrow> pool_desc \<Rightarrow> addr list" where
  "owned_by s (p, ns, os) = p # node_blocks s ns @ node_blocks s os"

text \<open>
  All memory: the pools \<open>Ps\<close> own distinct blocks, and the blocks they do not own are those of
  \<open>B\<close>, the rest of the program.
\<close>

definition mem_ok :: "c_env \<Rightarrow> (addr \<rightharpoonup> nat) \<Rightarrow> cmem \<Rightarrow> pool_desc list \<Rightarrow> bool" where
  "mem_ok E B s Ps \<longleftrightarrow> heap_ok (blk s) \<and> (\<forall>P \<in> set Ps. pool_rep E s P) \<and>
     distinct (concat (map (owned_by s) Ps)) \<and>
     (\<forall>a. if a \<in> set (concat (map (owned_by s) Ps)) then B a = None else blk s a = B a)"

lemma node_blocks_simps [simp]:
  "node_blocks s [] = []"
  "node_blocks s (n # ns) = n # data_block s n # node_blocks s ns"
  "node_blocks s (xs @ ys) = node_blocks s xs @ node_blocks s ys"
  by (simp_all add: node_blocks_def)

lemma set_node_blocks: "set (node_blocks s ns) = set ns \<union> data_block s ` set ns"
  by (auto simp: node_blocks_def)

text \<open>Two memories that agree on what a pool owns.\<close>

definition agree :: "addr set \<Rightarrow> cmem \<Rightarrow> cmem \<Rightarrow> bool" where
  "agree A s s' \<longleftrightarrow> (\<forall>a \<in> A. blk s' a = blk s a \<and> mn_next s' a = mn_next s a \<and>
     mn_data s' a = mn_data s a \<and> mn_pool s' a = mn_pool s a \<and> hdr s' a = hdr s a \<and>
     mp_head s' a = mp_head s a \<and> mp_size s' a = mp_size s a \<and> mp_avail s' a = mp_avail s a)"

lemma chain_cong: "chain f a ns \<Longrightarrow> (\<forall>n \<in> set ns. g n = f n) \<Longrightarrow> chain g a ns"
  by (induction ns arbitrary: a) auto

lemma node_blocks_agree:
  "agree (set ns) s s' \<Longrightarrow> node_blocks s' ns = node_blocks s ns"
  by (induction ns) (auto simp: agree_def data_block_def)

lemma agree_subset: "agree A s s' \<Longrightarrow> C \<subseteq> A \<Longrightarrow> agree C s s'"
  by (auto simp: agree_def)

lemma owned_agree:
  assumes "agree (set (owned_by s P)) s s'"
  shows "owned_by s' P = owned_by s P"
proof -
  obtain p ns os where P: "P = (p, ns, os)" by (cases P)
  have "agree (set ns) s s'" "agree (set os) s s'"
    using assms by (auto simp: P set_node_blocks intro: agree_subset)
  then show ?thesis by (simp add: P node_blocks_agree)
qed

lemma node_rep_agree:
  assumes "node_rep s p n" "agree {p, n, data_block s n} s s'"
  shows "node_rep s' p n"
  using assms by (simp add: node_rep_def agree_def data_block_def)

lemma pool_rep_agree:
  assumes rep: "pool_rep E s P" and agr: "agree (set (owned_by s P)) s s'"
  shows "pool_rep E s' P"
proof -
  obtain p ns os where P: "P = (p, ns, os)" by (cases P)
  have "node_rep s' p n" if "n \<in> set (ns @ os)" for n
  proof (rule node_rep_agree)
    show "node_rep s p n" using rep that by (simp add: P)
    show "agree {p, n, data_block s n} s s'"
      using that by (intro agree_subset [OF agr]) (auto simp: P set_node_blocks)
  qed
  moreover have "chain (mn_next s') (mp_head s' p) ns"
    using rep agr chain_cong [of "mn_next s" "mp_head s p" ns "mn_next s'"]
    by (auto simp: P agree_def set_node_blocks)
  ultimately show ?thesis using rep agr by (simp add: P agree_def)
qed

section \<open>Replacing what some pools own\<close>

abbreviation owned_all :: "cmem \<Rightarrow> pool_desc list \<Rightarrow> addr list" where
  "owned_all s Ps \<equiv> concat (map (owned_by s) Ps)"

lemma pool_rep_blocks: "pool_rep E s P \<Longrightarrow> a \<in> set (owned_by s P) \<Longrightarrow> blk s a \<noteq> None"
  by (cases P) (auto simp: set_node_blocks node_rep_def)

lemma mem_ok_blocks: "mem_ok E B s Ps \<Longrightarrow> a \<in> set (owned_all s Ps) \<Longrightarrow> blk s a \<noteq> None"
  using pool_rep_blocks by (fastforce simp: mem_ok_def)

lemma owned_all_agree:
  "agree (set (owned_all s Ps)) s s' \<Longrightarrow> owned_all s' Ps = owned_all s Ps"
proof (induction Ps)
  case (Cons P Ps)
  have "agree (set (owned_by s P)) s s'" "agree (set (owned_all s Ps)) s s'"
    by (rule agree_subset [OF Cons.prems]; simp)+
  with Cons.IH owned_agree show ?case by simp
qed simp

lemma mem_ok_replace:
  assumes ok: "mem_ok E B s (As @ Ps @ Bs)"
    and heap: "heap_ok (blk s')"
    and rep: "\<forall>P \<in> set Ps'. pool_rep E s' P"
    and dist: "distinct (owned_all s' Ps')"
    and new: "\<forall>a \<in> set (owned_all s' Ps'). a \<in> set (owned_all s Ps) \<or> blk s a = None"
    and same: "agree (- set (owned_all s Ps) \<inter> {a. blk s a \<noteq> None}) s s'"
    and gone: "\<forall>a. a \<notin> set (owned_all s' Ps') \<longrightarrow>
      blk s' a = (if a \<in> set (owned_all s Ps) then None else blk s a)"
  shows "mem_ok E B s' (As @ Ps' @ Bs)"
proof -
  let ?U = "set (owned_all s Ps)" and ?U' = "set (owned_all s' Ps')"
  let ?O = "set (owned_all s (As @ Bs))"
  have dist0: "distinct (owned_all s As @ owned_all s Ps @ owned_all s Bs)"
    using ok by (simp add: mem_ok_def)
  then have disj: "?O \<inter> ?U = {}" by auto
  have live: "blk s a \<noteq> None" if "a \<in> ?O" for a
    using mem_ok_blocks [OF ok, of a] that by auto
  have agr: "agree ?O s s'"
    using disj live by (intro agree_subset [OF same]) blast
  have own: "owned_all s' As = owned_all s As" "owned_all s' Bs = owned_all s Bs"
    by (rule owned_all_agree, rule agree_subset [OF agr], simp)+
  have "pool_rep E s' P" if P: "P \<in> set (As @ Bs)" for P
  proof (rule pool_rep_agree)
    show "pool_rep E s P" using ok P by (auto simp: mem_ok_def)
    show "agree (set (owned_by s P)) s s'"
      using P by (intro agree_subset [OF agr]) auto
  qed
  moreover have disj': "?U' \<inter> ?O = {}" using new disj live by blast
  then have "distinct (owned_all s As @ owned_all s' Ps' @ owned_all s Bs)"
    using dist dist0 by auto
  moreover have "if a \<in> ?O \<union> ?U' then B a = None else blk s' a = B a" for a
  proof -
    have B: "if a \<in> ?O \<union> ?U then B a = None else blk s a = B a"
      using ok by (auto simp: mem_ok_def)
    consider "a \<in> ?O" | "a \<in> ?U'" "a \<notin> ?O" | "a \<notin> ?U'" "a \<notin> ?O" by blast
    then show ?thesis
    proof cases
      case 2
      have "B a = None"
      proof (cases "a \<in> ?U")
        case True
        with B show ?thesis by simp
      next
        case False
        then have "blk s a = None" using new 2(1) by blast
        with B False 2(2) show ?thesis by simp
      qed
      with 2 show ?thesis by simp
    next
      case 3
      with gone B show ?thesis by (auto split: if_splits)
    qed (use B in simp)
  qed
  moreover have "set (owned_all s' (As @ Ps' @ Bs)) = ?O \<union> ?U'" using own by auto
  moreover have "\<forall>P \<in> set (As @ Ps' @ Bs). pool_rep E s' P"
    using rep calculation(1) by auto
  ultimately show ?thesis
    unfolding mem_ok_def using heap own by simp
qed

text \<open>When no block is allocated or freed.\<close>

lemma mem_ok_update:
  assumes ok: "mem_ok E B s (As @ P # Bs)" and blk: "blk s' = blk s"
    and rep: "pool_rep E s' P'" and own: "mset (owned_by s' P') = mset (owned_by s P)"
    and same: "agree (- set (owned_by s P)) s s'"
  shows "mem_ok E B s' (As @ P' # Bs)"
proof -
  have set: "set (owned_by s' P') = set (owned_by s P)" using own by (rule mset_eq_setD)
  have U: "owned_all s [P] = owned_by s P" "owned_all s' [P'] = owned_by s' P'" by simp_all
  have "distinct (owned_by s P)" using ok by (simp add: mem_ok_def)
  then have dist: "distinct (owned_by s' P')" using mset_eq_imp_distinct_iff [OF own] by simp
  have "mem_ok E B s' (As @ [P'] @ Bs)"
  proof (rule mem_ok_replace [where Ps = "[P]" and s = s], unfold U set blk)
    show "mem_ok E B s (As @ [P] @ Bs)" using ok by simp
    then show "heap_ok (blk s)" by (simp add: mem_ok_def)
    show "\<forall>P \<in> set [P']. pool_rep E s' P" using rep by simp
    show "agree (- set (owned_by s P) \<inter> {a. blk s a \<noteq> None}) s s'"
      by (rule agree_subset [OF same]) simp
  qed (use dist in simp_all)
  then show ?thesis by simp
qed

lemma mem_ok_mid:
  assumes "mem_ok E B s (As @ (p, ns, os) # Bs)"
  shows "pool_rep E s (p, ns, os)" "heap_ok (blk s)" "p \<noteq> 0" "valid (sizeof_MemPool E) p s"
    "distinct (p # node_blocks s ns @ node_blocks s os)"
proof -
  show rep: "pool_rep E s (p, ns, os)" and heap: "heap_ok (blk s)"
    and "distinct (p # node_blocks s ns @ node_blocks s os)"
    using assms by (auto simp: mem_ok_def)
  have "blk s p = Some (sizeof_MemPool E)" using rep by simp
  moreover from heap_ok_pos [OF heap this] show "p \<noteq> 0" by simp
  ultimately show "valid (sizeof_MemPool E) p s" by (simp add: valid_block)
qed

lemma node_rep_valid:
  assumes "heap_ok (blk s)" "node_rep s p n"
  shows "n \<noteq> 0" "valid sizeof_MemNode n s" "valid sizeof_ptrdiff_t (data_block s n) s"
    "data_block s n \<noteq> 0"
proof -
  have b: "blk s n = Some sizeof_MemNode" "blk s (data_block s n) = Some (unat (mp_size s p) + sizeof_ptrdiff_t)"
    using assms(2) by (simp_all add: node_rep_def)
  from heap_ok_pos [OF assms(1) b(1)] heap_ok_pos [OF assms(1) b(2)]
  show "n \<noteq> 0" "data_block s n \<noteq> 0" by simp_all
  with b show "valid sizeof_MemNode n s" "valid sizeof_ptrdiff_t (data_block s n) s"
    by (simp_all add: valid_block)
qed

end
