(* ===== verification/MemPool_Correct.thy ===== *)
theory MemPool_Correct
  imports MemPool
begin

text \<open>
  Every operation of the memory pool, on a memory whose pools own what they should: what it
  returns, what it changes, and that the pools of the memory keep owning what they should. The
  pools beside the one operated on (\<open>As\<close> and \<open>Bs\<close>) and the rest of the program (\<open>B\<close>)
  are untouched.
\<close>

section \<open>Usage tracking\<close>

lemma same_avail [simp]: "s\<lparr>mp_avail := mp_avail s\<rparr> = s" "s\<lparr>mp_allocs := mp_allocs s\<rparr> = s"
  by simp_all

lemma track_eqs:
  assumes "valid (sizeof_MemPool E) p s"
  shows "track_pool_usage_returned E p s = Inr (s\<lparr>mp_avail :=
      if ce_track E then (mp_avail s)(p := mp_avail s p + 1) else mp_avail s\<rparr>)"
    "track_pool_usage_memnode_unavailable E p s = Inr (s\<lparr>mp_avail :=
      if ce_track E then (mp_avail s)(p := mp_avail s p - 1) else mp_avail s\<rparr>)"
    "track_pool_usage_allocs E p s = Inr (s\<lparr>mp_allocs :=
      if ce_track E then (mp_allocs s)(p := mp_allocs s p + 1) else mp_allocs s\<rparr>)"
  using assms
  by (simp_all add: track_pool_usage_returned_def track_pool_usage_memnode_unavailable_def
      track_pool_usage_allocs_def)

lemma valid_blk: "blk s' = blk s \<Longrightarrow> valid n a s' = valid n a s"
  by (simp add: valid_def)

lemma node_rep_cong:
  assumes "node_rep s p n" "blk s' n = blk s n" "mn_pool s' n = mn_pool s n"
    "mn_data s' n = mn_data s n" "blk s' (data_block s n) = blk s (data_block s n)"
    "hdr s' (data_block s n) = hdr s (data_block s n)" "mp_size s' p = mp_size s p"
  shows "node_rep s' p n"
  using assms by (simp add: node_rep_def data_block_def)

section \<open>Acquiring from the free list\<close>

lemma acquire_loop_pop:
  assumes "valid (sizeof_MemPool E) p s" "mp_head s p = n" "n \<noteq> 0" "valid sizeof_MemNode n s"
  shows "acquire_loop E k p s = Inr (mn_data s n, s\<lparr>mp_head := (mp_head s)(p := mn_next s n),
    mp_avail := if ce_track E then (mp_avail s)(p := mp_avail s p - 1) else mp_avail s\<rparr>)"
proof (induction k)
  case 0
  let ?s = "s\<lparr>mp_head := (mp_head s)(p := mn_next s n)\<rparr>"
  have "valid (sizeof_MemPool E) p ?s" using assms(1) by (simp add: valid_def)
  with assms track_eqs(2) [OF this] show ?case
    by (subst acquire_loop.simps) (simp add: valid_def split: option.splits)
next
  case (Suc k)
  with assms show ?case by (subst acquire_loop.simps) (simp add: fun_upd_def)
qed

lemma acquire_pop:
  assumes ok: "mem_ok E B s (As @ (p, n # ns, os) # Bs)"
  obtains s' where "pool_mem_acquire E k p s = Inr (mn_data s n, s')"
    "mem_ok E B s' (As @ (p, ns, n # os) # Bs)" "blocks s' = blocks s" "calls s' = calls s"
    "mn_data s' = mn_data s" "mu_pools s' = mu_pools s" "mp_size s' = mp_size s"
    "mp_allocs s' = mp_allocs s" "mn_pool s' = mn_pool s"
proof -
  note m = mem_ok_mid [OF ok]
  let ?s' = "s\<lparr>mp_head := (mp_head s)(p := mn_next s n),
    mp_avail := if ce_track E then (mp_avail s)(p := mp_avail s p - 1) else mp_avail s\<rparr>"
  from m(1) have head: "mp_head s p = n" "n \<noteq> 0" and nrep: "node_rep s p n" by simp_all
  note nv = node_rep_valid [OF m(2) nrep]
  have run: "pool_mem_acquire E k p s = Inr (mn_data s n, ?s')"
    using m(3) acquire_loop_pop [OF m(4) head nv(2)] by (simp add: pool_mem_acquire_def)
  have "pool_rep E ?s' (p, ns, n # os)"
    using m(1) by (auto simp: node_rep_def data_block_def)
  moreover have own: "mset (owned_by ?s' (p, ns, n # os)) = mset (owned_by s (p, n # ns, os))"
    by (simp add: node_blocks_def data_block_def)
  moreover have "agree (- set (owned_by s (p, n # ns, os))) s ?s'"
    by (simp add: agree_def)
  ultimately have "mem_ok E B ?s' (As @ (p, ns, n # os) # Bs)"
    by (intro mem_ok_update [OF ok]) simp_all
  with run show ?thesis by (intro that [of ?s']) simp_all
qed

section \<open>Returning\<close>

lemma return_loop_push:
  assumes "valid (sizeof_MemPool E) p s" "valid sizeof_MemNode n s"
  shows "return_loop E k p n s = Inr (s\<lparr>mn_next := (mn_next s)(n := mp_head s p),
    mp_head := (mp_head s)(p := n),
    mp_avail := if ce_track E then (mp_avail s)(p := mp_avail s p + 1) else mp_avail s\<rparr>)"
  using assms
proof (induction k arbitrary: s)
  case 0
  let ?s = "s\<lparr>mn_next := (mn_next s)(n := mp_head s p), mp_head := (mp_head s)(p := n)\<rparr>"
  have "valid (sizeof_MemPool E) p ?s" using "0" by (simp add: valid_def)
  with "0" track_eqs(1) [OF this] show ?case by (subst return_loop.simps) simp
next
  case (Suc k)
  let ?s = "s\<lparr>mn_next := (mn_next s)(n := mp_head s p)\<rparr>"
  have "valid (sizeof_MemPool E) p ?s" "valid sizeof_MemNode n ?s"
    using Suc.prems by (simp_all add: valid_def)
  from Suc.IH [OF this] Suc.prems show ?case by (subst return_loop.simps) (simp add: fun_upd_def cong: if_cong)
qed

text \<open>The word in front of the data leads back to the node.\<close>

lemma get_memnode_ok:
  assumes "heap_ok (blk s)" "node_rep s p n"
  shows "get_memnode_in_data (mn_data s n) s = Inr n"
  using assms node_rep_valid [OF assms]
  by (simp add: get_memnode_in_data_def node_rep_def data_block_def)

lemma return_push:
  assumes ok: "mem_ok E B s (As @ (p, ns, xs @ n # ys) # Bs)"
  obtains s' where "pool_mem_return E k (mn_data s n) s = Inr s'"
    "mem_ok E B s' (As @ (p, n # ns, xs @ ys) # Bs)" "blocks s' = blocks s" "calls s' = calls s"
    "mn_data s' = mn_data s" "mu_pools s' = mu_pools s" "mp_size s' = mp_size s"
    "mp_allocs s' = mp_allocs s" "mn_pool s' = mn_pool s"
proof -
  note m = mem_ok_mid [OF ok]
  let ?s' = "s\<lparr>mn_next := (mn_next s)(n := mp_head s p), mp_head := (mp_head s)(p := n),
    mp_avail := if ce_track E then (mp_avail s)(p := mp_avail s p + 1) else mp_avail s\<rparr>"
  from m(1) have nrep: "node_rep s p n" by simp
  note nv = node_rep_valid [OF m(2) nrep]
  have d: "mn_data s n \<noteq> 0" "mn_pool s n = p" using nrep by (simp_all add: node_rep_def)
  have run: "pool_mem_return E k (mn_data s n) s = Inr ?s'"
    using d nv(2) return_loop_push [OF m(4) nv(2)] get_memnode_ok [OF m(2) nrep]
    by (simp add: pool_mem_return_def)
  have "n \<notin> set ns" using m(5) by (auto simp: set_node_blocks)
  then have "chain ((mn_next s)(n := mp_head s p)) (mp_head s p) ns"
    using m(1) by (auto intro: chain_cong)
  then have "pool_rep E ?s' (p, n # ns, xs @ ys)"
    using m(1) nv(1) by (auto simp: node_rep_def data_block_def add.commute)
  moreover have own: "mset (owned_by ?s' (p, n # ns, xs @ ys)) = mset (owned_by s (p, ns, xs @ n # ys))"
    by (simp add: node_blocks_def data_block_def)
  moreover have "agree (- set (owned_by s (p, ns, xs @ n # ys))) s ?s'"
    by (simp add: agree_def)
  ultimately have "mem_ok E B ?s' (As @ (p, n # ns, xs @ ys) # Bs)"
    by (intro mem_ok_update [OF ok]) simp_all
  with run show ?thesis by (intro that [of ?s']) simp_all
qed

section \<open>Acquiring by allocation\<close>

abbreviation live_blocks :: "cmem \<Rightarrow> addr set" where
  "live_blocks s \<equiv> {a. blk s a \<noteq> None}"

text \<open>Memory that only changed outside the live blocks.\<close>

lemma mem_ok_agree:
  assumes ok: "mem_ok E B s Ps" and blk: "blk s' = blk s" and same: "agree (live_blocks s) s s'"
  shows "mem_ok E B s' Ps"
proof -
  have "mem_ok E B s' (Ps @ [] @ [])"
  proof (rule mem_ok_replace [where Ps = "[]" and s = s])
    show "heap_ok (blk s')" using ok blk by (simp add: mem_ok_def)
    show "agree (- set (owned_all s []) \<inter> live_blocks s) s s'" using same by simp
  qed (use ok blk in simp_all)
  then show ?thesis by simp
qed

lemma agree_trans: "agree A s s1 \<Longrightarrow> agree A s1 s2 \<Longrightarrow> agree A s s2"
  by (simp add: agree_def)

text \<open>The pool and the memory after a successful allocation of node \<open>n\<close> and block \<open>d\<close>.\<close>

definition fresh_node :: "c_env \<Rightarrow> addr \<Rightarrow> addr \<Rightarrow> addr \<Rightarrow> cmem \<Rightarrow> cmem" where
  "fresh_node E p n d s =
     s\<lparr>calls := Suc (Suc (calls s)),
       blocks := (d, unat (mp_size s p) + sizeof_ptrdiff_t) # (n, sizeof_MemNode) # blocks s,
       mn_next := (mn_next s)(n := 0), hdr := (hdr s)(d := n),
       mn_data := (mn_data s)(n := d + sizeof_ptrdiff_t), mn_pool := (mn_pool s)(n := p)\<rparr>"

lemma alloc_poolable_cases:
  assumes E: "malloc_ok E" and heap: "heap_ok (blk s)" and p: "p \<noteq> 0"
    "valid (sizeof_MemPool E) p s" "mp_size s p \<noteq> 0"
  obtains (null) s' where "alloc_poolable_mem E p s = Inr (0, s')" "blk s' = blk s"
    "agree (live_blocks s) s s'" "mp_allocs s' = mp_allocs s" "mu_pools s' = mu_pools s"
  | (fresh) n d where "alloc_poolable_mem E p s = Inr (n, fresh_node E p n d s)"
    "n \<noteq> 0" "d \<noteq> 0" "n \<noteq> d" "blk s n = None" "blk s d = None"
    "heap_ok (blk (fresh_node E p n d s))"
proof -
  have z: "0 < sizeof_MemNode" "0 < unat (mp_size s p) + sizeof_ptrdiff_t"
    by (simp_all add: sizeof_MemNode_def sizeof_ptrdiff_t_def)
  from E heap z(1) show ?thesis
  proof (cases rule: c_malloc_cases)
    case null
    then show ?thesis
      using p that(1) [of "s\<lparr>calls := Suc (calls s)\<rparr>"]
      by (simp add: alloc_poolable_mem_def agree_def)
  next
    case (block n)
    let ?s1 = "s\<lparr>calls := Suc (calls s)\<rparr>\<lparr>blocks := (n, sizeof_MemNode) # blocks s\<rparr>"
    let ?s2 = "?s1\<lparr>mn_next := (mn_next ?s1)(n := 0)\<rparr>"
    have blk2: "blk ?s2 = (blk s)(n \<mapsto> sizeof_MemNode)" by (simp add: blk_def)
    have v1: "valid sizeof_MemNode n ?s1" using block(2) by (simp add: valid_def blk_def)
    have heap2: "heap_ok (blk ?s2)" using block(4) blk2 by simp
    from E heap2 z(2) show ?thesis
    proof (cases rule: c_malloc_cases)
      case null
      let ?s3 = "?s2\<lparr>calls := Suc (calls ?s2)\<rparr>"
      let ?s4 = "?s3\<lparr>blocks := AList.delete n (blocks ?s3)\<rparr>"
      have "blk ?s3 n = Some sizeof_MemNode" by (simp add: blk_def)
      then have "c_free n ?s3 = Inr ?s4" using block(2) by (simp add: c_free_def)
      then have run: "alloc_poolable_mem E p s = Inr (0, ?s4)"
        using p block v1 null by (simp add: alloc_poolable_mem_def Let_def)
      have b4: "blk ?s4 = blk s" using block(3) by (auto simp: blk_def delete_conv' fun_eq_iff)
      moreover have "agree (live_blocks s) s ?s4"
        using b4 block(3) by (auto simp: agree_def)
      ultimately show ?thesis using that(1) [OF run] by simp
    next
      case (block d)
      let ?s3 = "?s2\<lparr>calls := Suc (calls ?s2)\<rparr>\<lparr>blocks := (d, unat (mp_size s p) + sizeof_ptrdiff_t) # blocks ?s2\<rparr>"
      have v3: "valid sizeof_ptrdiff_t d ?s3" using block(2) by (simp add: valid_def blk_def)
      have ne: "n \<noteq> d" "blk s d = None" using block(3) blk2 by (auto split: if_splits)
      have eq: "?s3\<lparr>hdr := (hdr ?s3)(d := n), mn_data := (mn_data ?s3)(n := d + sizeof_ptrdiff_t),
          mn_pool := (mn_pool ?s3)(n := p)\<rparr> = fresh_node E p n d s"
        by (simp add: fresh_node_def)
      have "alloc_poolable_mem E p s = Inr (n, fresh_node E p n d s)"
        using p \<open>c_malloc E sizeof_MemNode s = _\<close> \<open>0 < n\<close> v1 block(1,2) v3 eq
        by (simp add: alloc_poolable_mem_def Let_def)
      moreover have "blk (fresh_node E p n d s) = (blk ?s2)(d \<mapsto> unat (mp_size s p) + sizeof_ptrdiff_t)"
        by (simp add: blk_def fresh_node_def)
      ultimately show ?thesis
        using that(2) [of n d] \<open>0 < n\<close> \<open>blk s n = None\<close> block(2,4) ne by simp
    qed
  qed
qed

lemma fresh_node_blk:
  "blk (fresh_node E p n d s) = (blk s)(n \<mapsto> sizeof_MemNode, d \<mapsto> unat (mp_size s p) + sizeof_ptrdiff_t)"
  by (simp add: fresh_node_def blk_def)

lemma fresh_node_agree:
  "blk s n = None \<Longrightarrow> blk s d = None \<Longrightarrow> agree (live_blocks s) s (fresh_node E p n d s)"
  by (auto simp: agree_def fresh_node_blk) (auto simp: fresh_node_def)

lemma fresh_node_owned:
  assumes ok: "mem_ok E B s (As @ (p, ns, os) # Bs)" and new: "blk s n = None" "blk s d = None"
    and agr: "agree (live_blocks s) s s'" and d: "data_block s' n = d"
  shows "owned_by s' (p, ns, n # os) = p # node_blocks s ns @ n # d # node_blocks s os"
    "n \<notin> set (owned_by s (p, ns, os))" "d \<notin> set (owned_by s (p, ns, os))"
proof -
  have live: "blk s a \<noteq> None" if "a \<in> set (owned_by s (p, ns, os))" for a
    using pool_rep_blocks [OF mem_ok_mid(1) [OF ok] that] .
  with new show "n \<notin> set (owned_by s (p, ns, os))" "d \<notin> set (owned_by s (p, ns, os))" by blast+
  have "agree (set (owned_by s (p, ns, os))) s s'"
    using live by (intro agree_subset [OF agr]) blast
  then have "owned_by s' (p, ns, os) = owned_by s (p, ns, os)" by (rule owned_agree)
  moreover have "length (node_blocks s' xs) = length (node_blocks s xs)" for xs
    by (induction xs) simp_all
  ultimately show "owned_by s' (p, ns, n # os) = p # node_blocks s ns @ n # d # node_blocks s os"
    using d by simp
qed

lemma fresh_node_mem_ok:
  assumes ok: "mem_ok E B s (As @ (p, ns, os) # Bs)"
    and n: "n \<noteq> 0" "d \<noteq> 0" "n \<noteq> d" "blk s n = None" "blk s d = None"
    and heap: "heap_ok (blk (fresh_node E p n d s))"
  shows "mem_ok E B (fresh_node E p n d s) (As @ (p, ns, n # os) # Bs)"
proof -
  let ?s = "fresh_node E p n d s"
  note m = mem_ok_mid [OF ok] and agr = fresh_node_agree [OF n(4,5), of E p]
  have db: "data_block ?s n = d" by (simp add: data_block_def fresh_node_def)
  note own = fresh_node_owned [OF ok n(4,5) agr db]
  have "agree (set (owned_by s (p, ns, os))) s ?s"
    using pool_rep_blocks [OF m(1)] by (intro agree_subset [OF agr]) blast
  from pool_rep_agree [OF m(1) this] have old: "pool_rep E ?s (p, ns, os)" .
  have "mp_size ?s p = mp_size s p" by (simp add: fresh_node_def)
  moreover have "mn_data ?s n = d + sizeof_ptrdiff_t" "mn_pool ?s n = p" "hdr ?s d = n"
    by (simp_all add: fresh_node_def)
  ultimately have "node_rep ?s p n"
    using n by (simp add: node_rep_def db fresh_node_blk)
  with old have rep: "pool_rep E ?s (p, ns, n # os)" by simp
  have U: "owned_all ?s [(p, ns, n # os)] = p # node_blocks s ns @ n # d # node_blocks s os"
    "owned_all s [(p, ns, os)] = owned_by s (p, ns, os)"
    by (simp only: list.map concat.simps append_Nil2 own(1)) simp
  have "mem_ok E B ?s (As @ [(p, ns, n # os)] @ Bs)"
  proof (rule mem_ok_replace [where Ps = "[(p, ns, os)]" and s = s], unfold U)
    show "mem_ok E B s (As @ [(p, ns, os)] @ Bs)" using ok by simp
    show "heap_ok (blk ?s)" by (rule heap)
    show "\<forall>P \<in> set [(p, ns, n # os)]. pool_rep E ?s P" using rep by simp
    show "distinct (p # node_blocks s ns @ n # d # node_blocks s os)"
      using m(5) own(2,3) n(3) by auto
    show "\<forall>a \<in> set (p # node_blocks s ns @ n # d # node_blocks s os).
        a \<in> set (owned_by s (p, ns, os)) \<or> blk s a = None"
      using n(4,5) by auto
    show "agree (- set (owned_by s (p, ns, os)) \<inter> live_blocks s) s ?s"
      by (rule agree_subset [OF agr]) simp
    show "\<forall>a. a \<notin> set (p # node_blocks s ns @ n # d # node_blocks s os) \<longrightarrow>
        blk ?s a = (if a \<in> set (owned_by s (p, ns, os)) then None else blk s a)"
      by (simp add: fresh_node_blk)
  qed
  then show ?thesis by simp
qed

lemma try_alloc:
  assumes E: "malloc_ok E" and ok: "mem_ok E B s (As @ (p, ns, os) # Bs)"
  obtains (null) s' where "pool_mem_try_alloc_data E p s = Inr (0, s')"
    "mem_ok E B s' (As @ (p, ns, os) # Bs)" "blk s' = blk s" "agree (live_blocks s) s s'"
    "mp_allocs s' = mp_allocs s" "mu_pools s' = mu_pools s"
  | (fresh) n s' where "pool_mem_try_alloc_data E p s = Inr (mn_data s' n, s')" "mn_data s' n \<noteq> 0"
    "mem_ok E B s' (As @ (p, ns, n # os) # Bs)" "blk s n = None" "agree (live_blocks s) s s'"
    "mp_allocs s' p = (if ce_track E then mp_allocs s p + 1 else mp_allocs s p)"
    "mu_pools s' = mu_pools s"
proof -
  note m = mem_ok_mid [OF ok]
  have sz: "mp_size s p \<noteq> 0" using m(1) by simp
  from E m(2,3,4) sz show ?thesis
  proof (cases rule: alloc_poolable_cases)
    case (null s')
    then show ?thesis
      using that(1) [of s'] m(3) mem_ok_agree [OF ok null(2,3)]
      by (simp add: pool_mem_try_alloc_data_def)
  next
    case (fresh n d)
    let ?s = "fresh_node E p n d s"
    let ?s' = "?s\<lparr>mp_allocs := if ce_track E then (mp_allocs ?s)(p := mp_allocs ?s p + 1) else mp_allocs ?s\<rparr>"
    note ok1 = fresh_node_mem_ok [OF ok fresh(2-7)]
    note m1 = mem_ok_mid [OF ok1]
    have nrep: "node_rep ?s p n" using m1(1) by simp
    have v: "valid sizeof_MemNode n ?s'"
      using node_rep_valid(2) [OF m1(2) nrep] by (simp add: valid_def)
    have "pool_mem_try_alloc_data E p s = Inr (mn_data ?s' n, ?s')"
      using m(3) fresh(1,2) track_eqs(3) [OF m1(4)] v by (simp add: pool_mem_try_alloc_data_def)
    moreover have "mem_ok E B ?s' (As @ (p, ns, n # os) # Bs)"
      by (rule mem_ok_agree [OF ok1]) (simp_all add: agree_def)
    moreover have "agree (live_blocks s) s ?s'"
      using fresh_node_agree [OF fresh(5,6), of E p] by (simp add: agree_def)
    moreover have "mn_data ?s' n \<noteq> 0" using nrep by (simp add: node_rep_def)
    ultimately show ?thesis
      using that(2) [of ?s' n] fresh(5) by (simp add: fresh_node_def)
  qed
qed

lemma acquire_alloc:
  assumes E: "malloc_ok E" and ok: "mem_ok E B s (As @ (p, [], os) # Bs)"
  obtains (null) s' where "pool_mem_acquire E k p s = Inr (0, s')"
    "mem_ok E B s' (As @ (p, [], os) # Bs)" "blk s' = blk s" "agree (live_blocks s) s s'"
    "mp_allocs s' = mp_allocs s" "mu_pools s' = mu_pools s"
  | (fresh) n s' where "pool_mem_acquire E k p s = Inr (mn_data s' n, s')" "mn_data s' n \<noteq> 0"
    "mem_ok E B s' (As @ (p, [], n # os) # Bs)" "blk s n = None" "agree (live_blocks s) s s'"
    "mp_allocs s' p = (if ce_track E then mp_allocs s p + 1 else mp_allocs s p)"
    "mu_pools s' = mu_pools s"
proof -
  note m = mem_ok_mid [OF ok]
  have "mp_head s p = 0" using m(1) by simp
  then have run: "pool_mem_acquire E k p s = pool_mem_try_alloc_data E p s"
    using m(3,4) by (subst pool_mem_acquire_def, subst acquire_loop.simps) simp
  from E ok show ?thesis
  proof (cases rule: try_alloc)
    case (null s')
    then show ?thesis using that(1) [of s'] run by simp
  next
    case (fresh n s')
    then show ?thesis using that(2) [of s' n] run by simp
  qed
qed

section \<open>Creating a pool\<close>

lemma create_pool:
  assumes E: "malloc_ok E" and ok: "mem_ok E B s Ps" and sz: "sz \<noteq> 0"
  obtains (null) s' where "alloc_mem_pool E sz s = (0, s')" "mem_ok E B s' Ps" "blk s' = blk s"
    "agree (live_blocks s) s s'" "mu_pools s' = mu_pools s" "mn_data s' = mn_data s"
  | (pool) p s' where "alloc_mem_pool E sz s = (p, s')" "p \<noteq> 0" "blk s p = None"
    "mem_ok E B s' (Ps @ [(p, [], [])])" "mp_size s' p = sz"
    "agree (live_blocks s) s s'" "mu_pools s' = mu_pools s" "mn_data s' = mn_data s"
proof -
  have heap: "heap_ok (blk s)" using ok by (simp add: mem_ok_def)
  have z: "0 < sizeof_MemPool E" by (simp add: sizeof_MemPool_def)
  from E heap z show ?thesis
  proof (cases rule: c_malloc_cases)
    case null
    then show ?thesis
      using that(1) [of "s\<lparr>calls := Suc (calls s)\<rparr>"] mem_ok_agree [OF ok, of "s\<lparr>calls := Suc (calls s)\<rparr>"]
      by (simp add: alloc_mem_pool_def agree_def)
  next
    case (block p)
    define s' where "s' = s\<lparr>calls := Suc (calls s), blocks := (p, sizeof_MemPool E) # blocks s,
      mp_head := (mp_head s)(p := 0), mp_size := (mp_size s)(p := sz),
      mp_allocs := (mp_allocs s)(p := 0), mp_avail := (mp_avail s)(p := 0)\<rparr>"
    have run: "alloc_mem_pool E sz s = (p, s')"
      using block(1,2) by (simp add: alloc_mem_pool_def Let_def s'_def)
    have blk': "blk s' = (blk s)(p \<mapsto> sizeof_MemPool E)" by (simp add: s'_def blk_def)
    have agr: "agree (live_blocks s) s s'"
      using block(3) by (auto simp: agree_def blk') (auto simp: s'_def)
    have rep: "pool_rep E s' (p, [], [])" using sz by (simp add: blk') (simp add: s'_def)
    have "mem_ok E B s' (Ps @ [(p, [], [])] @ [])"
    proof (rule mem_ok_replace [where Ps = "[]" and s = s])
      show "mem_ok E B s (Ps @ [] @ [])" using ok by simp
      show "heap_ok (blk s')" using block(4) blk' by simp
      show "\<forall>P \<in> set [(p, [], [])]. pool_rep E s' P" using rep by simp
      show "agree (- set (owned_all s []) \<inter> live_blocks s) s s'" using agr by simp
    qed (use block(3) blk' in simp_all)
    then show ?thesis
      using that(2) [OF run] block(2,3) agr by (simp add: s'_def)
  qed
qed

section \<open>Freeing the nodes of a pool\<close>

definition freed_node :: "c_env \<Rightarrow> addr \<Rightarrow> addr \<Rightarrow> cmem \<Rightarrow> cmem \<Rightarrow> bool" where
  "freed_node E p n s s' \<longleftrightarrow> blk s' = (blk s)(data_block s n := None, n := None) \<and>
    mn_next s' = mn_next s \<and> mn_data s' = mn_data s \<and> mn_pool s' = mn_pool s \<and>
    hdr s' = hdr s \<and> mp_size s' = mp_size s \<and> mu_pools s' = mu_pools s \<and> calls s' = calls s \<and>
    mp_allocs s' = mp_allocs s \<and> mp_head s' = (mp_head s)(p := mn_next s n) \<and>
    mp_avail s' = (if ce_track E then (mp_avail s)(p := mp_avail s p - 1) else mp_avail s)"

lemma free_step_run:
  assumes ok: "mem_ok E B s (As @ (p, n # ns, os) # Bs)"
  obtains s' where "free_all_step E p n s = Inr s'" "freed_node E p n s s'"
proof -
  note m = mem_ok_mid [OF ok]
  let ?d = "data_block s n"
  from m(1) have nrep: "node_rep s p n" by simp
  note nv = node_rep_valid [OF m(2) nrep]
  define s1 where "s1 = s\<lparr>mp_head := (mp_head s)(p := mn_next s n)\<rparr>"
  define s2 where "s2 = s1\<lparr>blocks := AList.delete ?d (blocks s1)\<rparr>"
  define s3 where "s3 = s2\<lparr>blocks := AList.delete n (blocks s2)\<rparr>"
  define s' where "s' = s3\<lparr>mp_avail :=
    if ce_track E then (mp_avail s3)(p := mp_avail s3 p - 1) else mp_avail s3\<rparr>"
  have ne: "n \<noteq> ?d" "p \<noteq> n" "p \<noteq> ?d" using m(5) by auto
  have b1: "blk s1 = blk s" by (simp add: s1_def)
  have b2: "blk s2 = (blk s)(?d := None)" using b1 by (simp add: s2_def)
  have b3: "blk s3 = (blk s)(?d := None, n := None)" using b2 by (simp add: s3_def)
  have bl': "blk s' = (blk s)(?d := None, n := None)" using b3 by (simp add: s'_def)
  have "c_free ?d s1 = Inr s2"
    using nrep nv(4) b1 by (simp add: c_free_def s2_def node_rep_def)
  moreover have "c_free n s2 = Inr s3"
    using nrep nv(1) b2 ne by (simp add: c_free_def s3_def node_rep_def)
  moreover have "valid sizeof_MemNode n s1" using nv(2) b1 by (simp add: valid_def)
  ultimately have "free_poolable_mem n s1 = Inr s3"
    using nrep nv(1) by (simp add: free_poolable_mem_def Let_def node_rep_def s1_def data_block_def)
  moreover have "valid (sizeof_MemPool E) p s3" using m(4) b3 ne by (simp add: valid_def)
  ultimately have run: "free_all_step E p n s = Inr s'"
    using nv(2) m(4) track_eqs(2) [of E p s3] by (simp add: free_all_step_def s1_def s'_def)
  have "freed_node E p n s s'" using bl' by (simp add: freed_node_def s'_def s3_def s2_def s1_def)
  with that run show ?thesis by blast
qed

lemma free_step:
  assumes ok: "mem_ok E B s (As @ (p, n # ns, os) # Bs)"
  obtains s' where "free_all_step E p n s = Inr s'" "mem_ok E B s' (As @ (p, ns, os) # Bs)"
    "mn_data s' = mn_data s" "mu_pools s' = mu_pools s" "calls s' = calls s" "mp_size s' = mp_size s"
proof -
  note m = mem_ok_mid [OF ok]
  let ?d = "data_block s n"
  have ne: "p \<noteq> n" "p \<noteq> ?d" using m(5) by auto
  obtain s' where run: "free_all_step E p n s = Inr s'" and freed: "freed_node E p n s s'"
    by (rule free_step_run [OF ok])
  note fields = freed [unfolded freed_node_def]
  have bl': "blk s' = (blk s)(?d := None, n := None)" using fields by blast
  have nb: "node_blocks s' xs = node_blocks s xs" for xs
    by (simp add: node_blocks_def data_block_def fields)
  have dist: "n \<notin> set (node_blocks s ns @ node_blocks s os)"
    "?d \<notin> set (node_blocks s ns @ node_blocks s os)" using m(5) by auto
  have "node_rep s' p k" if k: "k \<in> set (ns @ os)" for k
  proof (rule node_rep_cong)
    show "node_rep s p k" using m(1) k by auto
    have "k \<in> set (node_blocks s ns @ node_blocks s os)"
      "data_block s k \<in> set (node_blocks s ns @ node_blocks s os)"
      using k by (auto simp: set_node_blocks)
    with dist have "k \<noteq> n" "k \<noteq> ?d" "data_block s k \<noteq> n" "data_block s k \<noteq> ?d" by metis+
    then show "blk s' k = blk s k" "blk s' (data_block s k) = blk s (data_block s k)"
      by (simp_all add: bl')
  qed (simp_all add: fields)
  then have rep: "pool_rep E s' (p, ns, os)"
    using m(1) ne by (auto simp: bl' fields)
  have "mem_ok E B s' (As @ [(p, ns, os)] @ Bs)"
  proof (rule mem_ok_replace [where Ps = "[(p, n # ns, os)]" and s = s])
    show "mem_ok E B s (As @ [(p, n # ns, os)] @ Bs)" using ok by simp
    show "heap_ok (blk s')" unfolding bl' by (intro heap_ok_free m(2))
    show "\<forall>P \<in> set [(p, ns, os)]. pool_rep E s' P" using rep by simp
    show "distinct (owned_all s' [(p, ns, os)])" using m(5) by (simp add: nb)
    show "agree (- set (owned_all s [(p, n # ns, os)]) \<inter> live_blocks s) s s'"
      by (simp add: agree_def fields bl')
    show "\<forall>a. a \<notin> set (owned_all s' [(p, ns, os)]) \<longrightarrow>
        blk s' a = (if a \<in> set (owned_all s [(p, n # ns, os)]) then None else blk s a)"
      by (auto simp: nb bl')
  qed (auto simp: nb)
  then show ?thesis using that [OF run] fields by simp
qed

lemma free_all_run:
  "mem_ok E B s (As @ (p, ns, os) # Bs) \<Longrightarrow>
    \<exists>s'. free_all_loop E p (mp_head s p) s = Some (Inr s') \<and>
      mem_ok E B s' (As @ (p, [], os) # Bs) \<and> mn_data s' = mn_data s \<and> mu_pools s' = mu_pools s \<and>
      mp_size s' = mp_size s"
proof (induction ns arbitrary: s)
  case Nil
  then have "mp_head s p = 0" using mem_ok_mid(1) by fastforce
  with Nil show ?case by (auto simp: free_all_loop.simps)
next
  case (Cons n ns)
  note m = mem_ok_mid [OF Cons.prems]
  from m(1) have head: "mp_head s p = n" "n \<noteq> 0" by simp_all
  from free_step [OF Cons.prems] obtain s1 where s1: "free_all_step E p n s = Inr s1"
    "mem_ok E B s1 (As @ (p, ns, os) # Bs)" "mn_data s1 = mn_data s" "mu_pools s1 = mu_pools s"
    "mp_size s1 = mp_size s" by blast
  have "free_all_loop E p n s = free_all_loop E p (mp_head s1 p) s1"
    using s1(1) mem_ok_mid(4) [OF s1(2)] head(2) by (subst free_all_loop.simps) simp
  with Cons.IH [OF s1(2)] s1(3-5) head show ?case by simp
qed

lemma free_all_ok:
  assumes ok: "mem_ok E B s (As @ (p, ns, os) # Bs)"
  obtains s' where "pool_mem_free_all E p s = Inr s'" "mem_ok E B s' (As @ (p, [], os) # Bs)"
    "mn_data s' = mn_data s" "mu_pools s' = mu_pools s" "mp_size s' = mp_size s"
proof -
  note m = mem_ok_mid [OF ok]
  from free_all_run [OF ok] obtain s' where
    s': "free_all_loop E p (mp_head s p) s = Some (Inr s')" "mem_ok E B s' (As @ (p, [], os) # Bs)"
    "mn_data s' = mn_data s" "mu_pools s' = mu_pools s" "mp_size s' = mp_size s" by blast
  have "pool_mem_free_all E p s = Inr s'"
    using m(3,4) s'(1) by (simp add: pool_mem_free_all_def)
  with s' that show ?thesis by blast
qed

lemma free_pool_ok:
  assumes ok: "mem_ok E B s (As @ (p, ns, []) # Bs)"
  obtains s' where "free_mem_pool E p s = Inr s'" "mem_ok E B s' (As @ Bs)"
    "mn_data s' = mn_data s" "mu_pools s' = mu_pools s"
proof -
  from free_all_ok [OF ok] obtain s1 where s1: "pool_mem_free_all E p s = Inr s1"
    "mem_ok E B s1 (As @ (p, [], []) # Bs)" "mn_data s1 = mn_data s" "mu_pools s1 = mu_pools s" .
  note m = mem_ok_mid [OF s1(2)]
  let ?s' = "s1\<lparr>blocks := AList.delete p (blocks s1)\<rparr>"
  have "c_free p s1 = Inr ?s'" using m(1,3) by (simp add: c_free_def)
  then have run: "free_mem_pool E p s = Inr ?s'" using m(3) s1(1) by (simp add: free_mem_pool_def)
  have "mem_ok E B ?s' (As @ [] @ Bs)"
  proof (rule mem_ok_replace [where Ps = "[(p, [], [])]" and s = s1])
    show "mem_ok E B s1 (As @ [(p, [], [])] @ Bs)" using s1(2) by simp
    show "heap_ok (blk ?s')" using heap_ok_free [OF m(2)] by simp
    show "agree (- set (owned_all s1 [(p, [], [])]) \<inter> live_blocks s1) s1 ?s'"
      by (simp add: agree_def)
  qed simp_all
  with run s1(3,4) show ?thesis by (intro that [of ?s']) simp_all
qed

section \<open>Clients\<close>

text \<open>
  A client holds the data pointers it was given. It acquires (with some number of spurious
  exchange failures) and returns the \<open>j\<close>-th pointer it holds.
\<close>

datatype mp_call = Acquire nat | Release nat nat

fun mp_run :: "c_env \<Rightarrow> addr \<Rightarrow> mp_call list \<Rightarrow> cmem \<Rightarrow> addr list \<Rightarrow> c_error + cmem \<times> addr list" where
  "mp_run E p [] s held = Inr (s, held)"
| "mp_run E p (Acquire k # cs) s held =
     andThen (pool_mem_acquire E k p s) (\<lambda>(d, s').
       mp_run E p cs s' (if d = 0 then held else d # held))"
| "mp_run E p (Release j k # cs) s held =
     (if j < length held
      then andThen (pool_mem_return E k (held ! j) s) (\<lambda>s'.
        mp_run E p cs s' (take j held @ drop (Suc j) held))
      else mp_run E p cs s held)"

fun return_all :: "c_env \<Rightarrow> addr list \<Rightarrow> cmem \<Rightarrow> c_error + cmem" where
  "return_all E [] s = Inr s"
| "return_all E (d # ds) s = andThen (pool_mem_return E 0 d s) (return_all E ds)"

lemma data_pointer:
  assumes "mem_ok E B s (As @ (p, ns, os) # Bs)" "n \<in> set (ns @ os)"
  shows "mn_data s n = data_block s n + sizeof_ptrdiff_t" "mn_data s n \<noteq> 0"
    "blk s (data_block s n) = Some (unat (mp_size s p) + sizeof_ptrdiff_t)"
proof -
  have "node_rep s p n" using mem_ok_mid(1) [OF assms(1)] assms(2) by simp
  then show "mn_data s n = data_block s n + sizeof_ptrdiff_t" "mn_data s n \<noteq> 0"
    "blk s (data_block s n) = Some (unat (mp_size s p) + sizeof_ptrdiff_t)"
    by (simp_all add: node_rep_def data_block_def)
qed

lemma live_node:
  "mem_ok E B s (As @ (p, ns, os) # Bs) \<Longrightarrow> n \<in> set (ns @ os) \<Longrightarrow> n \<in> live_blocks s"
  using mem_ok_mid(1) by (fastforce simp: node_rep_def)

lemma data_agree:
  assumes ok: "mem_ok E B s (As @ (p, ns, os) # Bs)" and agr: "agree (live_blocks s) s s'"
  shows "map (mn_data s') os = map (mn_data s) os"
  using live_node [OF ok] agr by (auto simp: agree_def)

lemma size_agree:
  assumes ok: "mem_ok E B s (As @ (p, ns, os) # Bs)" and agr: "agree (live_blocks s) s s'"
  shows "mp_size s' p = mp_size s p"
proof -
  have "blk s p \<noteq> None" using mem_ok_mid(1) [OF ok] by simp
  with agr show ?thesis by (simp add: agree_def)
qed

lemma mp_run_ok:
  assumes E: "malloc_ok E"
  shows "mem_ok E B s [(p, ns, os)] \<Longrightarrow> \<exists>s' ns' os'.
    mp_run E p cs s (map (mn_data s) os) = Inr (s', map (mn_data s') os') \<and>
    mem_ok E B s' [(p, ns', os')] \<and> mp_size s' p = mp_size s p \<and>
    (ce_track E \<longrightarrow> mp_allocs s' p + of_nat (length ns + length os) =
       mp_allocs s p + of_nat (length ns' + length os'))"
proof (induction cs arbitrary: s ns os)
  case Nil
  then show ?case by auto
next
  case (Cons c cs)
  note ok = Cons.prems and IH = Cons.IH
  show ?case
  proof (cases c)
    case (Acquire k)
    show ?thesis
    proof (cases ns)
      case (Cons n ns1)
      from acquire_pop [of E B s "[]" p n ns1 os "[]" k] ok Cons obtain s' where
        s': "pool_mem_acquire E k p s = Inr (mn_data s n, s')" "mem_ok E B s' [(p, ns1, n # os)]"
        "mn_data s' = mn_data s" "mp_size s' = mp_size s" "mp_allocs s' = mp_allocs s" by auto
      have "mn_data s n \<noteq> 0" using data_pointer(2) [of E B s "[]" p ns os "[]"] ok Cons by simp
      with IH [OF s'(2)] s' Acquire Cons show ?thesis by simp
    next
      case Nil
      with ok have ok': "mem_ok E B s ([] @ (p, [], os) # [])" by simp
      from E ok' show ?thesis
      proof (cases rule: acquire_alloc [where k = k])
        case (null s')
        have "mem_ok E B s' [(p, [], os)]" using null(2) by simp
        from IH [OF this] show ?thesis
          using null(1,5) data_agree [OF ok' null(4)] size_agree [OF ok' null(4)] Acquire Nil by simp
      next
        case (fresh n s')
        have "mem_ok E B s' [(p, [], n # os)]" using fresh(3) by simp
        from IH [OF this] show ?thesis
          using fresh(1,2,6) data_agree [OF ok' fresh(5)] size_agree [OF ok' fresh(5)] Acquire Nil
          by (auto simp: algebra_simps)
      qed
    qed
  next
    case (Release j k)
    show ?thesis
    proof (cases "j < length os")
      case True
      have "mem_ok E B s ([] @ (p, ns, take j os @ os ! j # drop (Suc j) os) # [])"
        using ok id_take_nth_drop [OF True] by simp
      from return_push [OF this, of k] obtain s' where
        s': "pool_mem_return E k (mn_data s (os ! j)) s = Inr s'"
        "mem_ok E B s' [(p, os ! j # ns, take j os @ drop (Suc j) os)]"
        "mn_data s' = mn_data s" "mp_size s' = mp_size s" "mp_allocs s' = mp_allocs s" by auto
      have "length (os ! j # ns) + length (take j os @ drop (Suc j) os) = length ns + length os"
        using True by simp
      with IH [OF s'(2)] s' True Release show ?thesis by (simp only: s'(5)) (simp add: take_map drop_map)
    qed (use IH [OF ok] Release in simp)
  qed
qed

lemma return_all_ok:
  "mem_ok E B s [(p, ns, os)] \<Longrightarrow>
    \<exists>s'. return_all E (map (mn_data s) os) s = Inr s' \<and> mem_ok E B s' [(p, rev os @ ns, [])]"
proof (induction os arbitrary: s ns)
  case (Cons n os)
  then have "mem_ok E B s ([] @ (p, ns, [] @ n # os) # [])" by simp
  from return_push [OF this, of 0] obtain s' where
    s': "pool_mem_return E 0 (mn_data s n) s = Inr s'" "mem_ok E B s' [(p, n # ns, os)]"
    "mn_data s' = mn_data s" by auto
  from Cons.IH [OF s'(2)] s' show ?case by simp
qed auto

text \<open>The data areas handed out are apart from each other.\<close>

lemma data_areas_apart:
  assumes ok: "mem_ok E B s (As @ (p, ns, os) # Bs)"
  shows "sorted_wrt (\<lambda>d e. apart d (unat (mp_size s p)) e (unat (mp_size s p))) (map (mn_data s) os)"
proof -
  note m = mem_ok_mid [OF ok]
  have "apart (mn_data s a) (unat (mp_size s p)) (mn_data s b) (unat (mp_size s p))"
    if ab: "a \<in> set os" "b \<in> set os" "data_block s a \<noteq> data_block s b" for a b
  proof -
    have "apart (data_block s a) (unat (mp_size s p) + sizeof_ptrdiff_t)
        (data_block s b) (unat (mp_size s p) + sizeof_ptrdiff_t)"
      using m(2) ab data_pointer(3) [OF ok] unfolding heap_ok_def by simp
    then show ?thesis
      using ab data_pointer(1) [OF ok, of a] data_pointer(1) [OF ok, of b] by (auto simp: apart_def)
  qed
  moreover have "distinct (map (data_block s) os)"
  proof -
    have "distinct (node_blocks s os)" using m(5) by simp
    then show ?thesis by (induction os) (auto simp: set_node_blocks)
  qed
  ultimately show ?thesis
    by (induction os) (auto simp: image_iff)
qed

end
