(* ===== verification/MultiPool.thy ===== *)
theory MultiPool
  imports MemPool_Correct
begin

text \<open>
  The multipool of \<open>simple_pool/dyn_mem_pool.h\<close>: fourteen memory pools, for blocks of
  \<open>2 ^ 9\<close> to \<open>2 ^ 22\<close> bytes, of which a request uses the smallest that fits; and the
  global multipool.
\<close>

unbundle bit_operations_syntax

section \<open>The code\<close>

definition DynPoolMinMultiPoolMemNodeSizeBits :: nat where
  "DynPoolMinMultiPoolMemNodeSizeBits = 9"

definition MULTIPOOL_ENTRY_COUNT :: nat where
  "MULTIPOOL_ENTRY_COUNT = 14"

definition sizeof_MultiPool :: nat where
  "sizeof_MultiPool = 8 * MULTIPOOL_ENTRY_COUNT"

text \<open>\<open>__builtin_clz\<close>: how many zero bits come before the first one, from the top.\<close>

definition builtin_clz :: "u32 \<Rightarrow> nat" where
  "builtin_clz w = length (takeWhile (\<lambda>i. \<not> bit w i) (rev [0..<32]))"

definition find_multipool_index_for_size :: "u32 \<Rightarrow> u32" where
  "find_multipool_index_for_size sz =
     (let size_value = drop_bit DynPoolMinMultiPoolMemNodeSizeBits (sz - 1) in
      if size_value = 0 then 0 else 32 - of_nat (builtin_clz size_value))"

text \<open>The loop of \<open>multipool_create\<close> from \<open>i\<close> on, and the function. The result of
  \<open>alloc_mem_pool\<close> is stored whether it is \<open>NULL\<close> or not.\<close>

function multipool_create_loop :: "c_env \<Rightarrow> addr \<Rightarrow> nat \<Rightarrow> cmem \<Rightarrow> c_error + cmem" where
  "multipool_create_loop E multipool i s =
     (if i < MULTIPOOL_ENTRY_COUNT then
        (let mem_size = push_bit (DynPoolMinMultiPoolMemNodeSizeBits + i) 1 in
         (case alloc_mem_pool E mem_size s of (pool, s1) \<Rightarrow>
           access sizeof_MultiPool multipool s1
             (multipool_create_loop E multipool (Suc i)
               (s1\<lparr>mu_pools := (mu_pools s1)(multipool := (mu_pools s1 multipool)(i := pool))\<rparr>))))
      else Inr s)"
  by pat_completeness auto
termination by (relation "measure (\<lambda>(E, m, i, s). MULTIPOOL_ENTRY_COUNT - i)") auto

declare multipool_create_loop.simps [simp del]

definition multipool_create :: "c_env \<Rightarrow> cmem \<Rightarrow> c_error + addr \<times> cmem" where
  "multipool_create E s =
     (case c_malloc E sizeof_MultiPool s of (multipool, s1) \<Rightarrow>
        if multipool \<noteq> 0
        then andThen (multipool_create_loop E multipool 0 s1) (\<lambda>s2. Inr (multipool, s2))
        else Inr (multipool, s1))"

function multipool_free_loop :: "c_env \<Rightarrow> addr \<Rightarrow> nat \<Rightarrow> cmem \<Rightarrow> c_error + cmem" where
  "multipool_free_loop E multipool i s =
     (if i < MULTIPOOL_ENTRY_COUNT then
        access sizeof_MultiPool multipool s
          (andThen (free_mem_pool E (mu_pools s multipool i) s)
            (multipool_free_loop E multipool (Suc i)))
      else Inr s)"
  by pat_completeness auto
termination by (relation "measure (\<lambda>(E, m, i, s). MULTIPOOL_ENTRY_COUNT - i)") auto

declare multipool_free_loop.simps [simp del]

definition multipool_free :: "c_env \<Rightarrow> addr \<Rightarrow> cmem \<Rightarrow> c_error + cmem" where
  "multipool_free E multipool s =
     (if multipool = 0 then Inl AssertFail
      else andThen (multipool_free_loop E multipool 0 s) (c_free multipool))"

definition multipool_mem_acquire ::
    "c_env \<Rightarrow> nat \<Rightarrow> addr \<Rightarrow> u32 \<Rightarrow> cmem \<Rightarrow> c_error + addr \<times> cmem" where
  "multipool_mem_acquire E spurious multipool sz s =
     (if multipool = 0 then Inl AssertFail
      else
        (let index = find_multipool_index_for_size sz in
         if \<not> unat index < MULTIPOOL_ENTRY_COUNT then Inl AssertFail
         else access sizeof_MultiPool multipool s
           (pool_mem_acquire E spurious (mu_pools s multipool (unat index)) s)))"

text \<open>The global variable is a pointer \<open>g\<close> beside the memory. Freeing does not change it.\<close>

definition global_multipool_create :: "c_env \<Rightarrow> addr \<times> cmem \<Rightarrow> c_error + addr \<times> cmem" where
  "global_multipool_create E = (\<lambda>(g, s). multipool_create E s)"

definition global_multipool_mem_acquire ::
    "c_env \<Rightarrow> nat \<Rightarrow> u32 \<Rightarrow> addr \<times> cmem \<Rightarrow> c_error + addr \<times> addr \<times> cmem" where
  "global_multipool_mem_acquire E spurious sz = (\<lambda>(g, s).
     if g = 0 then Inl AssertFail
     else andThen (multipool_mem_acquire E spurious g sz s) (\<lambda>(d, s'). Inr (d, g, s')))"

definition global_multipool_free :: "c_env \<Rightarrow> addr \<times> cmem \<Rightarrow> c_error + addr \<times> cmem" where
  "global_multipool_free E = (\<lambda>(g, s). andThen (multipool_free E g s) (\<lambda>s'. Inr (g, s')))"

section \<open>Which pool fits\<close>

lemma takeWhile_rev_upt:
  assumes "k < n" "P k" "\<forall>j. k < j \<longrightarrow> j < n \<longrightarrow> \<not> P j"
  shows "takeWhile (\<lambda>i. \<not> P i) (rev [0..<n]) = rev [Suc k..<n]"
proof -
  have split: "[0..<n] = [0..<k] @ k # [Suc k..<n]"
    using assms(1) upt_add_eq_append [of 0 k "n - k"] by (simp add: upt_conv_Cons)
  have "takeWhile (\<lambda>i. \<not> P i) (rev [Suc k..<n] @ k # rev [0..<k]) = rev [Suc k..<n]"
    using assms(2,3) by (subst takeWhile_append2) auto
  then show ?thesis by (simp add: split)
qed

lemma clz_eq:
  fixes w :: u32
  assumes "2 ^ k \<le> unat w" "unat w < 2 ^ Suc k"
  shows "builtin_clz w = 31 - k" "k < 32"
proof -
  have "unat w < 2 ^ 32" using unsigned_less [of w] by simp
  with assms(1) have "2 ^ k < (2 :: nat) ^ 32" by linarith
  then show k: "k < 32" by (rule power_less_imp_less_exp [rotated]) simp
  have bit: "bit w j \<longleftrightarrow> odd (unat w div 2 ^ j)" for j
  proof -
    have "bit w j \<longleftrightarrow> bit (unat w) j" by (simp add: bit_simps)
    then show ?thesis by (simp only: bit_iff_odd [of "unat w"])
  qed
  have "unat w div 2 ^ k = 1"
    using assms by (intro div_nat_eqI) simp_all
  then have "bit w k" using bit by simp
  moreover have "\<not> bit w j" if "k < j" for j
  proof -
    have "2 ^ Suc k \<le> (2 :: nat) ^ j" using that by (intro power_increasing) simp_all
    then have "unat w div 2 ^ j = 0" using assms(2) by simp
    then show ?thesis using bit by simp
  qed
  ultimately show "builtin_clz w = 31 - k"
    using k by (simp add: builtin_clz_def takeWhile_rev_upt [of k])
qed

lemma unat_pred: "sz \<noteq> 0 \<Longrightarrow> unat (sz - 1 :: u32) = unat sz - 1"
  by (rule unat_dec) (simp add: word_gt_0)

lemma find_index_unat:
  fixes sz :: u32
  shows "unat (drop_bit 9 (sz - 1)) = unat (sz - 1) div 512"
  by (simp add: drop_bit_eq_div unat_div)

lemma find_index_class:
  fixes sz :: u32
  assumes "2 ^ (9 + k) < unat sz" "unat sz \<le> 2 ^ (10 + k)"
  shows "unat (find_multipool_index_for_size sz) = Suc k"
proof -
  let ?v = "drop_bit 9 (sz - 1) :: u32"
  have "sz \<noteq> 0" using assms(1) by auto
  then have u: "unat ?v = (unat sz - 1) div 512" by (simp add: find_index_unat unat_pred)
  have lo: "512 * 2 ^ k \<le> unat sz - 1" using assms(1) by (simp add: power_add)
  have hi: "unat sz - 1 < 512 * 2 ^ Suc k"
    using assms unfolding power_add by simp
  have "2 ^ k \<le> unat ?v" using div_le_mono [OF lo, of 512] u by simp
  moreover have "unat ?v < 2 ^ Suc k" using hi u by (simp add: less_mult_imp_div_less mult.commute)
  ultimately have clz: "builtin_clz ?v = 31 - k" "k < 32" by (rule clz_eq)+
  have "?v \<noteq> 0" using \<open>2 ^ k \<le> unat ?v\<close> by auto
  then have "find_multipool_index_for_size sz = 32 - of_nat (31 - k)"
    using clz by (simp add: find_multipool_index_for_size_def DynPoolMinMultiPoolMemNodeSizeBits_def)
  also have "\<dots> = of_nat (Suc k)" using clz(2) by (simp add: of_nat_diff)
  finally have "unat (find_multipool_index_for_size sz) = Suc k mod 2 ^ 32"
    by (simp only: unat_of_nat) simp
  then show ?thesis using clz(2) by simp
qed

lemma find_index_small:
  fixes sz :: u32
  assumes "0 < unat sz" "unat sz \<le> 512"
  shows "find_multipool_index_for_size sz = 0"
proof -
  have "sz \<noteq> 0" using assms(1) by auto
  then have "unat (drop_bit 9 (sz - 1)) = 0"
    using assms(2) by (simp add: find_index_unat unat_pred)
  then have "drop_bit 9 (sz - 1) = 0" by (simp only: unat_eq_zero)
  then show ?thesis
    by (simp add: find_multipool_index_for_size_def DynPoolMinMultiPoolMemNodeSizeBits_def)
qed

text \<open>The index is that of the smallest size that fits.\<close>

lemma find_index_fits:
  fixes sz :: u32
  assumes "0 < unat sz"
  defines "i \<equiv> unat (find_multipool_index_for_size sz)"
  shows "unat sz \<le> 2 ^ (9 + i)" "0 < i \<Longrightarrow> 2 ^ (8 + i) < unat sz"
proof -
  have main: "unat sz \<le> 2 ^ (9 + i) \<and> (0 < i \<longrightarrow> 2 ^ (8 + i) < unat sz)"
  proof (cases "unat sz \<le> 512")
    case True
    with assms show ?thesis by (simp add: find_index_small)
  next
    case False
    define k where "k = (LEAST k. unat sz \<le> 2 ^ (10 + k))"
    have "unat sz < 2 ^ 32" using unsigned_less [of sz] by simp
    then have "unat sz \<le> 2 ^ (10 + 22)" by simp
    then have le: "unat sz \<le> 2 ^ (10 + k)" unfolding k_def by (rule LeastI)
    have lt: "2 ^ (9 + k) < unat sz"
    proof (cases k)
      case (Suc j)
      then have "\<not> unat sz \<le> 2 ^ (10 + j)" using not_less_Least [of j "\<lambda>k. unat sz \<le> 2 ^ (10 + k)"] by (simp add: k_def)
      with Suc show ?thesis by simp
    qed (use False in simp)
    from find_index_class [OF lt le] have "i = Suc k" by (simp add: i_def)
    with lt le show ?thesis by simp
  qed
  then show "unat sz \<le> 2 ^ (9 + i)" "0 < i \<Longrightarrow> 2 ^ (8 + i) < unat sz" by simp_all
qed

lemma find_index_in_range:
  assumes "0 < unat sz"
  shows "unat (find_multipool_index_for_size sz) < MULTIPOOL_ENTRY_COUNT \<longleftrightarrow> unat sz \<le> 2 ^ 22"
proof -
  let ?i = "unat (find_multipool_index_for_size sz)"
  note f = find_index_fits [OF assms]
  show ?thesis
  proof
    assume "?i < MULTIPOOL_ENTRY_COUNT"
    then have "(2 :: nat) ^ (9 + ?i) \<le> 2 ^ 22"
      by (intro power_increasing) (simp_all add: MULTIPOOL_ENTRY_COUNT_def)
    with f(1) show "unat sz \<le> 2 ^ 22" by linarith
  next
    assume le: "unat sz \<le> 2 ^ 22"
    show "?i < MULTIPOOL_ENTRY_COUNT"
    proof (rule ccontr)
      assume "\<not> ?i < MULTIPOOL_ENTRY_COUNT"
      then have "14 \<le> ?i" by (simp add: MULTIPOOL_ENTRY_COUNT_def)
      then have "(2 :: nat) ^ 22 \<le> 2 ^ (8 + ?i)" by (intro power_increasing) simp_all
      moreover have "2 ^ (8 + ?i) < unat sz" using f(2) \<open>14 \<le> ?i\<close> by simp
      ultimately show False using le by linarith
    qed
  qed
qed

lemma find_index_zero: "unat (find_multipool_index_for_size 0) = 23"
  by code_simp

end
