(* ===== verification/MultiPool_Correct.thy ===== *)
theory MultiPool_Correct
  imports MultiPool
begin

text \<open>
  Correctness of the multipool, from the lemmas on its fourteen pools: creation when every
  \<open>malloc\<close> succeeds, acquiring, returning, client histories, and freeing.
\<close>

section \<open>Invariant\<close>

definition multi_ok :: "c_env \<Rightarrow> (addr \<rightharpoonup> nat) \<Rightarrow> cmem \<Rightarrow> addr \<Rightarrow> pool_desc list \<Rightarrow> bool" where
  "multi_ok E B s m Ps \<longleftrightarrow> mem_ok E (B(m \<mapsto> sizeof_MultiPool)) s Ps \<and> B m = None \<and> m \<noteq> 0 \<and>
     length Ps = MULTIPOOL_ENTRY_COUNT \<and>
     (\<forall>i < MULTIPOOL_ENTRY_COUNT. mu_pools s m i = fst (Ps ! i) \<and>
        unat (mp_size s (fst (Ps ! i))) = 2 ^ (9 + i))"

text \<open>What an operation on one pool keeps of the live blocks of all.\<close>

definition keeps :: "cmem \<Rightarrow> cmem \<Rightarrow> bool" where
  "keeps s s' \<longleftrightarrow> mu_pools s' = mu_pools s \<and> (\<forall>a \<in> live_blocks s.
     mn_data s' a = mn_data s a \<and> mn_pool s' a = mn_pool s a \<and> mp_size s' a = mp_size s a)"

lemma mem_ok_valid:
  assumes "mem_ok E C s Ps" "C m = Some k" "m \<noteq> 0"
  shows "blk s m = Some k" "valid k m s"
proof -
  show "blk s m = Some k"
    using assms(1,2) by (auto simp: mem_ok_def split: if_splits dest!: spec [of _ m])
  with assms(3) show "valid k m s" by (simp add: valid_block)
qed

lemma acquire_any:
  assumes E: "malloc_ok E" and ok: "mem_ok E B s (As @ (p, ns, os) # Bs)"
  obtains (null) s' where "pool_mem_acquire E k p s = Inr (0, s')"
    "mem_ok E B s' (As @ (p, ns, os) # Bs)" "keeps s s'"
  | (block) n ns' s' where "pool_mem_acquire E k p s = Inr (mn_data s' n, s')"
    "mn_data s' n \<noteq> 0" "mem_ok E B s' (As @ (p, ns', n # os) # Bs)" "keeps s s'"
proof (cases ns)
  case (Cons n ns')
  have ok': "mem_ok E B s (As @ (p, n # ns', os) # Bs)" using ok Cons by simp
  from acquire_pop [OF ok', of k] obtain s' where
    s': "pool_mem_acquire E k p s = Inr (mn_data s n, s')" "mem_ok E B s' (As @ (p, ns', n # os) # Bs)"
    "mn_data s' = mn_data s" "mu_pools s' = mu_pools s" "mp_size s' = mp_size s"
    "mn_pool s' = mn_pool s" .
  moreover have "mn_data s n \<noteq> 0" using data_pointer(2) [OF ok'] by simp
  ultimately show ?thesis by (intro block [of s' n]) (simp_all add: keeps_def)
next
  case Nil
  have ok': "mem_ok E B s (As @ (p, [], os) # Bs)" using ok Nil by simp
  from E ok' show ?thesis
  proof (cases rule: acquire_alloc [where k = k])
    case (null s')
    then show ?thesis using that(1) [of s'] Nil by (simp add: keeps_def agree_def)
  next
    case (fresh n s')
    then show ?thesis using that(2) [of s' n "[]"] by (simp add: keeps_def agree_def)
  qed
qed

lemma multi_ok_update:
  assumes ok: "multi_ok E B s m Ps" and i: "i < MULTIPOOL_ENTRY_COUNT" and P: "fst P = fst (Ps ! i)"
    and mem: "mem_ok E (B(m \<mapsto> sizeof_MultiPool)) s' (take i Ps @ P # drop (Suc i) Ps)"
    and keep: "keeps s s'"
  shows "multi_ok E B s' m (Ps[i := P])"
proof -
  have upd: "Ps[i := P] = take i Ps @ P # drop (Suc i) Ps"
    using ok i by (simp add: multi_ok_def upd_conv_take_nth_drop)
  have live: "fst (Ps ! j) \<in> live_blocks s" if "j < MULTIPOOL_ENTRY_COUNT" for j
  proof -
    have "Ps ! j \<in> set Ps" using ok that by (simp add: multi_ok_def)
    then have "pool_rep E s (Ps ! j)" using ok by (auto simp: multi_ok_def mem_ok_def)
    then show ?thesis by (cases "Ps ! j") simp
  qed
  have "fst (Ps[i := P] ! j) = fst (Ps ! j)" if "j < MULTIPOOL_ENTRY_COUNT" for j
    using P i that ok by (cases "j = i") (simp_all add: multi_ok_def)
  with ok mem keep live show ?thesis by (simp add: multi_ok_def keeps_def flip: upd)
qed

text \<open>The pool used for a size.\<close>

definition class_of :: "u32 \<Rightarrow> nat" where
  "class_of sz = unat (find_multipool_index_for_size sz)"

definition size_fits :: "u32 \<Rightarrow> bool" where
  "size_fits sz \<longleftrightarrow> 0 < unat sz \<and> unat sz \<le> 2 ^ 22"

lemma class_of_fits:
  assumes "size_fits sz"
  shows "class_of sz < MULTIPOOL_ENTRY_COUNT" "unat sz \<le> 2 ^ (9 + class_of sz)"
    "0 < class_of sz \<Longrightarrow> 2 ^ (8 + class_of sz) < unat sz"
  using find_index_in_range [of sz] find_index_fits [of sz] assms
  by (simp_all add: class_of_def size_fits_def)

lemma multi_acquire:
  assumes E: "malloc_ok E" and ok: "multi_ok E B s m Ps" and sz: "size_fits sz"
    and P: "Ps ! class_of sz = (p, ns, os)"
  obtains (null) s' where "multipool_mem_acquire E k m sz s = Inr (0, s')"
    "multi_ok E B s' m Ps" "keeps s s'"
  | (block) n ns' s' where "multipool_mem_acquire E k m sz s = Inr (mn_data s' n, s')"
    "mn_data s' n \<noteq> 0" "multi_ok E B s' m (Ps[class_of sz := (p, ns', n # os)])" "keeps s s'"
    "mn_pool s' n = p" "unat (mp_size s' p) = 2 ^ (9 + class_of sz)"
proof -
  let ?i = "class_of sz"
  note c = class_of_fits [OF sz]
  have mem: "mem_ok E (B(m \<mapsto> sizeof_MultiPool)) s (take ?i Ps @ (p, ns, os) # drop (Suc ?i) Ps)"
    using ok c(1) P id_take_nth_drop [of ?i Ps] by (simp add: multi_ok_def)
  have m: "m \<noteq> 0" "valid sizeof_MultiPool m s"
    using ok mem_ok_valid [of E "B(m \<mapsto> sizeof_MultiPool)" s Ps m sizeof_MultiPool]
    by (simp_all add: multi_ok_def)
  have p: "mu_pools s m ?i = p" using ok c(1) P by (simp add: multi_ok_def)
  have run: "multipool_mem_acquire E k m sz s = pool_mem_acquire E k p s"
    using m c(1) p by (simp add: multipool_mem_acquire_def class_of_def Let_def)
  have same: "Ps[?i := (p, ns, os)] = Ps" using P by (metis list_update_id)
  from E mem show ?thesis
  proof (cases rule: acquire_any [where k = k])
    case (null s')
    then show ?thesis
      using that(1) [of s'] run multi_ok_update [OF ok c(1) _ null(2,3)] P same by simp
  next
    case (block n ns' s')
    have ok': "multi_ok E B s' m (Ps[?i := (p, ns', n # os)])"
      using multi_ok_update [OF ok c(1) _ block(3,4)] P by simp
    moreover have "mn_pool s' n = p"
      using mem_ok_mid(1) [OF block(3)] by (simp add: node_rep_def)
    moreover have "Ps[?i := (p, ns', n # os)] ! ?i = (p, ns', n # os)"
      using c(1) ok by (simp add: multi_ok_def)
    moreover have "unat (mp_size s' (fst (Ps[?i := (p, ns', n # os)] ! ?i))) = 2 ^ (9 + ?i)"
      using ok' c(1) unfolding multi_ok_def by blast
    ultimately show ?thesis using that(2) [of s' n ns'] run block by simp
  qed
qed

lemma multi_return:
  assumes ok: "multi_ok E B s m Ps" and i: "i < MULTIPOOL_ENTRY_COUNT"
    and P: "Ps ! i = (p, ns, xs @ n # ys)"
  obtains s' where "pool_mem_return E k (mn_data s n) s = Inr s'"
    "multi_ok E B s' m (Ps[i := (p, n # ns, xs @ ys)])" "keeps s s'"
proof -
  have mem: "mem_ok E (B(m \<mapsto> sizeof_MultiPool)) s (take i Ps @ (p, ns, xs @ n # ys) # drop (Suc i) Ps)"
    using ok i P id_take_nth_drop [of i Ps] by (simp add: multi_ok_def)
  from return_push [OF mem, of k] obtain s' where
    s': "pool_mem_return E k (mn_data s n) s = Inr s'"
    "mem_ok E (B(m \<mapsto> sizeof_MultiPool)) s' (take i Ps @ (p, n # ns, xs @ ys) # drop (Suc i) Ps)"
    "mn_data s' = mn_data s" "mu_pools s' = mu_pools s" "mp_size s' = mp_size s" "mn_pool s' = mn_pool s" .
  then have keep: "keeps s s'" by (simp add: keeps_def)
  with s'(1) multi_ok_update [OF ok i _ s'(2)] P show ?thesis by (intro that [of s']) simp_all
qed

section \<open>Freeing\<close>

lemma free_loop_ok:
  assumes "i \<le> MULTIPOOL_ENTRY_COUNT" "length Ps = MULTIPOOL_ENTRY_COUNT"
    "mem_ok E C s (drop i Ps)" "m \<noteq> 0" "C m = Some sizeof_MultiPool"
    "\<forall>j < MULTIPOOL_ENTRY_COUNT. mu_pools s m j = fst (Ps ! j) \<and> snd (snd (Ps ! j)) = []"
  shows "\<exists>s'. multipool_free_loop E m i s = Inr s' \<and> mem_ok E C s' []"
  using assms
proof (induction "MULTIPOOL_ENTRY_COUNT - i" arbitrary: i s)
  case 0
  then show ?case by (subst multipool_free_loop.simps) simp
next
  case (Suc k)
  then have i: "i < MULTIPOOL_ENTRY_COUNT" by simp
  obtain p ns where P: "Ps ! i = (p, ns, [])" using Suc.prems(6) i by (cases "Ps ! i") auto
  have "mem_ok E C s ([] @ (p, ns, []) # drop (Suc i) Ps)"
    using Suc.prems(2,3) i P by (simp add: Cons_nth_drop_Suc [symmetric])
  from free_pool_ok [OF this] obtain s' where
    s': "free_mem_pool E p s = Inr s'" "mem_ok E C s' (drop (Suc i) Ps)"
    "mu_pools s' = mu_pools s" by auto
  have "valid sizeof_MultiPool m s" using mem_ok_valid [OF Suc.prems(3,5,4)] by blast
  then have "multipool_free_loop E m i s = multipool_free_loop E m (Suc i) s'"
    using i P s'(1) Suc.prems(6) by (subst multipool_free_loop.simps) simp
  moreover have "\<exists>s''. multipool_free_loop E m (Suc i) s' = Inr s'' \<and>
      mem_ok E C s'' []"
    using Suc.prems i s' Suc.hyps(2) by (intro Suc.hyps(1)) simp_all
  ultimately show ?case by simp
qed

lemma multi_free:
  assumes ok: "multi_ok E B s m Ps" and empty: "\<forall>P \<in> set Ps. snd (snd P) = []"
  obtains s' where "multipool_free E m s = Inr s'" "blk s' = B"
proof -
  have "mem_ok E (B(m \<mapsto> sizeof_MultiPool)) s (drop 0 Ps)" "m \<noteq> 0" "B m = None"
    "length Ps = MULTIPOOL_ENTRY_COUNT"
    "\<forall>j < MULTIPOOL_ENTRY_COUNT. mu_pools s m j = fst (Ps ! j) \<and> snd (snd (Ps ! j)) = []"
    using ok empty by (auto simp: multi_ok_def)
  from free_loop_ok [OF _ this(4,1,2) _ this(5)] obtain s1 where
    s1: "multipool_free_loop E m 0 s = Inr s1" "mem_ok E (B(m \<mapsto> sizeof_MultiPool)) s1 []" by auto
  have "blk s1 = B(m \<mapsto> sizeof_MultiPool)" using s1(2) by (auto simp: mem_ok_def)
  with s1(1) \<open>m \<noteq> 0\<close> \<open>B m = None\<close> show ?thesis
    by (intro that [of "s1\<lparr>blocks := AList.delete m (blocks s1)\<rparr>"])
      (auto simp: multipool_free_def c_free_def)
qed

section \<open>Creating\<close>

text \<open>
  The loop creates the pools it can; an entry whose pool could not be allocated is \<open>NULL\<close>.
\<close>

lemma class_size: "i < 14 \<Longrightarrow> unat (push_bit (9 + i) 1 :: u32) = 2 ^ (9 + i)"
proof -
  assume "i < 14"
  then have "(2 :: nat) ^ (9 + i) < 2 ^ 32" by (intro power_strict_increasing) simp_all
  then have "unat (of_nat (2 ^ (9 + i)) :: u32) = 2 ^ (9 + i)" by (simp only: unat_of_nat) simp
  then show ?thesis by (simp add: push_bit_eq_mult)
qed

lemma class_size_nonzero: "i < 14 \<Longrightarrow> (push_bit (9 + i) 1 :: u32) \<noteq> 0"
  using class_size [of i] by auto

lemma create_class:
  assumes E: "malloc_ok E" and ok: "mem_ok E C s Ps" and sz: "sz \<noteq> 0"
  shows "\<exists>p s1 P1. alloc_mem_pool E sz s = (p, s1) \<and>
      mem_ok E C s1 (Ps @ P1) \<and> agree (live_blocks s) s s1 \<and>
      live_blocks s \<subseteq> live_blocks s1 \<and> mu_pools s1 = mu_pools s \<and>
      P1 = (if p = 0 then [] else [(p, [], [])]) \<and> (p \<noteq> 0 \<longrightarrow> mp_size s1 p = sz)"
  using E ok sz
proof (cases rule: create_pool)
  case (null s')
  then show ?thesis by (intro exI [of _ 0] exI [of _ s'] exI [of _ "[]"]) simp
next
  case (pool p s')
  then have "live_blocks s \<subseteq> live_blocks s'" by (auto simp: agree_def)
  with pool show ?thesis
    by (intro exI [of _ p] exI [of _ s'] exI [of _ "[(p, [], [])]"]) simp
qed

lemma create_loop_ok:
  assumes E: "malloc_ok E" and "i \<le> MULTIPOOL_ENTRY_COUNT" "m \<noteq> 0" "C m = Some sizeof_MultiPool"
    "mem_ok E C s Ps"
  shows "\<exists>s' Qs. multipool_create_loop E m i s = Inr s' \<and>
    mem_ok E C s' (Ps @ Qs) \<and> agree (live_blocks s) s s' \<and>
    (\<forall>Q \<in> set Qs. snd Q = ([], [])) \<and>
    (\<forall>j < i. mu_pools s' m j = mu_pools s m j) \<and>
    map fst Qs = filter (\<lambda>p. p \<noteq> 0) (map (mu_pools s' m) [i..<MULTIPOOL_ENTRY_COUNT]) \<and>
    (\<forall>j. i \<le> j \<longrightarrow> j < MULTIPOOL_ENTRY_COUNT \<longrightarrow> mu_pools s' m j \<noteq> 0 \<longrightarrow>
      unat (mp_size s' (mu_pools s' m j)) = 2 ^ (9 + j))"
  using assms(2-)
proof (induction "MULTIPOOL_ENTRY_COUNT - i" arbitrary: i s Ps)
  case 0
  then show ?case
    by (intro exI [of _ s] exI [of _ "[]"]) (subst multipool_create_loop.simps, simp add: agree_def)
next
  case (Suc k)
  then have i: "i < MULTIPOOL_ENTRY_COUNT" by simp
  let ?sz = "push_bit (DynPoolMinMultiPoolMemNodeSizeBits + i) 1 :: u32"
  have sz: "?sz \<noteq> 0" "unat ?sz = 2 ^ (9 + i)"
    using i class_size [of i] class_size_nonzero [of i]
    by (simp_all add: MULTIPOOL_ENTRY_COUNT_def DynPoolMinMultiPoolMemNodeSizeBits_def)
  from create_class [OF E Suc.prems(4) sz(1)] obtain p s1 P1 where s1: "alloc_mem_pool E ?sz s = (p, s1)"
    "mem_ok E C s1 (Ps @ P1)" "agree (live_blocks s) s s1"
    "live_blocks s \<subseteq> live_blocks s1" "mu_pools s1 = mu_pools s"
    "P1 = (if p = 0 then [] else [(p, [], [])])" "p \<noteq> 0 \<longrightarrow> mp_size s1 p = ?sz" by blast
  let ?s2 = "s1\<lparr>mu_pools := (mu_pools s1)(m := (mu_pools s1 m)(i := p))\<rparr>"
  have "valid sizeof_MultiPool m s1" using mem_ok_valid [OF s1(2) Suc.prems(3,2)] by blast
  then have run: "multipool_create_loop E m i s = multipool_create_loop E m (Suc i) ?s2"
    using i s1(1) by (subst multipool_create_loop.simps) (simp add: Let_def)
  have ok2: "mem_ok E C ?s2 (Ps @ P1)"
    by (rule mem_ok_agree [OF s1(2)]) (simp_all add: agree_def)
  have "k = MULTIPOOL_ENTRY_COUNT - Suc i" "Suc i \<le> MULTIPOOL_ENTRY_COUNT"
    using Suc.hyps(2) i by simp_all
  from Suc.hyps(1) [OF this Suc.prems(2,3) ok2] obtain s' Qs where
    s': "multipool_create_loop E m (Suc i) ?s2 = Inr s'"
    "mem_ok E C s' ((Ps @ P1) @ Qs)" "agree (live_blocks s1) ?s2 s'"
    "\<forall>Q \<in> set Qs. snd Q = ([], [])" "\<forall>j < Suc i. mu_pools s' m j = mu_pools ?s2 m j"
    "map fst Qs = filter (\<lambda>p. p \<noteq> 0) (map (mu_pools s' m) [Suc i..<MULTIPOOL_ENTRY_COUNT])"
    "\<forall>j. Suc i \<le> j \<longrightarrow> j < MULTIPOOL_ENTRY_COUNT \<longrightarrow> mu_pools s' m j \<noteq> 0 \<longrightarrow>
      unat (mp_size s' (mu_pools s' m j)) = 2 ^ (9 + j)" by auto
  have pi: "mu_pools s' m i = p" using s'(5) by simp
  have "unat (mp_size s' p) = 2 ^ (9 + i)" if "p \<noteq> 0"
  proof -
    have "pool_rep E s1 (p, [], [])" using s1(2,6) that by (simp add: mem_ok_def)
    then have "mp_size s' p = mp_size s1 p" using s'(3) by (simp add: agree_def)
    with s1(7) that sz(2) show ?thesis by simp
  qed
  then have sizes: "\<forall>j. i \<le> j \<longrightarrow> j < MULTIPOOL_ENTRY_COUNT \<longrightarrow> mu_pools s' m j \<noteq> 0 \<longrightarrow>
      unat (mp_size s' (mu_pools s' m j)) = 2 ^ (9 + j)"
    using s'(7) pi by (metis Suc_leI le_neq_implies_less)
  have upt: "[i..<MULTIPOOL_ENTRY_COUNT] = i # [Suc i..<MULTIPOOL_ENTRY_COUNT]"
    using i by (rule upt_conv_Cons)
  have "agree (live_blocks s) s s'"
    using s1(3) s'(3) s1(4) by (auto simp: agree_def)
  moreover have "map fst (P1 @ Qs) =
      filter (\<lambda>p. p \<noteq> 0) (map (mu_pools s' m) [i..<MULTIPOOL_ENTRY_COUNT])"
    using s'(6) s1(6) pi by (simp add: upt)
  moreover have "\<forall>Q \<in> set (P1 @ Qs). snd Q = ([], [])" using s'(4) s1(6) by auto
  moreover have "\<forall>j < i. mu_pools s' m j = mu_pools s m j" using s'(5) s1(5) by simp
  ultimately show ?case
    using run s'(1,2) sizes by (intro exI [of _ s'] exI [of _ "P1 @ Qs"]) simp
qed

lemma multi_create:
  assumes E: "malloc_ok E" and heap: "heap_ok (blk s)"
  obtains (null) s' where "multipool_create E s = Inr (0, s')" "blk s' = blk s"
  | (created) m s' Qs where "multipool_create E s = Inr (m, s')" "m \<noteq> 0" "blk s m = None"
    "mem_ok E ((blk s)(m \<mapsto> sizeof_MultiPool)) s' Qs" "\<forall>Q \<in> set Qs. snd Q = ([], [])"
    "map fst Qs = filter (\<lambda>p. p \<noteq> 0) (map (mu_pools s' m) [0..<MULTIPOOL_ENTRY_COUNT])"
    "\<forall>j < MULTIPOOL_ENTRY_COUNT. mu_pools s' m j \<noteq> 0 \<longrightarrow>
      unat (mp_size s' (mu_pools s' m j)) = 2 ^ (9 + j)"
proof -
  have z: "0 < sizeof_MultiPool" by (simp add: sizeof_MultiPool_def MULTIPOOL_ENTRY_COUNT_def)
  from E heap z show ?thesis
  proof (cases rule: c_malloc_cases)
    case null
    then show ?thesis using that(1) by (simp add: multipool_create_def)
  next
    case (block m)
    let ?s1 = "s\<lparr>calls := Suc (calls s)\<rparr>\<lparr>blocks := (m, sizeof_MultiPool) # blocks s\<rparr>"
    have b1: "blk ?s1 = (blk s)(m \<mapsto> sizeof_MultiPool)" by (simp add: blk_def)
    have ok: "mem_ok E ((blk s)(m \<mapsto> sizeof_MultiPool)) ?s1 []"
      using block(4) b1 by (simp add: mem_ok_def)
    from create_loop_ok [OF E, of 0 m "(blk s)(m \<mapsto> sizeof_MultiPool)" ?s1 "[]"] ok block(2)
    obtain s' Qs where s': "multipool_create_loop E m 0 ?s1 = Inr s'"
      "mem_ok E ((blk s)(m \<mapsto> sizeof_MultiPool)) s' Qs" "\<forall>Q \<in> set Qs. snd Q = ([], [])"
      "map fst Qs = filter (\<lambda>p. p \<noteq> 0) (map (mu_pools s' m) [0..<MULTIPOOL_ENTRY_COUNT])"
      "\<forall>j < MULTIPOOL_ENTRY_COUNT. mu_pools s' m j \<noteq> 0 \<longrightarrow>
        unat (mp_size s' (mu_pools s' m j)) = 2 ^ (9 + j)" by auto
    have "multipool_create E s = Inr (m, s')"
      using block(1,2) s'(1) by (simp add: multipool_create_def)
    with that(2) [of m s' Qs] block(2,3) s' show ?thesis by blast
  qed
qed

text \<open>When no pool is missing, the multipool is complete and empty.\<close>

lemma multi_create_complete:
  assumes E: "malloc_ok E" and heap: "heap_ok (blk s)"
    and run: "multipool_create E s = Inr (m, s')" "m \<noteq> 0"
    and all: "\<forall>i < MULTIPOOL_ENTRY_COUNT. mu_pools s' m i \<noteq> 0"
  obtains Ps where "multi_ok E (blk s) s' m Ps" "\<forall>P \<in> set Ps. snd P = ([], [])"
  using E heap
proof (cases rule: multi_create)
  case (null s'')
  then show ?thesis using run by simp
next
  case (created m' s'' Qs)
  have eq: "m' = m" "s'' = s'" using created(1) run(1) by simp_all
  have "filter (\<lambda>p. p \<noteq> 0) (map (mu_pools s' m) [0..<MULTIPOOL_ENTRY_COUNT]) =
      map (mu_pools s' m) [0..<MULTIPOOL_ENTRY_COUNT]"
    using all by (simp add: filter_id_conv)
  with created(6) eq have f: "map fst Qs = map (mu_pools s' m) [0..<MULTIPOOL_ENTRY_COUNT]" by simp
  then have len: "length Qs = MULTIPOOL_ENTRY_COUNT"
    by (metis diff_zero length_map length_upt)
  have "fst (Qs ! i) = mu_pools s' m i" if "i < MULTIPOOL_ENTRY_COUNT" for i
    using arg_cong [OF f, of "\<lambda>xs. xs ! i"] that len by simp
  with len created eq all have "multi_ok E (blk s) s' m Qs" by (simp add: multi_ok_def)
  with that created(5) show ?thesis by blast
qed

text \<open>Entry \<open>j\<close> is what the \<open>j\<close>-th call of \<open>malloc\<close> after the first gave.\<close>

lemma create_loop_pools:
  assumes "multipool_create_loop E m i s = Inr s'"
  shows "(\<forall>j < i. mu_pools s' m j = mu_pools s m j) \<and>
    (\<forall>j. i \<le> j \<longrightarrow> j < MULTIPOOL_ENTRY_COUNT \<longrightarrow>
      (\<exists>B. mu_pools s' m j = ce_malloc E (calls s + (j - i)) B (sizeof_MemPool E)))"
  using assms
proof (induction "MULTIPOOL_ENTRY_COUNT - i" arbitrary: i s)
  case 0
  then show ?case by (subst (asm) multipool_create_loop.simps) simp
next
  case (Suc k)
  then have i: "i < MULTIPOOL_ENTRY_COUNT" and k: "k = MULTIPOOL_ENTRY_COUNT - Suc i" by simp_all
  let ?p = "ce_malloc E (calls s) (blocks s) (sizeof_MemPool E)"
  obtain p s1 where a: "alloc_mem_pool E (push_bit (DynPoolMinMultiPoolMemNodeSizeBits + i) 1) s = (p, s1)"
    by (cases "alloc_mem_pool E (push_bit (DynPoolMinMultiPoolMemNodeSizeBits + i) 1) s")
  then have p: "p = ?p" "calls s1 = Suc (calls s)" "mu_pools s1 = mu_pools s"
    by (auto simp: alloc_mem_pool_def c_malloc_def Let_def split: if_splits)
  let ?s2 = "s1\<lparr>mu_pools := (mu_pools s1)(m := (mu_pools s1 m)(i := p))\<rparr>"
  have "multipool_create_loop E m (Suc i) ?s2 = Inr s'"
    using Suc.prems i a by (subst (asm) multipool_create_loop.simps)
      (simp add: Let_def access_def split: if_splits)
  from Suc.hyps(1) [OF k this] have
    IH1: "\<forall>j < Suc i. mu_pools s' m j = ((mu_pools s m)(i := p)) j" and
    IH2: "\<forall>j. Suc i \<le> j \<longrightarrow> j < MULTIPOOL_ENTRY_COUNT \<longrightarrow>
      (\<exists>B. mu_pools s' m j = ce_malloc E (Suc (calls s) + (j - Suc i)) B (sizeof_MemPool E))"
    using p by simp_all
  have "\<exists>B. mu_pools s' m j = ce_malloc E (calls s + (j - i)) B (sizeof_MemPool E)"
    if j: "i \<le> j" "j < MULTIPOOL_ENTRY_COUNT" for j
  proof (cases "j = i")
    case True
    then show ?thesis using IH1 p by auto
  next
    case False
    with j have "Suc i \<le> j" "Suc (calls s) + (j - Suc i) = calls s + (j - i)" by simp_all
    with IH2 j(2) show ?thesis by metis
  qed
  with IH1 show ?case by simp
qed

lemma create_pools:
  assumes "multipool_create E s = Inr (m, s')" "m \<noteq> 0" "j < MULTIPOOL_ENTRY_COUNT"
  obtains B where "mu_pools s' m j = ce_malloc E (Suc (calls s) + j) B (sizeof_MemPool E)"
proof -
  obtain s1 where c: "c_malloc E sizeof_MultiPool s = (m, s1)" "calls s1 = Suc (calls s)"
    "multipool_create_loop E m 0 s1 = Inr s'"
    using assms(1,2) by (auto simp: multipool_create_def c_malloc_def Let_def andThen_eq_Inr split: if_splits)
  from create_loop_pools [OF c(3)] assms(3) that show ?thesis by (auto simp: c(2))
qed

text \<open>Freeing a multipool with a missing pool.\<close>

lemma free_loop_missing:
  assumes "mem_ok E C s Ps" "m \<noteq> 0" "C m = Some sizeof_MultiPool"
    "\<forall>P \<in> set Ps. snd (snd P) = []"
    "map fst Ps = filter (\<lambda>p. p \<noteq> 0) (map (mu_pools s m) [i..<MULTIPOOL_ENTRY_COUNT])"
    "i \<le> j" "j < MULTIPOOL_ENTRY_COUNT" "mu_pools s m j = 0"
  shows "multipool_free_loop E m i s = Inl AssertFail"
  using assms
proof (induction "MULTIPOOL_ENTRY_COUNT - i" arbitrary: i s Ps)
  case 0
  then show ?case by simp
next
  case (Suc k)
  then have i: "i < MULTIPOOL_ENTRY_COUNT" and k: "k = MULTIPOOL_ENTRY_COUNT - Suc i" by simp_all
  have valid: "valid sizeof_MultiPool m s" using mem_ok_valid [OF Suc.prems(1,3,2)] by blast
  show ?case
  proof (cases "mu_pools s m i = 0")
    case True
    then show ?thesis using i valid
      by (subst multipool_free_loop.simps) (simp add: free_mem_pool_def)
  next
    case False
    then have "map fst Ps = mu_pools s m i #
        filter (\<lambda>p. p \<noteq> 0) (map (mu_pools s m) [Suc i..<MULTIPOOL_ENTRY_COUNT])"
      using Suc.prems(5) i by (simp add: upt_conv_Cons)
    then obtain P Ps' where Ps: "Ps = P # Ps'" "fst P = mu_pools s m i"
      "map fst Ps' = filter (\<lambda>p. p \<noteq> 0) (map (mu_pools s m) [Suc i..<MULTIPOOL_ENTRY_COUNT])"
      by (cases Ps) auto
    then obtain ns where P: "P = (mu_pools s m i, ns, [])" using Suc.prems(4) by (cases P) auto
    have "mem_ok E C s ([] @ (mu_pools s m i, ns, []) # Ps')" using Suc.prems(1) Ps(1) P by simp
    from free_pool_ok [OF this] obtain s' where
      s': "free_mem_pool E (mu_pools s m i) s = Inr s'" "mem_ok E C s' Ps'" "mu_pools s' = mu_pools s"
      by auto
    have "Suc i \<le> j" using False Suc.prems(6,8) by (metis le_antisym not_less_eq_eq)
    then have "multipool_free_loop E m (Suc i) s' = Inl AssertFail"
      using Suc.prems Ps s' by (intro Suc.hyps(1) [OF k, of s' Ps']) simp_all
    then show ?thesis using i valid s'(1) by (subst multipool_free_loop.simps) simp
  qed
qed

section \<open>Clients\<close>

text \<open>A client holds data pointers with the sizes it asked for.\<close>

datatype mu_call = MAcquire u32 nat | MRelease nat nat

fun mu_run :: "c_env \<Rightarrow> addr \<Rightarrow> mu_call list \<Rightarrow> cmem \<Rightarrow> (addr \<times> u32) list \<Rightarrow>
    c_error + cmem \<times> (addr \<times> u32) list" where
  "mu_run E m [] s held = Inr (s, held)"
| "mu_run E m (MAcquire sz k # cs) s held =
     andThen (multipool_mem_acquire E k m sz s) (\<lambda>(d, s').
       mu_run E m cs s' (if d = 0 then held else (d, sz) # held))"
| "mu_run E m (MRelease j k # cs) s held =
     (if j < length held
      then andThen (pool_mem_return E k (fst (held ! j)) s) (\<lambda>s'.
        mu_run E m cs s' (take j held @ drop (Suc j) held))
      else mu_run E m cs s held)"

fun call_fits :: "mu_call \<Rightarrow> bool" where
  "call_fits (MAcquire sz k) = size_fits sz"
| "call_fits (MRelease j k) = True"

text \<open>The nodes \<open>own\<close> of the pointers a client holds.\<close>

definition holds :: "cmem \<Rightarrow> pool_desc list \<Rightarrow> (addr \<times> u32) list \<Rightarrow> addr list \<Rightarrow> bool" where
  "holds s Ps held own \<longleftrightarrow> mset own = mset (concat (map (snd \<circ> snd) Ps)) \<and>
     list_all2 (\<lambda>(d, sz) n. d = mn_data s n \<and> unat sz \<le> unat (mp_size s (mn_pool s n))) held own"

lemma own_node:
  assumes mem: "mem_ok E C s Ps" and own: "mset own = mset (concat (map (snd \<circ> snd) Ps))"
    and n: "n \<in> set own"
  obtains i p ns xs ys where "i < length Ps" "Ps ! i = (p, ns, xs @ n # ys)" "node_rep s p n"
    "p \<in> live_blocks s" "n \<in> live_blocks s" "mn_pool s n = p"
proof -
  have "n \<in> set (concat (map (snd \<circ> snd) Ps))" using own n by (metis mset_eq_setD)
  then obtain P where "P \<in> set Ps" "n \<in> set (snd (snd P))" by auto
  then obtain i where i: "i < length Ps" "n \<in> set (snd (snd (Ps ! i)))" by (metis in_set_conv_nth)
  obtain p ns os where P: "Ps ! i = (p, ns, os)" by (cases "Ps ! i")
  with i obtain xs ys where os: "os = xs @ n # ys" by (auto dest: split_list)
  have "pool_rep E s (p, ns, os)" using mem i(1) P by (metis mem_ok_def nth_mem)
  then have "node_rep s p n" "p \<in> live_blocks s" by (simp_all add: os)
  with that [OF i(1)] P os show ?thesis by (simp add: node_rep_def)
qed

lemma outstanding_update:
  fixes Ps :: "pool_desc list"
  assumes "i < length Ps" "Ps ! i = (p, ns, os)"
  shows "mset (concat (map (snd \<circ> snd) (Ps[i := (p, ns', os')]))) + mset os =
    mset (concat (map (snd \<circ> snd) Ps)) + mset os'"
proof -
  let ?o = "\<lambda>Qs. mset (concat (map (snd \<circ> snd) Qs)) :: addr multiset"
  have split: "?o (As @ (p, ns, os) # Bs) = ?o As + mset os + ?o Bs" for As Bs ns os by simp
  have "Ps = take i Ps @ (p, ns, os) # drop (Suc i) Ps"
    using assms id_take_nth_drop [of i Ps] by simp
  then have "?o Ps = ?o (take i Ps) + mset os + ?o (drop (Suc i) Ps)" by (metis split)
  moreover have "?o (Ps[i := (p, ns', os')]) = ?o (take i Ps) + mset os' + ?o (drop (Suc i) Ps)"
    using split [of "take i Ps" ns' os' "drop (Suc i) Ps"] assms(1)
    by (simp only: upd_conv_take_nth_drop)
  ultimately show ?thesis by (simp only: union_ac)
qed

lemma holds_keeps:
  assumes mem: "mem_ok E C s Ps" and h: "holds s Ps held own" and keep: "keeps s s'"
  shows "list_all2 (\<lambda>(d, sz) n. d = mn_data s' n \<and> unat sz \<le> unat (mp_size s' (mn_pool s' n))) held own"
proof -
  have "mn_data s' n = mn_data s n \<and> mn_pool s' n = mn_pool s n \<and>
      mp_size s' (mn_pool s n) = mp_size s (mn_pool s n)" if n: "n \<in> set own" for n
  proof -
    have "mset own = mset (concat (map (snd \<circ> snd) Ps))" using h by (simp add: holds_def)
    from own_node [OF mem this n] obtain p where "p \<in> live_blocks s" "n \<in> live_blocks s"
      "mn_pool s n = p" by blast
    with keep show ?thesis by (simp add: keeps_def)
  qed
  then show ?thesis
    using h unfolding holds_def by (auto elim!: list.rel_mono_strong)
qed

lemma list_all2_remove:
  assumes "list_all2 R xs ys" "j < length xs"
  shows "list_all2 R (take j xs @ drop (Suc j) xs) (take j ys @ drop (Suc j) ys)"
  using assms by (intro list_all2_appendI list_all2_takeI list_all2_dropI)

text \<open>One call of a client.\<close>

lemma holds_acquire:
  assumes E: "malloc_ok E" and ok: "multi_ok E B s m Ps" and h: "holds s Ps held own" and sz: "size_fits sz"
  shows "\<exists>d s' Ps' own'. multipool_mem_acquire E k m sz s = Inr (d, s') \<and> multi_ok E B s' m Ps' \<and>
    holds s' Ps' (if d = 0 then held else (d, sz) # held) own'"
proof -
  have mem: "mem_ok E (B(m \<mapsto> sizeof_MultiPool)) s Ps" using ok by (simp add: multi_ok_def)
  obtain p ns os where P: "Ps ! class_of sz = (p, ns, os)" by (cases "Ps ! class_of sz")
  from E ok sz P show ?thesis
  proof (cases rule: multi_acquire [where k = k])
    case (null s')
    have "holds s' Ps held own"
      using h holds_keeps [OF mem h null(3)] by (simp add: holds_def)
    with null(1,2) show ?thesis by auto
  next
    case (block n ns' s')
    let ?Ps = "Ps[class_of sz := (p, ns', n # os)]"
    have "class_of sz < length Ps"
      using ok class_of_fits(1) [OF sz] by (simp add: multi_ok_def)
    from outstanding_update [OF this P, of ns' "n # os"] have
      "mset (concat (map (snd \<circ> snd) ?Ps)) = add_mset n (mset (concat (map (snd \<circ> snd) Ps)))" by simp
    moreover have "unat sz \<le> unat (mp_size s' (mn_pool s' n))"
      using block(5,6) class_of_fits(2) [OF sz] by simp
    ultimately have "holds s' ?Ps ((mn_data s' n, sz) # held) (n # own)"
      using h holds_keeps [OF mem h block(4)] by (simp add: holds_def)
    with block(1-3) show ?thesis by auto
  qed
qed

lemma holds_return:
  assumes ok: "multi_ok E B s m Ps" and h: "holds s Ps held own" and j: "j < length held"
  shows "\<exists>s' Ps' own'. pool_mem_return E k (fst (held ! j)) s = Inr s' \<and> multi_ok E B s' m Ps' \<and>
    holds s' Ps' (take j held @ drop (Suc j) held) own'"
proof -
  have mem: "mem_ok E (B(m \<mapsto> sizeof_MultiPool)) s Ps" using ok by (simp add: multi_ok_def)
  have l2: "list_all2 (\<lambda>(d, sz) n. d = mn_data s n \<and> unat sz \<le> unat (mp_size s (mn_pool s n))) held own"
    and own: "mset own = mset (concat (map (snd \<circ> snd) Ps))" using h by (simp_all add: holds_def)
  have jo: "j < length own" using l2 j by (simp add: list_all2_lengthD)
  have d: "fst (held ! j) = mn_data s (own ! j)"
    using list_all2_nthD [OF l2 j] by (simp add: case_prod_beta)
  obtain i p ns xs ys where i: "i < length Ps" "Ps ! i = (p, ns, xs @ own ! j # ys)"
    by (rule own_node [OF mem own nth_mem [OF jo]]) (rule that, assumption+)
  have i': "i < MULTIPOOL_ENTRY_COUNT" using i(1) ok by (simp add: multi_ok_def)
  let ?Ps = "Ps[i := (p, own ! j # ns, xs @ ys)]"
  let ?held = "take j held @ drop (Suc j) held" and ?own = "take j own @ drop (Suc j) own"
  from multi_return [OF ok i' i(2), of k] obtain s' where
    s': "pool_mem_return E k (mn_data s (own ! j)) s = Inr s'" "multi_ok E B s' m ?Ps" "keeps s s'" .
  have "mset own = add_mset (own ! j) (mset ?own)" by (rule mset_take_drop_nth [OF jo])
  with outstanding_update [OF i, of "own ! j # ns" "xs @ ys"] own
  have "add_mset (own ! j) (mset ?own) =
      add_mset (own ! j) (mset (concat (map (snd \<circ> snd) ?Ps)))" by simp
  then have "mset ?own = mset (concat (map (snd \<circ> snd) ?Ps))"
    by (simp only: add_mset_add_mset_same_iff)
  moreover have "list_all2 (\<lambda>(d, sz) n. d = mn_data s' n \<and> unat sz \<le> unat (mp_size s' (mn_pool s' n)))
      ?held ?own"
    using holds_keeps [OF mem h s'(3)] j by (rule list_all2_remove)
  ultimately have "holds s' ?Ps ?held ?own" by (simp add: holds_def)
  with s'(1,2) d show ?thesis by auto
qed

lemma mu_run_ok:
  assumes E: "malloc_ok E"
  shows "multi_ok E B s m Ps \<Longrightarrow> holds s Ps held own \<Longrightarrow> list_all call_fits cs \<Longrightarrow>
    \<exists>s' held' Ps' own'. mu_run E m cs s held = Inr (s', held') \<and> multi_ok E B s' m Ps' \<and>
      holds s' Ps' held' own'"
proof (induction cs arbitrary: s Ps held own)
  case Nil
  then show ?case by auto
next
  case (Cons c cs)
  note ok = Cons.prems(1,2)
  have fits: "list_all call_fits cs" using Cons.prems(3) by simp
  show ?case
  proof (cases c)
    case (MAcquire sz k)
    then have sz: "size_fits sz" using Cons.prems(3) by simp
    from holds_acquire [OF E ok sz, of k] obtain d s' Ps' own' where
      "multipool_mem_acquire E k m sz s = Inr (d, s')" "multi_ok E B s' m Ps'"
      "holds s' Ps' (if d = 0 then held else (d, sz) # held) own'" by blast
    with Cons.IH [OF this(2,3) fits] show ?thesis by (auto simp: MAcquire)
  next
    case (MRelease j k)
    show ?thesis
    proof (cases "j < length held")
      case False
      with Cons.IH [OF ok fits] MRelease show ?thesis by simp
    next
      case True
      from holds_return [OF ok True, of k] obtain s' Ps' own' where
        "pool_mem_return E k (fst (held ! j)) s = Inr s'" "multi_ok E B s' m Ps'"
        "holds s' Ps' (take j held @ drop (Suc j) held) own'" by blast
      with Cons.IH [OF this(2,3) fits] True show ?thesis by (simp add: MRelease)
    qed
  qed
qed

lemma multi_return_all:
  "multi_ok E B s m Ps \<Longrightarrow> holds s Ps held own \<Longrightarrow>
    \<exists>s' Ps'. return_all E (map fst held) s = Inr s' \<and> multi_ok E B s' m Ps' \<and>
      (\<forall>P \<in> set Ps'. snd (snd P) = [])"
proof (induction held arbitrary: s Ps own)
  case Nil
  then show ?case by (auto simp: holds_def)
next
  case (Cons x held)
  note ok = Cons.prems(1) and h = Cons.prems(2)
  have mem: "mem_ok E (B(m \<mapsto> sizeof_MultiPool)) s Ps" using ok by (simp add: multi_ok_def)
  have l2: "list_all2 (\<lambda>(d, sz) n. d = mn_data s n \<and> unat sz \<le> unat (mp_size s (mn_pool s n))) (x # held) own"
    and own: "mset own = mset (concat (map (snd \<circ> snd) Ps))" using h by (simp_all add: holds_def)
  from l2 obtain n own' where o: "own = n # own'" "fst x = mn_data s n"
    by (auto simp: list_all2_Cons1)
  then have "n \<in> set own" by simp
  then obtain i p ns xs ys where i: "i < length Ps" "Ps ! i = (p, ns, xs @ n # ys)"
    by (rule own_node [OF mem own]) (rule that, assumption+)
  have i': "i < MULTIPOOL_ENTRY_COUNT" using i(1) ok by (simp add: multi_ok_def)
  from multi_return [OF ok i' i(2), of 0] obtain s' where
    s': "pool_mem_return E 0 (mn_data s n) s = Inr s'"
    "multi_ok E B s' m (Ps[i := (p, n # ns, xs @ ys)])" "keeps s s'" .
  have "add_mset n (mset own') = add_mset n (mset (concat (map (snd \<circ> snd) (Ps[i := (p, n # ns, xs @ ys)]))))"
    using outstanding_update [OF i, of "n # ns" "xs @ ys"] own o(1) by simp
  then have "mset own' = mset (concat (map (snd \<circ> snd) (Ps[i := (p, n # ns, xs @ ys)])))"
    by (simp only: add_mset_add_mset_same_iff)
  moreover have "list_all2 (\<lambda>(d, sz) n. d = mn_data s' n \<and> unat sz \<le> unat (mp_size s' (mn_pool s' n)))
      held own'"
    using holds_keeps [OF mem h s'(3)] o(1) by simp
  ultimately have "holds s' (Ps[i := (p, n # ns, xs @ ys)]) held own'" by (simp add: holds_def)
  from Cons.IH [OF s'(2) this] show ?case using s'(1) o(2) by simp
qed

text \<open>The areas a client holds are apart from each other, whichever pools they come from.\<close>

lemma distinct_data_blocks:
  assumes "mem_ok E C s Ps"
  shows "distinct (map (data_block s) (concat (map (snd \<circ> snd) Ps)))"
proof -
  have one: "set (map (data_block s) (snd (snd P))) \<subseteq> set (owned_by s P)" for P
    by (cases P) (auto simp: set_node_blocks)
  have sub: "set (map (data_block s) (concat (map (snd \<circ> snd) Qs))) \<subseteq> set (owned_all s Qs)" for Qs
  proof (induction Qs)
    case (Cons Q Qs)
    then show ?case using one [of Q] by auto
  qed simp
  have "distinct (owned_all s Ps)" using assms by (simp add: mem_ok_def)
  then show ?thesis
  proof (induction Ps)
    case (Cons P Ps)
    obtain p ns os where P: "P = (p, ns, os)" by (cases P)
    have "distinct (node_blocks s os)" using Cons.prems by (simp add: P)
    then have "distinct (map (data_block s) os)"
      by (induction os) (auto simp: set_node_blocks)
    moreover have "set (map (data_block s) os) \<inter> set (map (data_block s) (concat (map (snd \<circ> snd) Ps))) = {}"
      using one [of P] sub [of Ps] Cons.prems unfolding P by (simp only: list.map concat.simps
          distinct_append snd_conv) blast
    ultimately show ?case using Cons by (simp add: P)
  qed simp
qed

lemma held_apart:
  assumes mem: "mem_ok E C s Ps" and h: "holds s Ps held own"
  shows "sorted_wrt (\<lambda>(d, a) (e, b). apart d (unat a) e (unat b)) held"
proof -
  have own: "mset own = mset (concat (map (snd \<circ> snd) Ps))" and
    l2: "list_all2 (\<lambda>(d, sz) n. d = mn_data s n \<and> unat sz \<le> unat (mp_size s (mn_pool s n))) held own"
    using h by (simp_all add: holds_def)
  have heap: "heap_ok (blk s)" using mem by (simp add: mem_ok_def)
  have "mset (map (data_block s) own) = mset (map (data_block s) (concat (map (snd \<circ> snd) Ps)))"
    using own by (simp only: mset_map)
  then have dist: "distinct (map (data_block s) own)"
    using distinct_data_blocks [OF mem] mset_eq_imp_distinct_iff by blast
  have block: "blk s (data_block s n) = Some (unat (mp_size s (mn_pool s n)) + sizeof_ptrdiff_t)"
    "mn_data s n = data_block s n + sizeof_ptrdiff_t" if n: "n \<in> set own" for n
  proof -
    obtain p where p: "node_rep s p n" "mn_pool s n = p"
      by (rule own_node [OF mem own n]) (rule that, assumption+)
    then show "blk s (data_block s n) = Some (unat (mp_size s (mn_pool s n)) + sizeof_ptrdiff_t)"
      "mn_data s n = data_block s n + sizeof_ptrdiff_t"
      by (simp_all add: node_rep_def data_block_def)
  qed
  have "(\<lambda>(d, a) (e, b). apart d (unat a) e (unat b)) (held ! i) (held ! j)"
    if ij: "i < j" "j < length held" for i j
  proof -
    let ?n = "own ! i" and ?m = "own ! j"
    have len: "length own = length held" using l2 by (simp add: list_all2_lengthD)
    have in': "?n \<in> set own" "?m \<in> set own" using ij len by simp_all
    have "data_block s ?n \<noteq> data_block s ?m"
      using dist ij len by (auto simp: distinct_conv_nth)
    then have ap: "apart (data_block s ?n) (unat (mp_size s (mn_pool s ?n)) + sizeof_ptrdiff_t)
        (data_block s ?m) (unat (mp_size s (mn_pool s ?m)) + sizeof_ptrdiff_t)"
      using heap block(1) in' unfolding heap_ok_def by blast
    obtain d a e b where da: "held ! i = (d, a)" "held ! j = (e, b)" by (cases "held ! i"; cases "held ! j")
    have "d = mn_data s ?n" "unat a \<le> unat (mp_size s (mn_pool s ?n))"
      "e = mn_data s ?m" "unat b \<le> unat (mp_size s (mn_pool s ?m))"
      using list_all2_nthD [OF l2, of i] list_all2_nthD [OF l2, of j] ij da by simp_all
    then have "apart d (unat a) e (unat b)"
      using ap block(2) [OF in'(1)] block(2) [OF in'(2)] unfolding apart_def by linarith
    then show ?thesis by (simp add: da)
  qed
  then show ?thesis by (simp add: sorted_wrt_iff_nth_less)
qed

end
