(* ===== verification/MemPool_Properties.thy ===== *)
theory MemPool_Properties
  imports MemPool_Correct
begin

text \<open>
  What the C memory pool guarantees to its clients, for every allocator that keeps the promise
  \<open>malloc_ok\<close> of the C library, whatever calls it lets fail.
\<close>

section \<open>A sample memory\<close>

definition sample_env :: c_env where
  "sample_env = next_fit_env (\<lambda>_. False)"

definition sample_mem :: cmem where
  "sample_mem = snd (alloc_mem_pool sample_env 16 empty_mem)"

lemma sample_env_track: "ce_track sample_env"
  by (simp add: sample_env_def next_fit_env_def)

lemma sample_env_ok: "malloc_ok sample_env"
  by (simp add: sample_env_def next_fit_ok)

lemma empty_mem_ok: "mem_ok E (blk empty_mem) empty_mem []"
  by (simp add: mem_ok_def)

lemma sample_mem_eq: "alloc_mem_pool sample_env 16 empty_mem = (8, sample_mem)"
proof -
  have "fst (alloc_mem_pool sample_env 16 empty_mem) = 8" by code_simp
  then show ?thesis unfolding sample_mem_def by (cases "alloc_mem_pool sample_env 16 empty_mem") simp
qed

lemma sample_mem_ok: "mem_ok sample_env (blk empty_mem) sample_mem [(8, [], [])]"
proof -
  have "(16 :: u32) \<noteq> 0" by simp
  from sample_env_ok empty_mem_ok [of sample_env] this show ?thesis
    by (cases rule: create_pool) (simp_all add: sample_mem_eq)
qed

lemma sample_acquired:
  obtains s n where "pool_mem_acquire sample_env 2 8 sample_mem = Inr (64, s)" "mn_data s n = 64"
    "mem_ok sample_env (blk empty_mem) s [(8, [], [n])]"
proof -
  have e: "case pool_mem_acquire sample_env 2 8 sample_mem of Inl _ \<Rightarrow> False | Inr (d, s) \<Rightarrow> d = 64"
    by code_simp
  have "mem_ok sample_env (blk empty_mem) sample_mem ([] @ (8, [], []) # [])"
    using sample_mem_ok by simp
  from sample_env_ok this show ?thesis
  proof (cases rule: acquire_alloc [where k = 2])
    case (fresh n s)
    with e that [of s n] show ?thesis by simp
  qed (use e in simp)
qed

section \<open>Properties\<close>

text \<open>C9: a pool for blocks of at least one byte, the size that \<open>alloc_mem_pool\<close> asserts, was created
  without \<open>malloc\<close> failing. A client that then acquires and returns blocks in any order, with
  \<open>malloc\<close> failing whenever it likes and exchanges failing spuriously any number of times, never
  fails an assertion, never touches memory that is not live and never frees what is not allocated. The
  blocks it holds do not overlap, and when it has returned them and frees the pool, exactly the
  blocks that were there before are left: nothing leaks.\<close>

theorem mempool_history:
  assumes "malloc_ok E" "heap_ok (blk s0)" "sz \<noteq> 0" "alloc_mem_pool E sz s0 = (p, s1)" "p \<noteq> 0"
  shows "\<exists>s held s2 s3. mp_run E p cs s1 [] = Inr (s, held) \<and>
    sorted_wrt (\<lambda>d e. apart d (unat sz) e (unat sz)) held \<and>
    return_all E held s = Inr s2 \<and> free_mem_pool E p s2 = Inr s3 \<and> blk s3 = blk s0"
proof -
  have ok0: "mem_ok E (blk s0) s0 []" using assms(2) by (simp add: mem_ok_def)
  from assms(1) ok0 assms(3) have ok1: "mem_ok E (blk s0) s1 [(p, [], [])] \<and> mp_size s1 p = sz"
    by (cases rule: create_pool) (use assms(4,5) in simp_all)
  from mp_run_ok [OF assms(1), of "blk s0" s1 p "[]" "[]" cs] ok1 obtain s ns os where
    s: "mp_run E p cs s1 [] = Inr (s, map (mn_data s) os)" "mem_ok E (blk s0) s [(p, ns, os)]"
    "mp_size s p = sz" by auto
  from return_all_ok [OF s(2)] obtain s2 where
    s2: "return_all E (map (mn_data s) os) s = Inr s2" "mem_ok E (blk s0) s2 [(p, rev os @ ns, [])]"
    by blast
  from free_pool_ok [of E "blk s0" s2 "[]" p "rev os @ ns" "[]"] s2(2) obtain s3 where
    s3: "free_mem_pool E p s2 = Inr s3" "mem_ok E (blk s0) s3 []" by auto
  have "blk s3 = blk s0" using s3(2) by (auto simp: mem_ok_def)
  moreover have "sorted_wrt (\<lambda>d e. apart d (unat sz) e (unat sz)) (map (mn_data s) os)"
    using data_areas_apart [of E "blk s0" s "[]" p ns os "[]"] s(2,3) by simp
  ultimately show ?thesis using s(1) s2(1) s3(1) by blast
qed

theorem mempool_history_witness:
  "\<exists>s held s2 s3. mp_run sample_env 8 [Acquire 0, Acquire 3, Release 1 2, Acquire 1] sample_mem [] =
      Inr (s, held) \<and> sorted_wrt (\<lambda>d e. apart d 16 e 16) held \<and>
    return_all sample_env held s = Inr s2 \<and> free_mem_pool sample_env 8 s2 = Inr s3 \<and>
    blk s3 = blk empty_mem"
  using mempool_history [OF sample_env_ok heap_ok_empty _ sample_mem_eq,
      of "[Acquire 0, Acquire 3, Release 1 2, Acquire 1]"] by simp

text \<open>With \<open>TRACK_POOL_USAGE\<close> the counters of a pool are right after any history of a client:
  \<open>num_available\<close> is the number of free nodes, \<open>num_allocs\<close> that of all nodes, and so their
  difference is the number of blocks the client holds, all of them modulo \<open>2 ^ 32\<close>.\<close>

lemma mempool_counters:
  assumes "malloc_ok E" "heap_ok (blk s0)" "sz \<noteq> 0" "alloc_mem_pool E sz s0 = (p, s1)" "p \<noteq> 0"
    "ce_track E"
  shows "\<exists>s held ns. mp_run E p cs s1 [] = Inr (s, held) \<and> chain (mn_next s) (mp_head s p) ns \<and>
    mp_avail s p = of_nat (length ns) \<and> mp_allocs s p = of_nat (length ns + length held) \<and>
    mp_allocs s p - mp_avail s p = of_nat (length held)"
proof -
  have ok0: "mem_ok E (blk s0) s0 []" using assms(2) by (simp add: mem_ok_def)
  from assms(1) ok0 assms(3) have ok1: "mem_ok E (blk s0) s1 [(p, [], [])]"
    by (cases rule: create_pool) (use assms(4,5) in simp_all)
  have "mp_allocs s1 p = 0"
    using assms(4,5) by (auto simp: alloc_mem_pool_def Let_def split: prod.splits if_splits)
  with mp_run_ok [OF assms(1), of "blk s0" s1 p "[]" "[]" cs] ok1 assms(6) obtain s ns os where
    s: "mp_run E p cs s1 [] = Inr (s, map (mn_data s) os)" "mem_ok E (blk s0) s [(p, ns, os)]"
    "mp_allocs s p = of_nat (length ns + length os)" by auto
  have "pool_rep E s (p, ns, os)" using mem_ok_mid(1) [of E "blk s0" s "[]" p ns os "[]"] s(2) by simp
  with s assms(6) show ?thesis
    by (intro exI [of _ s] exI [of _ "map (mn_data s) os"] exI [of _ ns]) simp
qed

text \<open>The blocks that the two calls of \<open>malloc\<close> of \<open>alloc_poolable_mem\<close> give, or 0: for the node,
  and, if that succeeds, for the data with its header.\<close>

definition node_malloc :: "c_env \<Rightarrow> cmem \<Rightarrow> addr" where
  "node_malloc E s = ce_malloc E (calls s) (blocks s) sizeof_MemNode"

definition data_malloc :: "c_env \<Rightarrow> addr \<Rightarrow> cmem \<Rightarrow> addr" where
  "data_malloc E p s =
     ce_malloc E (Suc (calls s)) ((node_malloc E s, sizeof_MemNode) # blocks s)
       (unat (mp_size s p) + sizeof_ptrdiff_t)"

lemma try_alloc_result:
  assumes "pool_mem_try_alloc_data E p s = Inr (d, s')"
  shows "d = (if node_malloc E s = 0 \<or> data_malloc E p s = 0 then 0 else data_malloc E p s + sizeof_ptrdiff_t)"
    "calls s' = (if node_malloc E s = 0 then calls s + 1 else calls s + 2)"
  using assms
  by (auto simp: pool_mem_try_alloc_data_def alloc_poolable_mem_def c_malloc_def c_free_def access_def Let_def
      track_pool_usage_allocs_def node_malloc_def data_malloc_def andThen_eq_Inr split: if_splits)

lemma acquire_empty:
  assumes "mem_ok E B s [(p, [], os)]"
  shows "pool_mem_acquire E k p s = pool_mem_try_alloc_data E p s"
proof -
  have ok: "mem_ok E B s ([] @ (p, [], os) # [])" using assms by simp
  note m = mem_ok_mid [OF ok]
  have "mp_head s p = 0" using m(1) by simp
  then show ?thesis using m(3,4) by (subst pool_mem_acquire_def, subst acquire_loop.simps) simp
qed

text \<open>C31: \<open>pool_mem_acquire\<close> hands out the most recently returned block when there is one,
  without calling \<open>malloc\<close>. Otherwise it calls \<open>malloc\<close> for a node and, if it gets one, for the
  data. The result is \<open>NULL\<close> exactly when one of these calls fails, and then no block is left
  behind; else it is the data behind its header, on a node that did not exist before.\<close>

theorem mempool_acquire:
  assumes "malloc_ok E" "mem_ok E B s [(p, ns, os)]"
  shows "\<exists>d s'. pool_mem_acquire E k p s = Inr (d, s') \<and>
    (case ns of
       n # ns' \<Rightarrow> d = mn_data s n \<and> d \<noteq> 0 \<and> blocks s' = blocks s \<and> calls s' = calls s \<and>
         mem_ok E B s' [(p, ns', n # os)]
     | [] \<Rightarrow>
         calls s' = (if node_malloc E s = 0 then calls s + 1 else calls s + 2) \<and>
         (d = 0 \<longleftrightarrow> node_malloc E s = 0 \<or> data_malloc E p s = 0) \<and>
         (if d = 0 then blk s' = blk s \<and> mem_ok E B s' [(p, [], os)]
          else d = data_malloc E p s + sizeof_ptrdiff_t \<and>
            (\<exists>n. d = mn_data s' n \<and> blk s n = None \<and> mem_ok E B s' [(p, [], n # os)])))"
proof (cases ns)
  case (Cons n ns')
  from acquire_pop [of E B s "[]" p n ns' os "[]" k] assms(2) Cons obtain s' where
    "pool_mem_acquire E k p s = Inr (mn_data s n, s')" "mem_ok E B s' [(p, ns', n # os)]"
    "blocks s' = blocks s" "calls s' = calls s" by auto
  moreover have "mn_data s n \<noteq> 0"
    using data_pointer(2) [of E B s "[]" p ns os "[]" n] assms(2) Cons by simp
  ultimately show ?thesis using Cons by simp
next
  case Nil
  with assms(2) have ok: "mem_ok E B s ([] @ (p, [], os) # [])" by simp
  have run: "pool_mem_acquire E k p s = pool_mem_try_alloc_data E p s"
    using acquire_empty assms(2) Nil by simp
  have pos: "data_malloc E p s + sizeof_ptrdiff_t \<noteq> 0" by (simp add: sizeof_ptrdiff_t_def)
  from assms(1) ok show ?thesis
  proof (cases rule: acquire_alloc [where k = k])
    case (null s')
    with try_alloc_result [OF null(1) [unfolded run]] pos Nil show ?thesis by (auto split: if_splits)
  next
    case (fresh n s')
    have "\<exists>l. mn_data s' n = mn_data s' l \<and> blk s l = None \<and> mem_ok E B s' [(p, [], l # os)]"
      using fresh(3,4) by (intro exI [of _ n]) simp
    then show ?thesis
      using fresh(1,2) try_alloc_result [OF fresh(1) [unfolded run]] pos Nil by (auto split: if_splits)
  qed
qed

theorem mempool_acquire_witness:
  "\<exists>d s' n. pool_mem_acquire sample_env 5 8 sample_mem = Inr (d, s') \<and> d \<noteq> 0 \<and> calls s' = calls sample_mem + 2 \<and>
    d = mn_data s' n \<and> mem_ok sample_env (blk empty_mem) s' [(8, [], [n])]"
proof -
  have m: "node_malloc sample_env sample_mem \<noteq> 0 \<and> data_malloc sample_env 8 sample_mem \<noteq> 0" by code_simp
  from mempool_acquire [OF sample_env_ok sample_mem_ok, of 5] obtain d s' where
    d: "pool_mem_acquire sample_env 5 8 sample_mem = Inr (d, s')" "calls s' = calls sample_mem + 2" "d \<noteq> 0"
      "\<exists>n. d = mn_data s' n \<and> blk sample_mem n = None \<and> mem_ok sample_env (blk empty_mem) s' [(8, [], [n])]"
    using m by auto
  then show ?thesis by blast
qed

text \<open>C32: the pool is last-in first-out: after a block is returned, the next
  \<open>pool_mem_acquire\<close> gives the same block again, calls no \<open>malloc\<close> and leaves the
  pool with the free blocks it had.\<close>

theorem mempool_return_acquire:
  assumes "mem_ok E B s [(p, ns, xs @ n # ys)]"
  shows "\<exists>s1 s2. pool_mem_return E j (mn_data s n) s = Inr s1 \<and>
    pool_mem_acquire E k p s1 = Inr (mn_data s n, s2) \<and> blocks s2 = blocks s \<and>
    calls s2 = calls s \<and> mem_ok E B s2 [(p, ns, n # xs @ ys)]"
proof -
  from return_push [of E B s "[]" p ns xs n ys "[]" j] assms obtain s1 where
    s1: "pool_mem_return E j (mn_data s n) s = Inr s1" "mem_ok E B s1 [(p, n # ns, xs @ ys)]"
    "blocks s1 = blocks s" "calls s1 = calls s" "mn_data s1 = mn_data s" by auto
  from acquire_pop [of E B s1 "[]" p n ns "xs @ ys" "[]" k] s1(2) obtain s2 where
    s2: "pool_mem_acquire E k p s1 = Inr (mn_data s1 n, s2)" "mem_ok E B s2 [(p, ns, n # xs @ ys)]"
    "blocks s2 = blocks s1" "calls s2 = calls s1" by auto
  with s1 show ?thesis by auto
qed

theorem mempool_return_acquire_witness:
  "\<exists>s s1 s2. pool_mem_acquire sample_env 2 8 sample_mem = Inr (64, s) \<and>
    pool_mem_return sample_env 1 64 s = Inr s1 \<and> pool_mem_acquire sample_env 4 8 s1 = Inr (64, s2)"
proof (rule sample_acquired)
  fix s n
  assume s: "pool_mem_acquire sample_env 2 8 sample_mem = Inr (64, s)" "mn_data s n = 64"
    "mem_ok sample_env (blk empty_mem) s [(8, [], [n])]"
  then have "mem_ok sample_env (blk empty_mem) s [(8, [], [] @ n # [])]" by simp
  from mempool_return_acquire [OF this, of 1 4] s show ?thesis by auto
qed

text \<open>C33: \<open>pool_mem_free_all\<close> terminates on every pool and frees exactly the nodes that are in
  the pool with their data: nothing else, in particular no block a client holds, and it can be
  used again afterwards.\<close>

theorem mempool_free_all:
  assumes "mem_ok E B s [(p, ns, os)]"
  shows "\<exists>s'. pool_mem_free_all E p s = Inr s' \<and> mem_ok E B s' [(p, [], os)] \<and>
    (\<forall>a. blk s' a = (if a \<in> set (node_blocks s ns) then None else blk s a))"
proof -
  have ok: "mem_ok E B s ([] @ (p, ns, os) # [])" using assms by simp
  from free_all_ok [OF ok] obtain s' where
    s': "pool_mem_free_all E p s = Inr s'" "mem_ok E B s' [(p, [], os)]" "mn_data s' = mn_data s"
    "mp_size s' = mp_size s" by auto
  have nb: "node_blocks s' os = node_blocks s os"
    by (simp add: node_blocks_def data_block_def s'(3))
  have rep: "pool_rep E s (p, ns, os)" "pool_rep E s' (p, [], os)"
    using mem_ok_mid(1) [OF ok] mem_ok_mid(1) [of E B s' "[]" p "[]" os "[]"] s'(2) by simp_all
  have dist: "distinct (p # node_blocks s ns @ node_blocks s os)" using mem_ok_mid(5) [OF ok] .
  have "blk s' a = (if a \<in> set (node_blocks s ns) then None else blk s a)" for a
  proof (cases "a \<in> set (p # node_blocks s os)")
    case True
    then have "a \<notin> set (node_blocks s ns)" using dist by auto
    moreover have "blk s' a = blk s a"
      using True rep s'(3,4) by (auto simp: set_node_blocks node_rep_def data_block_def)
    ultimately show ?thesis by simp
  next
    case False
    then have "blk s' a = B a" using s'(2) by (simp add: mem_ok_def nb)
    moreover have "if a \<in> set (node_blocks s ns) then B a = None else blk s a = B a"
      using assms False by (auto simp: mem_ok_def split: if_splits)
    ultimately show ?thesis by (simp split: if_splits)
  qed
  with s'(1,2) show ?thesis by blast
qed

theorem mempool_free_all_witness:
  "\<exists>s s1 s'. pool_mem_acquire sample_env 2 8 sample_mem = Inr (64, s) \<and>
    pool_mem_return sample_env 0 64 s = Inr s1 \<and> pool_mem_free_all sample_env 8 s1 = Inr s'"
proof (rule sample_acquired)
  fix s n
  assume s: "pool_mem_acquire sample_env 2 8 sample_mem = Inr (64, s)" "mn_data s n = 64"
    "mem_ok sample_env (blk empty_mem) s [(8, [], [n])]"
  then have "mem_ok sample_env (blk empty_mem) s [(8, [], [] @ n # [])]" by simp
  then obtain s1 where s1: "pool_mem_return sample_env 0 64 s = Inr s1"
    "mem_ok sample_env (blk empty_mem) s1 [(8, [n], [])]"
    using return_push [of sample_env "blk empty_mem" s "[]" 8 "[]" "[]" n "[]" "[]" 0] s(2) by auto
  from mempool_free_all [OF s1(2)] s(1) s1(1) show ?thesis by blast
qed

text \<open>Freeing a pool does not free the blocks its clients still hold, but returning one of
  them afterwards accesses the freed pool.\<close>

lemma mempool_return_after_free:
  assumes "mem_ok E B s [(p, ns, os)]" "n \<in> set os"
  shows "\<exists>s'. free_mem_pool E p s = Inr s' \<and> valid (unat (mp_size s p) + 8) (mn_data s n - 8) s' \<and>
    pool_mem_return E k (mn_data s n) s' = Inl BadAccess"
proof -
  from free_all_ok [of E B s "[]" p ns os "[]"] assms(1) obtain s1 where
    s1: "pool_mem_free_all E p s = Inr s1" "mem_ok E B s1 [(p, [], os)]" and
    keep: "mn_data s1 = mn_data s" "mp_size s1 = mp_size s" by auto
  let ?s' = "s1\<lparr>blocks := AList.delete p (blocks s1)\<rparr>"
  note m = mem_ok_mid [of E B s1 "[]" p "[]" os "[]", simplified, OF s1(2)]
  have "c_free p s1 = Inr ?s'" using m(1,3) by (simp add: c_free_def)
  then have run: "free_mem_pool E p s = Inr ?s'" using m(3) s1(1) by (simp add: free_mem_pool_def)
  from m(1) assms(2) have nrep: "node_rep s1 p n" by simp
  note nv = node_rep_valid [OF m(2) nrep]
  have "p \<noteq> n" "p \<noteq> data_block s1 n" using m(5) assms(2) by (auto simp: set_node_blocks)
  note ne = this
  then have b: "blk ?s' n = blk s1 n" "blk ?s' (data_block s1 n) = blk s1 (data_block s1 n)"
    "blk ?s' p = None" by simp_all
  have "node_rep ?s' p n" by (rule node_rep_cong [OF nrep]) (use ne in simp_all)
  moreover have "heap_ok (blk ?s')" using heap_ok_free [OF m(2)] by simp
  ultimately have "get_memnode_in_data (mn_data s1 n) ?s' = Inr n"
    using get_memnode_ok [of ?s' p n] by simp
  moreover have "valid sizeof_MemNode n ?s'" using nv(2) b(1) by (simp add: valid_def)
  moreover have "return_loop E k p n ?s' = Inl BadAccess"
    using b(3) by (subst return_loop.simps) (simp add: access_def valid_def)
  ultimately have "pool_mem_return E k (mn_data s1 n) ?s' = Inl BadAccess"
    using nrep by (simp add: pool_mem_return_def node_rep_def)
  moreover have "valid (unat (mp_size s p) + 8) (mn_data s n - 8) ?s'"
    using nrep nv(4) b(2) keep
    by (simp add: valid_def node_rep_def data_block_def sizeof_ptrdiff_t_def)
  ultimately show ?thesis using run keep by auto
qed

text \<open>A pool of block size 0 can be created, but its first \<open>pool_mem_acquire\<close> fails
  an assertion.\<close>

lemma mempool_zero_size:
  assumes "alloc_mem_pool E 0 s = (p, s')" "p \<noteq> 0"
  shows "pool_mem_acquire E k p s' = Inl AssertFail"
proof -
  have "blk s' p = Some (sizeof_MemPool E)" "mp_head s' p = 0" "mp_size s' p = 0"
    using assms by (auto simp: alloc_mem_pool_def c_malloc_def Let_def blk_def split: if_splits)
  with assms(2) show ?thesis
    by (subst pool_mem_acquire_def, subst acquire_loop.simps)
      (simp add: valid_def pool_mem_try_alloc_data_def alloc_poolable_mem_def)
qed

end
