(* ===== verification/MultiPool_Properties.thy ===== *)
theory MultiPool_Properties
  imports MultiPool_Correct MemPool_Properties
begin

text \<open>What the multipool guarantees to its clients.\<close>

section \<open>A sample multipool\<close>

lemma sample_multi:
  obtains m s where "multipool_create sample_env empty_mem = Inr (m, s)" "m \<noteq> 0"
    "\<forall>i < MULTIPOOL_ENTRY_COUNT. mu_pools s m i \<noteq> 0"
proof -
  have nonnull: "ce_malloc sample_env c B n \<noteq> 0" for c B n
  proof -
    have "(8 :: nat) \<le> foldr (\<lambda>(p, k) m. max m (p + k)) B 8" by (induction B) auto
    then show ?thesis by (simp add: sample_env_def next_fit_env_def next_fit_def)
  qed
  from sample_env_ok heap_ok_empty show ?thesis
  proof (cases rule: multi_create)
    case (null s')
    have "fst (c_malloc sample_env sizeof_MultiPool empty_mem) \<noteq> 0"
      by (simp only: c_malloc_def Let_def fst_conv) (rule nonnull)
    with null(1) show ?thesis
      by (auto simp: multipool_create_def andThen_eq_Inr split: prod.splits if_splits)
  next
    case (created m s' Qs)
    have "mu_pools s' m i \<noteq> 0" if i: "i < MULTIPOOL_ENTRY_COUNT" for i
      by (rule create_pools [OF created(1,2) i]) (simp add: nonnull)
    with that created(1,2) show ?thesis by blast
  qed
qed

section \<open>Properties\<close>

text \<open>C30: for every 32-bit size but 0, \<open>find_multipool_index_for_size\<close> gives the smallest class
  whose blocks are large enough, and the class exists exactly for sizes up to 4 MB; for size 0
  it gives 23, which is no class.\<close>

theorem find_index_correct:
  "let i = unat (find_multipool_index_for_size sz) in
    if sz = 0 then i = 23
    else unat sz \<le> 2 ^ (9 + i) \<and> (i = 0 \<or> 2 ^ (8 + i) < unat sz) \<and>
      (i < MULTIPOOL_ENTRY_COUNT \<longleftrightarrow> unat sz \<le> 2 ^ 22)"
proof (cases "sz = 0")
  case True
  then show ?thesis by (simp add: find_index_zero)
next
  case False
  then have "0 < unat sz" by (simp add: unat_gt_0)
  with find_index_fits [OF this] find_index_in_range [OF this] False show ?thesis
    by (auto simp: Let_def)
qed

text \<open>A client of a complete multipool that asks for sizes of 1 byte to 4 MB and returns blocks
  in any order never fails, whatever calls of \<open>malloc\<close> fail. The blocks it holds, each as
  large as was asked for, do not overlap, and when it has returned them and frees the multipool,
  exactly the blocks that were there before its creation are left.\<close>

lemma multipool_history:
  assumes "malloc_ok E" "heap_ok (blk s0)" "multipool_create E s0 = Inr (m, s1)" "m \<noteq> 0"
    "\<forall>i < MULTIPOOL_ENTRY_COUNT. mu_pools s1 m i \<noteq> 0" "list_all call_fits cs"
  shows "\<exists>s held s2 s3. mu_run E m cs s1 [] = Inr (s, held) \<and>
    sorted_wrt (\<lambda>(d, a) (e, b). apart d (unat a) e (unat b)) held \<and>
    return_all E (map fst held) s = Inr s2 \<and> multipool_free E m s2 = Inr s3 \<and> blk s3 = blk s0"
proof -
  from multi_create_complete [OF assms(1-5)] obtain Ps where
    Ps: "multi_ok E (blk s0) s1 m Ps" "\<forall>P \<in> set Ps. snd P = ([], [])" .
  have "holds s1 Ps [] []" using Ps(2) by (auto simp: holds_def)
  from mu_run_ok [OF assms(1) Ps(1) this assms(6)] obtain s held Ps' own where
    s: "mu_run E m cs s1 [] = Inr (s, held)" "multi_ok E (blk s0) s m Ps'" "holds s Ps' held own" by blast
  from multi_return_all [OF s(2,3)] obtain s2 Ps2 where
    s2: "return_all E (map fst held) s = Inr s2" "multi_ok E (blk s0) s2 m Ps2"
    "\<forall>P \<in> set Ps2. snd (snd P) = []" by blast
  from multi_free [OF s2(2,3)] obtain s3 where
    "multipool_free E m s2 = Inr s3" "blk s3 = blk s0" .
  moreover have "mem_ok E ((blk s0)(m \<mapsto> sizeof_MultiPool)) s Ps'" using s(2) by (simp add: multi_ok_def)
  note held_apart [OF this s(3)]
  ultimately show ?thesis using s(1) s2(1) by blast
qed

text \<open>A request of 1 byte to 4 MB is served from the pool of its class only, whose blocks are
  the smallest that are large enough; the other pools and what they own do not change. \<open>NULL\<close>
  leaves all pools as they were.\<close>

lemma multipool_acquire:
  assumes "malloc_ok E" "multi_ok E B s m Ps" "size_fits sz" "Ps ! class_of sz = (p, ns, os)"
  shows "\<exists>d s'. multipool_mem_acquire E k m sz s = Inr (d, s') \<and>
    (if d = 0 then multi_ok E B s' m Ps
     else \<exists>n ns'. d = mn_data s' n \<and> mn_pool s' n = p \<and> unat sz \<le> unat (mp_size s' p) \<and>
       (class_of sz = 0 \<or> unat (mp_size s' p) < 2 * unat sz) \<and>
       multi_ok E B s' m (Ps[class_of sz := (p, ns', n # os)]))"
  using assms
proof (cases rule: multi_acquire [where k = k])
  case (null s')
  then show ?thesis by simp
next
  case (block n ns' s')
  note c = class_of_fits [OF assms(3)]
  have "class_of sz = 0 \<or> 2 ^ (9 + class_of sz) < 2 * unat sz"
  proof (cases "class_of sz")
    case (Suc i)
    have "2 ^ (9 + class_of sz) = 2 * (2 :: nat) ^ (8 + class_of sz)"
      by (simp only: add_Suc [symmetric] power_Suc [symmetric]) simp
    then show ?thesis using c(3) Suc by linarith
  qed simp
  with block c(2) show ?thesis
    by (intro exI [of _ "mn_data s' n"] exI [of _ s'] conjI) (simp_all, metis)
qed

text \<open>Size 0 and sizes over 4 MB have no class: the request fails an assertion and touches no
  memory.\<close>

lemma multipool_acquire_out_of_range:
  assumes "m \<noteq> 0" "sz = 0 \<or> 2 ^ 22 < unat sz"
  shows "multipool_mem_acquire E k m sz s = Inl AssertFail"
proof -
  have "\<not> unat (find_multipool_index_for_size sz) < MULTIPOOL_ENTRY_COUNT"
  proof (cases "sz = 0")
    case True
    then show ?thesis by (simp add: find_index_zero MULTIPOOL_ENTRY_COUNT_def)
  next
    case False
    then have "0 < unat sz" by (simp add: unat_gt_0)
    from find_index_in_range [OF this] assms(2) False show ?thesis by simp
  qed
  with assms(1) show ?thesis by (simp add: multipool_mem_acquire_def Let_def)
qed

text \<open>\<open>multipool_create\<close> does not notice that one of its pools could not be allocated: it
  returns a multipool whose entry is \<open>NULL\<close>. Requests of that class then fail an assertion
  instead of returning \<open>NULL\<close>, and so does freeing the multipool.\<close>

lemma multipool_create_unchecked:
  assumes "malloc_ok E" "heap_ok (blk s)" "multipool_create E s = Inr (m, s')" "m \<noteq> 0"
    "i < MULTIPOOL_ENTRY_COUNT" "mu_pools s' m i = 0"
  shows "multipool_free E m s' = Inl AssertFail \<and>
    (unat (find_multipool_index_for_size sz) = i \<longrightarrow>
      multipool_mem_acquire E k m sz s' = Inl AssertFail)"
  using assms(1,2)
proof (cases rule: multi_create)
  case (null s'')
  then show ?thesis using assms(3,4) by simp
next
  case (created m' s'' Qs)
  have eq: "m' = m" "s'' = s'" using created(1) assms(3) by simp_all
  have C: "((blk s)(m \<mapsto> sizeof_MultiPool)) m = Some sizeof_MultiPool" by simp
  note mem = created(4) [unfolded eq]
  have "multipool_free_loop E m 0 s' = Inl AssertFail"
    using created(5,6) assms(5,6) unfolding eq
    by (intro free_loop_missing [OF mem assms(4) C, of 0 i]) simp_all
  moreover have "valid sizeof_MultiPool m s'" using mem_ok_valid [OF mem C assms(4)] by blast
  ultimately show ?thesis
    using assms(4-6)
    by (simp add: multipool_free_def multipool_mem_acquire_def pool_mem_acquire_def Let_def)
qed

text \<open>\<open>global_multipool_free\<close> leaves the global pointer as it was, so the assertion of
  \<open>global_multipool_mem_acquire\<close> does not catch a use after it: the freed multipool is
  accessed.\<close>

lemma global_use_after_free:
  assumes "multi_ok E B s g Ps" "\<forall>P \<in> set Ps. snd (snd P) = []" "size_fits sz"
  shows "\<exists>s'. global_multipool_free E (g, s) = Inr (g, s') \<and> g \<noteq> 0 \<and>
    global_multipool_mem_acquire E k sz (g, s') = Inl BadAccess"
proof -
  from multi_free [OF assms(1,2)] obtain s' where s': "multipool_free E g s = Inr s'" "blk s' = B" .
  have g: "g \<noteq> 0" "B g = None" using assms(1) by (simp_all add: multi_ok_def)
  have "multipool_mem_acquire E k g sz s' = Inl BadAccess"
    using g s'(2) class_of_fits(1) [OF assms(3)]
    by (simp add: multipool_mem_acquire_def Let_def access_def valid_def class_of_def)
  with s'(1) g(1) show ?thesis
    by (simp add: global_multipool_free_def global_multipool_mem_acquire_def)
qed

end
