(* ===== verification/MemPool_Fuzz.thy ===== *)
theory MemPool_Fuzz
  imports MultiPool_Properties
begin

text \<open>
  The fuzz program \<open>simple_pool/dyn_mem_pool_fuzz.c\<close> of the C pools, as far as it uses one
  thread. When \<open>malloc\<close> never fails each of its functions runs to its end without a failing
  assertion or a bad access and leaves no block behind. The calls that print are left out.
\<close>

section \<open>The program\<close>

fun c_for :: "'i list \<Rightarrow> ('i \<Rightarrow> 's \<Rightarrow> c_error + 's) \<Rightarrow> 's \<Rightarrow> c_error + 's" where
  "c_for [] body s = Inr s"
| "c_for (i # is) body s = andThen (body i s) (c_for is body)"

definition fuzz_sizes :: "u32 list" where
  "fuzz_sizes = [64, 512, 1024, 16384, 65536, 524288, 1048576]"

definition alloc_free_runs :: nat where
  "alloc_free_runs = 20000"

text \<open>The local variable \<open>pool\<close> is the struct at \<open>&pool\<close>.\<close>

definition fuzz_alloc_free_poolable_mem :: "c_env \<Rightarrow> addr \<Rightarrow> cmem \<Rightarrow> c_error + cmem" where
  "fuzz_alloc_free_poolable_mem E pool =
     c_for [0..<alloc_free_runs] (\<lambda>i. c_for [0..<length fuzz_sizes] (\<lambda>s_index s.
       access (sizeof_MemPool E) pool s
        (andThen (alloc_poolable_mem E pool (s\<lparr>mp_size := (mp_size s)(pool := fuzz_sizes ! s_index)\<rparr>))
          (\<lambda>(node, s'). free_poolable_mem node s'))))"

definition alloc_size :: u32 where
  "alloc_size = 773"

definition mem_count :: nat where
  "mem_count = 113"

definition fuzz_runs :: nat where
  "fuzz_runs = 97"

text \<open>\<open>acquired_mem\<close> is a function from its indices. \<open>spurious run i\<close> is how often an exchange
  fails spuriously in that round.\<close>

type_synonym fuzz_state = "(nat \<Rightarrow> addr) \<times> cmem"

definition acquire_into :: "c_env \<Rightarrow> nat \<Rightarrow> addr \<Rightarrow> nat \<Rightarrow> fuzz_state \<Rightarrow> c_error + fuzz_state" where
  "acquire_into E k pool i = (\<lambda>(acquired_mem, s).
     andThen (pool_mem_acquire E k pool s) (\<lambda>(d, s'). Inr (acquired_mem(i := d), s')))"

definition return_from :: "c_env \<Rightarrow> nat \<Rightarrow> nat \<Rightarrow> fuzz_state \<Rightarrow> c_error + fuzz_state" where
  "return_from E k i = (\<lambda>(acquired_mem, s).
     andThen (pool_mem_return E k (acquired_mem i) s) (\<lambda>s'. Inr (acquired_mem, s')))"

definition acquire_return_run ::
    "c_env \<Rightarrow> (nat \<Rightarrow> nat \<Rightarrow> nat) \<Rightarrow> addr \<Rightarrow> nat \<Rightarrow> fuzz_state \<Rightarrow> c_error + fuzz_state" where
  "acquire_return_run E spurious pool run x =
     andThen (c_for [0..<mem_count] (\<lambda>i x.
         andThen (acquire_into E (spurious run i) pool i x) (\<lambda>x.
         andThen (return_from E (spurious run i) i x) (acquire_into E (spurious run i) pool i))) x) (\<lambda>x.
     andThen (c_for [0..<mem_count] (\<lambda>i. return_from E (spurious run i) i) x) (\<lambda>x.
     andThen (c_for [0..<mem_count] (\<lambda>i. acquire_into E (spurious run i) pool i) x)
       (c_for [0..<mem_count] (\<lambda>i. return_from E (spurious run i) i))))"

definition fuzz_acquire_release_single_threaded ::
    "c_env \<Rightarrow> (nat \<Rightarrow> nat \<Rightarrow> nat) \<Rightarrow> (nat \<Rightarrow> addr) \<Rightarrow> cmem \<Rightarrow> c_error + cmem" where
  "fuzz_acquire_release_single_threaded E spurious acquired_mem s =
     (case alloc_mem_pool E alloc_size s of (pool, s1) \<Rightarrow>
        andThen (c_for [0..<fuzz_runs] (acquire_return_run E spurious pool) (acquired_mem, s1))
          (\<lambda>(_, s2). free_mem_pool E pool s2))"

definition size_window :: int where
  "size_window = 64"

definition max_bits :: nat where
  "max_bits = MULTIPOOL_ENTRY_COUNT + DynPoolMinMultiPoolMemNodeSizeBits - 1"

definition window_size :: "nat \<Rightarrow> int \<Rightarrow> u32" where
  "window_size bit_count window_val = word_of_int (2 ^ bit_count + window_val)"

definition fuzz_acquire_release_multipool ::
    "c_env \<Rightarrow> (nat \<Rightarrow> int \<Rightarrow> nat) \<Rightarrow> cmem \<Rightarrow> c_error + cmem" where
  "fuzz_acquire_release_multipool E spurious s =
     andThen (multipool_create E s) (\<lambda>(multipool, s1).
     andThen (c_for [DynPoolMinMultiPoolMemNodeSizeBits..<max_bits] (\<lambda>bit_count.
         c_for [- size_window .. size_window - 1] (\<lambda>window_val s.
           andThen (multipool_mem_acquire E (spurious bit_count window_val) multipool
               (window_size bit_count window_val) s) (\<lambda>(d, s').
             pool_mem_return E (spurious bit_count window_val) d s'))) s1)
       (multipool_free E multipool))"

section \<open>Loops\<close>

lemma c_for_all:
  assumes "\<And>i s. i \<in> set is \<Longrightarrow> I s \<Longrightarrow> \<exists>s'. body i s = Inr s' \<and> I s'" "I s"
  shows "\<exists>s'. c_for is body s = Inr s' \<and> I s'"
  using assms
proof (induction "is" arbitrary: s)
  case (Cons i "is")
  from Cons.prems(1) [of i s] Cons.prems(2) obtain s1 where "body i s = Inr s1" "I s1" by auto
  with Cons.IH [of s1] Cons.prems(1) show ?case by auto
qed simp

lemma c_for_upto:
  assumes "\<And>i s. i < n \<Longrightarrow> I i s \<Longrightarrow> \<exists>s'. body i s = Inr s' \<and> I (Suc i) s'" "I 0 s"
  shows "\<exists>s'. c_for [0..<n] body s = Inr s' \<and> I n s'"
proof -
  have "\<exists>s'. c_for [m..<m + k] body s = Inr s' \<and> I (m + k) s'" if "I m s" "m + k = n" for m k s
    using that
  proof (induction k arbitrary: m s)
    case (Suc k)
    with assms(1) [of m s] obtain s1 where "body m s = Inr s1" "I (Suc m) s1" by auto
    moreover have "[m..<m + Suc k] = m # [Suc m..<Suc m + k]" "m + Suc k = Suc m + k"
      using upt_conv_Cons [of m "m + Suc k"] by simp_all
    ultimately show ?case using Suc.IH [of "Suc m" s1] Suc.prems(2) by (simp only:) simp
  qed simp
  from this [of 0 s n] assms(2) show ?thesis by simp
qed

section \<open>An allocator that never fails\<close>

definition never_null :: "c_env \<Rightarrow> bool" where
  "never_null E \<longleftrightarrow> (\<forall>c B n. ce_malloc E c B n \<noteq> 0)"

lemma sample_never_null: "never_null sample_env"
proof -
  have "(8 :: nat) \<le> foldr (\<lambda>(p, k) m. max m (p + k)) B 8" for B by (induction B) auto
  then have "foldr (\<lambda>(p, k) m. max m (p + k)) B (8 :: nat) \<noteq> 0" for B by (metis not_numeral_le_zero)
  then show ?thesis by (simp add: never_null_def sample_env_def next_fit_env_def next_fit_def)
qed

lemma malloc_block: "never_null E \<Longrightarrow> c_malloc E n s = (q, s') \<Longrightarrow> q \<noteq> 0"
  by (auto simp: never_null_def c_malloc_def Let_def)

lemma alloc_node:
  assumes "never_null E" "alloc_poolable_mem E p s = Inr (n, s')"
  shows "n \<noteq> 0"
  using assms(2)
  by (auto simp: alloc_poolable_mem_def Let_def access_def andThen_eq_Inr
      dest: malloc_block [OF assms(1)] split: prod.splits if_splits)

lemma try_alloc_data:
  assumes "never_null E" "pool_mem_try_alloc_data E p s = Inr (d, s')"
  shows "\<exists>n s1. n \<noteq> 0 \<and> alloc_poolable_mem E p s = Inr (n, s1) \<and> d = mn_data s1 n"
proof -
  from assms(2) obtain n s1 where n: "alloc_poolable_mem E p s = Inr (n, s1)"
    by (auto simp: pool_mem_try_alloc_data_def andThen_eq_Inr split: if_splits)
  have "n \<noteq> 0" by (rule alloc_node [OF assms(1) n])
  with n assms(2) show ?thesis
    by (auto simp: pool_mem_try_alloc_data_def andThen_eq_Inr track_pool_usage_allocs_def access_def
        split: if_splits)
qed

lemma try_alloc_not_null:
  assumes E: "malloc_ok E" "never_null E" and ok: "mem_ok E B s (As @ (p, ns, os) # Bs)"
    and d: "pool_mem_try_alloc_data E p s = Inr (d, s')"
  shows "d \<noteq> 0"
proof -
  note m = mem_ok_mid [OF ok]
  have "mp_size s p \<noteq> 0" using m(1) by simp
  from try_alloc_data [OF E(2) d] obtain n s1 where
    n: "n \<noteq> 0" "alloc_poolable_mem E p s = Inr (n, s1)" "d = mn_data s1 n" by auto
  from E(1) m(2,3,4) \<open>mp_size s p \<noteq> 0\<close> show ?thesis
  proof (cases rule: alloc_poolable_cases)
    case (fresh n' d)
    then show ?thesis using n by (simp add: fresh_node_def sizeof_ptrdiff_t_def)
  qed (use n in simp)
qed

lemma acquire_block:
  assumes E: "malloc_ok E" "never_null E" and ok: "mem_ok E B s (As @ (p, ns, os) # Bs)"
  obtains n ns' s' where "pool_mem_acquire E k p s = Inr (mn_data s' n, s')" "mn_data s' n \<noteq> 0"
    "mem_ok E B s' (As @ (p, ns', n # os) # Bs)" "keeps s s'"
  using E(1) ok
proof (cases rule: acquire_any [where k = k])
  case (null s')
  note m = mem_ok_mid [OF ok]
  show ?thesis
  proof (cases ns)
    case Nil
    have "mp_head s p = 0" using m(1) Nil by simp
    then have "pool_mem_try_alloc_data E p s = Inr (0, s')"
      using null(1) m(3,4) by (simp add: pool_mem_acquire_def acquire_loop.simps)
    from try_alloc_not_null [OF E ok this] show ?thesis by simp
  next
    case (Cons n ns')
    have ok': "mem_ok E B s (As @ (p, n # ns', os) # Bs)" using ok Cons by simp
    from acquire_pop [OF this, of k] null(1) data_pointer(2) [OF ok', of n] show ?thesis by auto
  qed
qed (rule that)

section \<open>Allocating and freeing nodes\<close>

lemma free_fresh:
  assumes n: "n \<noteq> 0" "d \<noteq> 0" "n \<noteq> d" "blk s n = None" "blk s d = None"
  shows "\<exists>s'. free_poolable_mem n (fresh_node E p n d s) = Inr s' \<and> blk s' = blk s \<and> mp_size s' = mp_size s"
proof -
  let ?s = "fresh_node E p n d s"
  have v: "valid sizeof_MemNode n ?s" using n by (simp add: valid_def fresh_node_blk)
  let ?s1 = "?s\<lparr>blocks := AList.delete d (blocks ?s)\<rparr>"
  have f1: "c_free d ?s = Inr ?s1" using n by (simp add: c_free_def fresh_node_blk)
  have b1: "blk ?s1 = (blk s)(n \<mapsto> sizeof_MemNode)"
    using n(3,5) by (auto simp: fresh_node_blk fun_eq_iff)
  let ?s2 = "?s1\<lparr>blocks := AList.delete n (blocks ?s1)\<rparr>"
  have f2: "c_free n ?s1 = Inr ?s2" using n(1) b1 by (simp add: c_free_def)
  have "blk ?s2 = (blk ?s1)(n := None)" by (simp only: blk_update)
  then have "blk ?s2 = blk s" unfolding b1 using n(4) by (auto simp: fun_eq_iff)
  moreover have "free_poolable_mem n ?s = Inr ?s2"
    using n(1) v f1 f2 by (simp add: free_poolable_mem_def Let_def fresh_node_def sizeof_ptrdiff_t_def)
  ultimately show ?thesis by (auto simp: fresh_node_def)
qed

lemma alloc_free_round:
  assumes E: "malloc_ok E" "never_null E" and heap: "heap_ok (blk s)"
    and p: "p \<noteq> 0" "valid (sizeof_MemPool E) p s" "sz \<noteq> 0"
  shows "\<exists>s'. access (sizeof_MemPool E) p s
      (andThen (alloc_poolable_mem E p (s\<lparr>mp_size := (mp_size s)(p := sz)\<rparr>))
        (\<lambda>(node, s'). free_poolable_mem node s')) = Inr s' \<and> blk s' = blk s"
proof -
  let ?s = "s\<lparr>mp_size := (mp_size s)(p := sz)\<rparr>"
  have pre: "heap_ok (blk ?s)" "valid (sizeof_MemPool E) p ?s" "mp_size ?s p \<noteq> 0"
    using heap p by (simp_all add: valid_def)
  from E(1) pre(1) p(1) pre(2,3) show ?thesis
  proof (cases rule: alloc_poolable_cases)
    case (null s')
    with alloc_node [OF E(2) null(1)] show ?thesis by simp
  next
    case (fresh n d)
    with free_fresh [of n d ?s E p] p(2) show ?thesis by auto
  qed
qed

section \<open>Acquiring into the array and returning from it\<close>

text \<open>The blocks in the array, from \<open>i\<close> to \<open>j\<close>, are those the pool has given out, the last one
  first.\<close>

definition array_holds ::
    "c_env \<Rightarrow> (addr \<rightharpoonup> nat) \<Rightarrow> addr \<Rightarrow> nat \<Rightarrow> nat \<Rightarrow> fuzz_state \<Rightarrow> bool" where
  "array_holds E B p i j = (\<lambda>(acq, s).
     \<exists>ns os. mem_ok E B s [(p, ns, os)] \<and> map acq [i..<j] = map (mn_data s) (rev os))"

lemma array_acquire:
  assumes E: "malloc_ok E" "never_null E" and x: "array_holds E B p 0 i x"
  shows "\<exists>x'. acquire_into E k p i x = Inr x' \<and> array_holds E B p 0 (Suc i) x'"
proof -
  obtain acq s ns os where s: "x = (acq, s)" "mem_ok E B s ([] @ (p, ns, os) # [])"
    "map acq [0..<i] = map (mn_data s) (rev os)"
    using x by (cases x) (auto simp: array_holds_def)
  obtain n ns' s' where
    s': "pool_mem_acquire E k p s = Inr (mn_data s' n, s')" "mem_ok E B s' ([] @ (p, ns', n # os) # [])"
    "keeps s s'" by (rule acquire_block [OF E s(2)])
  have "map (mn_data s') os = map (mn_data s) os"
    using live_node [OF s(2)] s'(3) by (auto simp: keeps_def)
  then have "map (mn_data s') (rev os) = map acq [0..<i]" by (simp add: s(3) rev_map [symmetric])
  then have "map (acq(i := mn_data s' n)) [0..<Suc i] = map (mn_data s') (rev (n # os))" by simp
  moreover have "mem_ok E B s' [(p, ns', n # os)]" using s'(2) by simp
  ultimately have "array_holds E B p 0 (Suc i) (acq(i := mn_data s' n), s')"
    unfolding array_holds_def by blast
  then show ?thesis using s'(1) s(1) by (simp add: acquire_into_def)
qed

lemma array_return:
  assumes x: "array_holds E B p i j x" and i: "i < j"
  shows "\<exists>x'. return_from E k i x = Inr x' \<and> array_holds E B p (Suc i) j x'"
proof -
  obtain acq s ns os where s: "x = (acq, s)" "mem_ok E B s [(p, ns, os)]"
    "map acq [i..<j] = map (mn_data s) (rev os)"
    using x by (cases x) (auto simp: array_holds_def)
  have "[i..<j] = i # [Suc i..<j]" using i by (rule upt_conv_Cons)
  with s(3) have split: "acq i # map acq [Suc i..<j] = map (mn_data s) (rev os)" by simp
  then have "os \<noteq> []" by auto
  then obtain xs n where os: "os = xs @ [n]" by (cases os rule: rev_cases) auto
  from return_push [of E B s "[]" p ns xs n "[]" "[]" k] s(2) os obtain s' where
    s': "pool_mem_return E k (mn_data s n) s = Inr s'" "mem_ok E B s' [(p, n # ns, xs)]"
    "mn_data s' = mn_data s" by auto
  have "map acq [Suc i..<j] = map (mn_data s') (rev xs)" using split os s'(3) by simp
  with s'(2) have "array_holds E B p (Suc i) j (acq, s')" unfolding array_holds_def by blast
  then show ?thesis using s'(1) split os s(1) by (simp add: return_from_def)
qed

lemma array_return_last:
  assumes x: "array_holds E B p 0 (Suc i) x"
  shows "\<exists>x'. return_from E k i x = Inr x' \<and> array_holds E B p 0 i x'"
proof -
  obtain acq s ns os where s: "x = (acq, s)" "mem_ok E B s [(p, ns, os)]"
    "map acq [0..<Suc i] = map (mn_data s) (rev os)"
    using x by (cases x) (auto simp: array_holds_def)
  then obtain n os' where os: "os = n # os'" by (cases os) auto
  with s(3) have split: "acq i = mn_data s n" "map acq [0..<i] = map (mn_data s) (rev os')" by simp_all
  from return_push [of E B s "[]" p ns "[]" n os' "[]" k] s(2) os obtain s' where
    s': "pool_mem_return E k (mn_data s n) s = Inr s'" "mem_ok E B s' [(p, n # ns, os')]"
    "mn_data s' = mn_data s" by auto
  have "map acq [0..<i] = map (mn_data s') (rev os')" using split s'(3) by simp
  with s'(2) have "array_holds E B p 0 i (acq, s')" unfolding array_holds_def by blast
  then show ?thesis using s'(1) split s(1) by (simp add: return_from_def)
qed

lemma array_empty: "array_holds E B p i i x \<longleftrightarrow> (\<exists>ns. mem_ok E B (snd x) [(p, ns, [])])"
  by (cases x) (auto simp: array_holds_def)

lemma run_ok:
  assumes E: "malloc_ok E" "never_null E" and x: "array_holds E B p 0 0 x"
  shows "\<exists>x'. acquire_return_run E spurious p run x = Inr x' \<and> array_holds E B p 0 0 x'"
proof -
  have round1: "\<exists>y. andThen (acquire_into E (spurious run i) p i x) (\<lambda>x.
      andThen (return_from E (spurious run i) i x) (acquire_into E (spurious run i) p i)) = Inr y \<and>
      array_holds E B p 0 (Suc i) y" if "array_holds E B p 0 i x" for i x
  proof -
    from array_acquire [OF E that] obtain x1 where
      x1: "acquire_into E (spurious run i) p i x = Inr x1" "array_holds E B p 0 (Suc i) x1" by blast
    from array_return_last [OF x1(2)] obtain x2 where
      x2: "return_from E (spurious run i) i x1 = Inr x2" "array_holds E B p 0 i x2" by blast
    from array_acquire [OF E x2(2)] x1(1) x2(1) show ?thesis by simp
  qed
  have "\<exists>x1. c_for [0..<mem_count] (\<lambda>i x. andThen (acquire_into E (spurious run i) p i x) (\<lambda>x.
      andThen (return_from E (spurious run i) i x) (acquire_into E (spurious run i) p i))) x = Inr x1 \<and>
      array_holds E B p 0 mem_count x1"
    by (rule c_for_upto [where I = "array_holds E B p 0"]) (use round1 x in simp_all)
  then obtain x1 where
    x1: "c_for [0..<mem_count] (\<lambda>i x. andThen (acquire_into E (spurious run i) p i x) (\<lambda>x.
      andThen (return_from E (spurious run i) i x) (acquire_into E (spurious run i) p i))) x = Inr x1"
      "array_holds E B p 0 mem_count x1" by blast
  have given: "\<exists>y. c_for [0..<mem_count] (\<lambda>i. return_from E (spurious run i) i) x = Inr y \<and>
      array_holds E B p mem_count mem_count y" if "array_holds E B p 0 mem_count x" for x
    by (rule c_for_upto [where I = "\<lambda>i. array_holds E B p i mem_count"]) (use array_return that in simp_all)
  from given [OF x1(2)] obtain x2 where
    x2: "c_for [0..<mem_count] (\<lambda>i. return_from E (spurious run i) i) x1 = Inr x2"
      "array_holds E B p mem_count mem_count x2" by blast
  then have "array_holds E B p 0 0 x2" by (simp add: array_empty)
  then have "\<exists>x3. c_for [0..<mem_count] (\<lambda>i. acquire_into E (spurious run i) p i) x2 = Inr x3 \<and>
      array_holds E B p 0 mem_count x3"
    by (intro c_for_upto [where I = "array_holds E B p 0"] array_acquire [OF E])
  then obtain x3 where x3: "c_for [0..<mem_count] (\<lambda>i. acquire_into E (spurious run i) p i) x2 = Inr x3"
    "array_holds E B p 0 mem_count x3" by blast
  from given [OF x3(2)] show ?thesis
    using x1(1) x2(1) x3(1) by (auto simp: acquire_return_run_def array_empty)
qed

section \<open>The multipool\<close>

lemma window_fits:
  assumes "bit_count \<in> set [DynPoolMinMultiPoolMemNodeSizeBits..<max_bits]"
    "window_val \<in> set [- size_window .. size_window - 1]"
  shows "size_fits (window_size bit_count window_val)"
proof -
  have b: "9 \<le> bit_count" "bit_count \<le> 21" and w: "-64 \<le> window_val" "window_val < 64"
    using assms unfolding set_upt set_upto atLeastLessThan_iff atLeastAtMost_iff
    by (simp_all add: DynPoolMinMultiPoolMemNodeSizeBits_def max_bits_def MULTIPOOL_ENTRY_COUNT_def
        size_window_def)
  have "(2 :: int) ^ 9 \<le> 2 ^ bit_count" by (rule power_increasing [OF b(1)]) simp
  then have lo: "0 < 2 ^ bit_count + window_val" using w(1) by simp
  have "(2 :: int) ^ bit_count \<le> 2 ^ 21" by (rule power_increasing [OF b(2)]) simp
  then have hi: "2 ^ bit_count + window_val \<le> 2 ^ 22" using w(2) by simp
  then have "2 ^ bit_count + window_val < 2 ^ 32" by simp
  moreover have "uint (word_of_int x :: u32) = x" if "0 < x" "x < 2 ^ 32" for x
    using that by (simp add: uint_word_of_int)
  ultimately have "uint (window_size bit_count window_val) = 2 ^ bit_count + window_val"
    using lo unfolding window_size_def by blast
  then show ?thesis using lo hi by (simp add: size_fits_def unat_eq_nat_uint nat_le_iff)
qed

definition all_returned :: "c_env \<Rightarrow> (addr \<rightharpoonup> nat) \<Rightarrow> addr \<Rightarrow> cmem \<Rightarrow> bool" where
  "all_returned E B m s \<longleftrightarrow> (\<exists>Ps. multi_ok E B s m Ps \<and> (\<forall>P \<in> set Ps. snd (snd P) = []))"

lemma acquire_return_window:
  assumes E: "malloc_ok E" "never_null E" and ok: "all_returned E B m s" and sz: "size_fits sz"
  shows "\<exists>s'. andThen (multipool_mem_acquire E k m sz s) (\<lambda>(d, s'). pool_mem_return E k d s') = Inr s' \<and>
    all_returned E B m s'"
proof -
  obtain Ps where Ps: "multi_ok E B s m Ps" "\<forall>P \<in> set Ps. snd (snd P) = []"
    using ok by (auto simp: all_returned_def)
  have c: "class_of sz < length Ps" "class_of sz < MULTIPOOL_ENTRY_COUNT"
    using class_of_fits(1) [OF sz] Ps(1) by (simp_all add: multi_ok_def)
  obtain p ns where P: "Ps ! class_of sz = (p, ns, [])"
    using Ps(2) nth_mem [OF c(1)] by (metis prod.collapse)
  from E(1) Ps(1) sz P show ?thesis
  proof (cases rule: multi_acquire [where k = k])
    case (null s')
    have "mem_ok E (B(m \<mapsto> sizeof_MultiPool)) s (take (class_of sz) Ps @ (p, ns, []) # drop (Suc (class_of sz)) Ps)"
      using Ps(1) P id_take_nth_drop [OF c(1)] by (simp add: multi_ok_def)
    from acquire_block [OF E this, of k] obtain d s2 where "pool_mem_acquire E k p s = Inr (d, s2)" "d \<noteq> 0"
      by blast
    moreover have "mu_pools s m (class_of sz) = p" using Ps(1) c(2) P by (simp add: multi_ok_def)
    ultimately show ?thesis
      using null(1) by (auto simp: multipool_mem_acquire_def class_of_def access_def Let_def split: if_splits)
  next
    case (block n ns' s')
    have "Ps[class_of sz := (p, ns', [n])] ! class_of sz = (p, ns', [] @ n # [])" using c(1) by simp
    from multi_return [OF block(3) c(2) this, of k] obtain s2 where
      s2: "pool_mem_return E k (mn_data s' n) s' = Inr s2"
      "multi_ok E B s2 m (Ps[class_of sz := (p, n # ns', [])])" by auto
    have "\<forall>P \<in> set (Ps[class_of sz := (p, n # ns', [])]). snd (snd P) = []"
      using Ps(2) set_update_subset_insert [of Ps "class_of sz" "(p, n # ns', [])"] by auto
    then have "all_returned E B m s2" using s2(2) unfolding all_returned_def by blast
    then show ?thesis using block(1) s2(1) by simp
  qed
qed

section \<open>The three functions\<close>

lemma pool_allocated: "never_null E \<Longrightarrow> alloc_mem_pool E sz s = (p, s') \<Longrightarrow> p \<noteq> 0"
  by (auto simp: alloc_mem_pool_def Let_def dest: malloc_block split: prod.splits if_splits)

lemma multipool_allocated: "never_null E \<Longrightarrow> multipool_create E s = Inr (m, s') \<Longrightarrow> m \<noteq> 0"
  by (auto simp: multipool_create_def andThen_eq_Inr dest: malloc_block split: prod.splits if_splits)

lemma alloc_free_ok:
  assumes E: "malloc_ok E" "never_null E" and heap: "heap_ok (blk s)"
    and p: "pool \<noteq> 0" "valid (sizeof_MemPool E) pool s"
  shows "\<exists>s'. fuzz_alloc_free_poolable_mem E pool s = Inr s' \<and> blk s' = blk s"
  unfolding fuzz_alloc_free_poolable_mem_def
proof (intro c_for_all [where I = "\<lambda>t. blk t = blk s"])
  fix j t assume j: "j \<in> set [0..<length fuzz_sizes]" and t: "blk t = blk s"
  have "list_all (\<lambda>z. z \<noteq> 0) fuzz_sizes" by (simp add: fuzz_sizes_def)
  then have sz: "fuzz_sizes ! j \<noteq> 0" using j by (simp add: list_all_length)
  have "heap_ok (blk t)" "valid (sizeof_MemPool E) pool t" using heap p(2) t by (simp_all add: valid_def)
  from alloc_free_round [OF E this(1) p(1) this(2) sz] t
  show "\<exists>s'. access (sizeof_MemPool E) pool t
      (andThen (alloc_poolable_mem E pool (t\<lparr>mp_size := (mp_size t)(pool := fuzz_sizes ! j)\<rparr>))
        (\<lambda>(node, s'). free_poolable_mem node s')) = Inr s' \<and> blk s' = blk s" by simp
qed simp_all

lemma single_threaded_ok:
  assumes E: "malloc_ok E" "never_null E" and heap: "heap_ok (blk s)"
  shows "\<exists>s'. fuzz_acquire_release_single_threaded E spur acq s = Inr s' \<and> blk s' = blk s"
proof -
  obtain p s1 where new: "alloc_mem_pool E alloc_size s = (p, s1)" by (cases "alloc_mem_pool E alloc_size s")
  have ok0: "mem_ok E (blk s) s []" and sz: "alloc_size \<noteq> 0"
    using heap by (simp_all add: mem_ok_def alloc_size_def)
  from E(1) ok0 sz have "mem_ok E (blk s) s1 [(p, [], [])]"
    by (cases rule: create_pool) (use new pool_allocated [OF E(2) new] in simp_all)
  then have "array_holds E (blk s) p 0 0 (acq, s1)" by (auto simp: array_empty)
  then have "\<exists>x. c_for [0..<fuzz_runs] (acquire_return_run E spur p) (acq, s1) = Inr x \<and>
      array_holds E (blk s) p 0 0 x"
    by (intro c_for_all run_ok [OF E])
  then obtain acq' s2 ns where s2: "c_for [0..<fuzz_runs] (acquire_return_run E spur p) (acq, s1) = Inr (acq', s2)"
    "mem_ok E (blk s) s2 [(p, ns, [])]" by (auto simp: array_empty)
  from free_pool_ok [of E "blk s" s2 "[]" p ns "[]"] s2(2) obtain s3 where
    s3: "free_mem_pool E p s2 = Inr s3" "mem_ok E (blk s) s3 []" by auto
  have "blk s3 = blk s" using s3(2) by (auto simp: mem_ok_def)
  then show ?thesis using new s2(1) s3(1) by (simp add: fuzz_acquire_release_single_threaded_def)
qed

lemma multipool_fuzz_ok:
  assumes E: "malloc_ok E" "never_null E" and heap: "heap_ok (blk s)"
  shows "\<exists>s'. fuzz_acquire_release_multipool E spur s = Inr s' \<and> blk s' = blk s"
  using E(1) heap
proof (cases rule: multi_create)
  case (null s1)
  with multipool_allocated [OF E(2) null(1)] show ?thesis by simp
next
  case (created m s1 Qs)
  have "mu_pools s1 m i \<noteq> 0" if i: "i < MULTIPOOL_ENTRY_COUNT" for i
    by (rule create_pools [OF created(1,2) i]) (use E(2) in \<open>simp add: never_null_def\<close>)
  with multi_create_complete [OF E(1) heap created(1,2)] obtain Ps where
    "multi_ok E (blk s) s1 m Ps" "\<forall>P \<in> set Ps. snd P = ([], [])" by blast
  then have start: "all_returned E (blk s) m s1" unfolding all_returned_def by (intro exI [of _ Ps]) simp
  let ?loop = "c_for [DynPoolMinMultiPoolMemNodeSizeBits..<max_bits] (\<lambda>bit_count.
     c_for [- size_window .. size_window - 1] (\<lambda>window_val s.
       andThen (multipool_mem_acquire E (spur bit_count window_val) m
           (window_size bit_count window_val) s) (\<lambda>(d, s').
         pool_mem_return E (spur bit_count window_val) d s')))"
  have "\<exists>s2. ?loop s1 = Inr s2 \<and> all_returned E (blk s) m s2"
    by (intro c_for_all acquire_return_window [OF E] window_fits start)
  then obtain s2 where s2: "?loop s1 = Inr s2" "all_returned E (blk s) m s2" by blast
  then obtain Ps where "multi_ok E (blk s) s2 m Ps" "\<forall>P \<in> set Ps. snd (snd P) = []"
    unfolding all_returned_def by blast
  from multi_free [OF this] obtain s3 where "multipool_free E m s2 = Inr s3" "blk s3 = blk s" .
  then show ?thesis
    unfolding fuzz_acquire_release_multipool_def created(1) andThen_simps prod.case s2(1) by blast
qed

section \<open>Properties\<close>

text \<open>With an allocator that keeps its promise and never fails, the single-threaded functions of
  the fuzz program run to their ends: no assertion fails, nothing but live memory is accessed,
  nothing is freed twice, whatever the number of spurious failures of exchanges, and the blocks
  that are live at the end are those that were live at the start.\<close>

lemma fuzz_runs_clean:
  assumes "malloc_ok E" "never_null E" "heap_ok (blk s)"
    "pool \<noteq> 0" "valid (sizeof_MemPool E) pool s"
  shows "(\<exists>s'. fuzz_alloc_free_poolable_mem E pool s = Inr s' \<and> blk s' = blk s) \<and>
    (\<exists>s'. fuzz_acquire_release_single_threaded E spur acquired_mem s = Inr s' \<and> blk s' = blk s) \<and>
    (\<exists>s'. fuzz_acquire_release_multipool E spur' s = Inr s' \<and> blk s' = blk s)"
  using alloc_free_ok [OF assms] single_threaded_ok [OF assms(1-3)] multipool_fuzz_ok [OF assms(1-3)]
  by blast

end
