(* ===== verification/MemPool_Threads.thy ===== *)
theory MemPool_Threads
  imports MemPool_Correct
begin

text \<open>
  Threads that acquire from and return to one C memory pool at the same time. The loops of
  \<open>pool_mem_acquire\<close> and \<open>pool_mem_return\<close> are cut into one step per access to shared
  memory, and the steps of different threads interleave in any order on one sequentially
  consistent memory. Allocating a new node touches only memory no other thread can reach and is
  one step. The steps of \<open>pool_mem_return\<close> read the pool from the node, where its local variable
  \<open>pool\<close> has the value read once: no step changes that field of a node. \<open>R_Track\<close> counts in the pool the machine is for, which by
  the invariant is the same. As for the indexer, \<open>serial\<close> says that calls of \<open>pool_mem_acquire\<close> do not
  overlap, while any number of returns may be in progress.
\<close>

section \<open>The machine\<close>

text \<open>
  Where a thread is, with its local variables \<open>previous_head\<close>, \<open>new_head\<close> and, in
  \<open>pool_mem_return\<close>, \<open>data\<close>. \<open>A_Data\<close> is the rest of \<open>pool_mem_acquire\<close> after a
  successful exchange, \<open>R_Track\<close> that of \<open>pool_mem_return\<close>. \<open>Failed\<close> is an error of
  the model of C.
\<close>

datatype mp_pc =
    A_Load
  | A_Alloc
  | A_Next addr
  | A_Cas addr addr
  | A_Data addr
  | A_Done addr
  | R_Begin addr
  | R_Head addr
  | R_Link addr addr
  | R_Swap addr addr
  | R_Track
  | R_End
  | Failed c_error

definition checked :: "cmem \<Rightarrow> c_error + cmem \<times> mp_pc \<Rightarrow> cmem \<times> mp_pc" where
  "checked s r = (case r of Inl e \<Rightarrow> (s, Failed e) | Inr x \<Rightarrow> x)"

fun mp_step :: "c_env \<Rightarrow> bool \<Rightarrow> addr \<Rightarrow> cmem \<Rightarrow> mp_pc \<Rightarrow> cmem \<times> mp_pc" where
  "mp_step E spurious pool s A_Load = checked s (access (sizeof_MemPool E) pool s
     (Inr (s, if mp_head s pool = 0 then A_Alloc else A_Next (mp_head s pool))))"
| "mp_step E spurious pool s A_Alloc = checked s
     (andThen (pool_mem_try_alloc_data E pool s) (\<lambda>(d, s'). Inr (s', A_Done d)))"
| "mp_step E spurious pool s (A_Next previous_head) =
     checked s (access sizeof_MemNode previous_head s
       (Inr (s, A_Cas previous_head (mn_next s previous_head))))"
| "mp_step E spurious pool s (A_Cas previous_head new_head) =
     checked s (access (sizeof_MemPool E) pool s
       (if mp_head s pool = previous_head \<and> \<not> spurious
        then Inr (s\<lparr>mp_head := (mp_head s)(pool := new_head)\<rparr>, A_Data previous_head)
        else Inr (s, A_Load)))"
| "mp_step E spurious pool s (A_Data previous_head) =
     checked s (andThen (track_pool_usage_memnode_unavailable E pool s) (\<lambda>s'.
       access sizeof_MemNode previous_head s' (Inr (s', A_Done (mn_data s' previous_head)))))"
| "mp_step E spurious pool s (R_Begin data) =
     checked s (if data = 0 then Inl AssertFail
       else andThen (get_memnode_in_data data s) (\<lambda>new_head.
         access sizeof_MemNode new_head s (Inr (s, R_Head new_head))))"
| "mp_step E spurious pool s (R_Head new_head) =
     checked s (access (sizeof_MemPool E) (mn_pool s new_head) s
       (Inr (s, R_Link new_head (mp_head s (mn_pool s new_head)))))"
| "mp_step E spurious pool s (R_Link new_head previous_head) =
     checked s (access sizeof_MemNode new_head s
       (Inr (s\<lparr>mn_next := (mn_next s)(new_head := previous_head)\<rparr>, R_Swap new_head previous_head)))"
| "mp_step E spurious pool s (R_Swap new_head previous_head) =
     (let p = mn_pool s new_head in
      checked s (access (sizeof_MemPool E) p s
       (if mp_head s p = previous_head \<and> \<not> spurious
        then Inr (s\<lparr>mp_head := (mp_head s)(p := new_head)\<rparr>, R_Track)
        else Inr (s, R_Head new_head))))"
| "mp_step E spurious pool s R_Track =
     checked s (andThen (track_pool_usage_returned E pool s) (\<lambda>s'. Inr (s', R_End)))"
| "mp_step E spurious pool s pc = (s, pc)"

text \<open>The machine. Held data pointers are paired with the thread they were handed to.\<close>

record mp_sys =
  ms_mem :: cmem
  ms_pcs :: "mp_pc option list"
  ms_held :: "(nat \<times> addr) list"

datatype mp_action = BeginAcquire nat | BeginRelease nat nat | MStep nat bool

fun in_acquire :: "mp_pc option \<Rightarrow> bool" where
  "in_acquire (Some A_Load) = True"
| "in_acquire (Some A_Alloc) = True"
| "in_acquire (Some (A_Next a)) = True"
| "in_acquire (Some (A_Cas a b)) = True"
| "in_acquire (Some (A_Data a)) = True"
| "in_acquire _ = False"

fun mp_call_ends :: "nat \<Rightarrow> mp_pc \<Rightarrow> mp_pc option \<times> (nat \<times> addr) list" where
  "mp_call_ends t (A_Done d) = (None, if d = 0 then [] else [(t, d)])"
| "mp_call_ends t R_End = (None, [])"
| "mp_call_ends t pc = (Some pc, [])"

fun mp_act :: "c_env \<Rightarrow> bool \<Rightarrow> addr \<Rightarrow> mp_action \<Rightarrow> mp_sys \<Rightarrow> mp_sys option" where
  "mp_act E serial pool (BeginAcquire t) s =
     (if t < length (ms_pcs s) \<and> ms_pcs s ! t = None \<and>
         (serial \<longrightarrow> \<not> list_ex in_acquire (ms_pcs s))
      then Some (s\<lparr>ms_pcs := (ms_pcs s)[t := Some A_Load]\<rparr>) else None)"
| "mp_act E serial pool (BeginRelease t k) s =
     (if t < length (ms_pcs s) \<and> ms_pcs s ! t = None \<and> k < length (ms_held s)
      then Some (s\<lparr>ms_pcs := (ms_pcs s)[t := Some (R_Begin (snd (ms_held s ! k)))],
                   ms_held := take k (ms_held s) @ drop (Suc k) (ms_held s)\<rparr>) else None)"
| "mp_act E serial pool (MStep t spurious) s =
     (if t < length (ms_pcs s) then
        (case ms_pcs s ! t of
           None \<Rightarrow> None
         | Some pc \<Rightarrow>
             (case mp_step E spurious pool (ms_mem s) pc of (mem', pc') \<Rightarrow>
                (case mp_call_ends t pc' of (p, got) \<Rightarrow>
                   Some (s\<lparr>ms_mem := mem', ms_pcs := (ms_pcs s)[t := p],
                           ms_held := ms_held s @ got\<rparr>))))
      else None)"

fun mp_exec :: "c_env \<Rightarrow> bool \<Rightarrow> addr \<Rightarrow> mp_action list \<Rightarrow> mp_sys \<Rightarrow> mp_sys option" where
  "mp_exec E serial pool [] s = Some s"
| "mp_exec E serial pool (a # as) s =
     (case mp_act E serial pool a s of None \<Rightarrow> None | Some s' \<Rightarrow> mp_exec E serial pool as s')"

text \<open>All threads start idle, on a pool just created in memory \<open>s0\<close>.\<close>

inductive mp_reachable :: "c_env \<Rightarrow> bool \<Rightarrow> cmem \<Rightarrow> u32 \<Rightarrow> nat \<Rightarrow> addr \<Rightarrow> mp_sys \<Rightarrow> bool"
  for E :: c_env and serial :: bool and s0 :: cmem and sz :: u32 and threads :: nat and pool :: addr
  where
  mp_start: "alloc_mem_pool E sz s0 = (pool, s) \<Longrightarrow> pool \<noteq> 0 \<Longrightarrow>
    mp_reachable E serial s0 sz threads pool
      \<lparr>ms_mem = s, ms_pcs = replicate threads None, ms_held = []\<rparr>"
| mp_do: "mp_reachable E serial s0 sz threads pool s \<Longrightarrow> mp_act E serial pool a s = Some s' \<Longrightarrow>
    mp_reachable E serial s0 sz threads pool s'"

lemma mp_exec_reachable:
  "mp_reachable E serial s0 sz threads pool s \<Longrightarrow> mp_exec E serial pool as s = Some s' \<Longrightarrow>
    mp_reachable E serial s0 sz threads pool s'"
  by (induction as arbitrary: s) (auto split: option.splits intro: mp_reachable.mp_do)

section \<open>The invariant of serial machines\<close>

text \<open>The node of a data pointer; the nodes a thread has taken out of the pool and not yet put
  back or handed over; what a thread knows.\<close>

definition node_of :: "cmem \<Rightarrow> addr \<Rightarrow> addr" where
  "node_of s d = hdr s (d - sizeof_ptrdiff_t)"

fun transit1 :: "cmem \<Rightarrow> mp_pc option \<Rightarrow> addr list" where
  "transit1 s (Some (A_Data n)) = [n]"
| "transit1 s (Some (R_Begin d)) = [node_of s d]"
| "transit1 s (Some (R_Head n)) = [n]"
| "transit1 s (Some (R_Link n h)) = [n]"
| "transit1 s (Some (R_Swap n h)) = [n]"
| "transit1 s _ = []"

definition transit :: "cmem \<Rightarrow> mp_pc option list \<Rightarrow> addr list" where
  "transit s pcs = concat (map (transit1 s) pcs)"

fun mp_pc_ok :: "cmem \<Rightarrow> addr list \<Rightarrow> mp_pc option \<Rightarrow> bool" where
  "mp_pc_ok s ns (Some (A_Next a)) \<longleftrightarrow> a \<in> set ns"
| "mp_pc_ok s ns (Some (A_Cas a b)) \<longleftrightarrow> a \<in> set ns \<and> mn_next s a = b"
| "mp_pc_ok s ns (Some (R_Begin d)) \<longleftrightarrow> d = mn_data s (node_of s d)"
| "mp_pc_ok s ns (Some (R_Swap n h)) \<longleftrightarrow> mn_next s n = h"
| "mp_pc_ok s ns (Some (A_Done d)) \<longleftrightarrow> False"
| "mp_pc_ok s ns (Some R_End) \<longleftrightarrow> False"
| "mp_pc_ok s ns (Some (Failed e)) \<longleftrightarrow> False"
| "mp_pc_ok s ns _ \<longleftrightarrow> True"

definition out_ok :: "cmem \<Rightarrow> mp_pc option list \<Rightarrow> addr list \<Rightarrow> addr list \<Rightarrow> bool" where
  "out_ok s pcs ds os \<longleftrightarrow> mset os = mset (transit s pcs) + mset (map (node_of s) ds) \<and>
     (\<forall>d \<in> set ds. d = mn_data s (node_of s d))"

text \<open>
  While a thread is between its exchange and the update of \<open>num_available\<close>, that counter is not
  the number of free nodes: all else is as in the single-threaded invariant, and the counter
  makes up for the threads that are about to change it.
\<close>

definition core_ok :: "c_env \<Rightarrow> (addr \<rightharpoonup> nat) \<Rightarrow> cmem \<Rightarrow> pool_desc list \<Rightarrow> bool" where
  "core_ok E B s Ps \<longleftrightarrow> (\<exists>g. mem_ok E B (s\<lparr>mp_avail := g\<rparr>) Ps)"

fun taking :: "mp_pc option \<Rightarrow> bool" where
  "taking (Some (A_Data n)) = True"
| "taking _ = False"

fun giving :: "mp_pc option \<Rightarrow> bool" where
  "giving (Some R_Track) = True"
| "giving _ = False"

definition counts ::
    "c_env \<Rightarrow> addr \<Rightarrow> cmem \<Rightarrow> mp_pc option list \<Rightarrow> addr list \<Rightarrow> addr list \<Rightarrow> bool" where
  "counts E p s pcs ns os \<longleftrightarrow> (ce_track E \<longrightarrow>
     mp_avail s p + of_nat (length (filter giving pcs)) = of_nat (length ns + length (filter taking pcs)) \<and>
     mp_allocs s p = of_nat (length ns + length os))"

text \<open>What the threads know, and what they and the clients have of pool \<open>p\<close>; with it the
  invariant of pool \<open>p\<close> when pools \<open>As\<close> and \<open>Bs\<close> are in memory too.\<close>

definition pool_threads ::
    "c_env \<Rightarrow> addr \<Rightarrow> cmem \<Rightarrow> mp_pc option list \<Rightarrow> addr list \<Rightarrow> addr list \<Rightarrow> addr list \<Rightarrow> bool" where
  "pool_threads E p s pcs ds ns os \<longleftrightarrow> out_ok s pcs ds os \<and> counts E p s pcs ns os \<and>
     (\<forall>pc \<in> set pcs. mp_pc_ok s ns pc) \<and> length (filter in_acquire pcs) \<le> 1"

definition mthr_at ::
    "c_env \<Rightarrow> (addr \<rightharpoonup> nat) \<Rightarrow> pool_desc list \<Rightarrow> pool_desc list \<Rightarrow> addr \<Rightarrow> cmem \<Rightarrow>
     mp_pc option list \<Rightarrow> addr list \<Rightarrow> addr list \<Rightarrow> addr list \<Rightarrow> bool" where
  "mthr_at E B As Bs p s pcs ds ns os \<longleftrightarrow>
     core_ok E B s (As @ (p, ns, os) # Bs) \<and> pool_threads E p s pcs ds ns os"

abbreviation mthr_inv ::
    "c_env \<Rightarrow> (addr \<rightharpoonup> nat) \<Rightarrow> addr \<Rightarrow> cmem \<Rightarrow> mp_pc option list \<Rightarrow> addr list \<Rightarrow>
     addr list \<Rightarrow> addr list \<Rightarrow> bool" where
  "mthr_inv E B p \<equiv> mthr_at E B [] [] p"

lemmas mthr_defs = mthr_at_def pool_threads_def

lemma mthr_inv_def: "mthr_inv E B p s pcs ds ns os \<longleftrightarrow> core_ok E B s [(p, ns, os)] \<and>
    out_ok s pcs ds os \<and> counts E p s pcs ns os \<and> (\<forall>pc \<in> set pcs. mp_pc_ok s ns pc) \<and>
    length (filter in_acquire pcs) \<le> 1"
  by (simp add: mthr_defs)

lemma transit_simps [simp]:
  "transit s [] = []" "transit s (us @ vs) = transit s us @ transit s vs"
  "transit s (p # vs) = transit1 s p @ transit s vs"
  by (simp_all add: transit_def)

lemma avail_update [simp]:
  "valid n a (s\<lparr>mp_avail := g\<rparr>) = valid n a s"
  "node_rep (s\<lparr>mp_avail := g\<rparr>) p n = node_rep s p n"
  "data_block (s\<lparr>mp_avail := g\<rparr>) = data_block s"
  "node_blocks (s\<lparr>mp_avail := g\<rparr>) ns = node_blocks s ns"
  "owned_by (s\<lparr>mp_avail := g\<rparr>) P = owned_by s P"
  "node_of (s\<lparr>mp_avail := g\<rparr>) = node_of s"
  by (cases P; simp add: valid_def node_rep_def data_block_def node_blocks_def node_of_def fun_eq_iff)+

text \<open>\<open>pool_rep\<close> without its counter.\<close>

fun core_rep :: "c_env \<Rightarrow> cmem \<Rightarrow> pool_desc \<Rightarrow> bool" where
  "core_rep E s (p, ns, os) \<longleftrightarrow> blk s p = Some (sizeof_MemPool E) \<and> mp_size s p \<noteq> 0 \<and>
     chain (mn_next s) (mp_head s p) ns \<and> (\<forall>n \<in> set (ns @ os). node_rep s p n)"

lemma core_mid:
  assumes "core_ok E B s (As @ (p, ns, os) # Bs)"
  shows "core_rep E s (p, ns, os)" "heap_ok (blk s)" "p \<noteq> 0" "valid (sizeof_MemPool E) p s"
    "distinct (p # node_blocks s ns @ node_blocks s os)"
proof -
  from assms obtain g where g: "mem_ok E B (s\<lparr>mp_avail := g\<rparr>) (As @ (p, ns, os) # Bs)"
    by (auto simp: core_ok_def)
  from mem_ok_mid [OF g] show "core_rep E s (p, ns, os)" "heap_ok (blk s)" "p \<noteq> 0"
    "valid (sizeof_MemPool E) p s" "distinct (p # node_blocks s ns @ node_blocks s os)" by auto
qed

lemma owned_live:
  assumes "core_ok E B s (As @ P # Bs)"
  shows "set (owned_by s P) \<subseteq> live_blocks s"
proof -
  from assms obtain g where g: "mem_ok E B (s\<lparr>mp_avail := g\<rparr>) (As @ P # Bs)" by (auto simp: core_ok_def)
  have "owned_by (s\<lparr>mp_avail := g\<rparr>) P = owned_by s P" by simp
  with mem_ok_blocks [OF g] show ?thesis by (fastforce simp del: owned_by.simps)
qed

lemma core_ok_avail [simp]: "core_ok E B (s\<lparr>mp_avail := g\<rparr>) Ps = core_ok E B s Ps"
  by (simp add: core_ok_def)

lemma mem_ok_core: "mem_ok E B s Ps \<Longrightarrow> core_ok E B s Ps"
  unfolding core_ok_def by (rule exI [of _ "mp_avail s"]) simp

text \<open>With the counters right this is the single-threaded invariant.\<close>

lemma core_counted:
  assumes "core_ok E B s Ps" "\<forall>(p, ns, os) \<in> set Ps. ce_track E \<longrightarrow> mp_avail s p = of_nat (length ns)"
  shows "mem_ok E B s Ps"
proof -
  from assms(1) obtain g where g: "mem_ok E B (s\<lparr>mp_avail := g\<rparr>) Ps" by (auto simp: core_ok_def)
  have "owned_by (s\<lparr>mp_avail := g\<rparr>) = owned_by s" by (simp add: fun_eq_iff)
  moreover have "pool_rep E s P" if "P \<in> set Ps" for P
    using g assms(2) that by (cases P) (force simp: mem_ok_def)
  ultimately show ?thesis using g by (simp add: mem_ok_def cong: if_cong)
qed

lemmas mid = core_mid [of E B s "[]" p ns os "[]" for E B s p ns os, simplified append_Nil]

lemma out_nodes:
  assumes "mthr_at E B As Bs p s pcs ds ns os" "n \<in> set (transit s pcs)"
  shows "n \<in> set os" "node_rep s p n" "valid sizeof_MemNode n s" "mn_pool s n = p" "n \<noteq> 0" "n \<notin> set ns"
proof -
  have mem: "core_ok E B s (As @ (p, ns, os) # Bs)" using assms(1) by (simp add: mthr_defs)
  have "mset os = mset (transit s pcs) + mset (map (node_of s) ds)"
    using assms(1) by (simp add: mthr_defs out_ok_def)
  then show os: "n \<in> set os" using assms(2) by (metis mset_append mset_eq_setD set_append UnI1)
  with core_mid(1) [OF mem] show rep: "node_rep s p n" by simp
  with node_rep_valid [OF core_mid(2) [OF mem] rep]
  show "valid sizeof_MemNode n s" "n \<noteq> 0" "mn_pool s n = p" by (simp_all add: node_rep_def)
  show "n \<notin> set ns" using core_mid(5) [OF mem] os by (auto simp: set_node_blocks)
qed

lemma node_of_data:
  "node_rep s p n \<Longrightarrow> node_of s (mn_data s n) = n"
  by (simp add: node_of_def node_rep_def data_block_def)

text \<open>No node is with two threads, or with a thread and a client.\<close>

lemma out_distinct:
  assumes "mthr_at E B As Bs p s pcs ds ns os"
  shows "distinct (transit s pcs @ map (node_of s) ds)"
proof -
  have mem: "core_ok E B s (As @ (p, ns, os) # Bs)" and "mset os = mset (transit s pcs @ map (node_of s) ds)"
    using assms by (simp_all add: mthr_defs out_ok_def)
  moreover have "distinct os"
  proof -
    have "distinct (node_blocks s os)" using core_mid(5) [OF mem] by simp
    then show ?thesis by (induction os) (auto simp: set_node_blocks)
  qed
  ultimately show ?thesis using mset_eq_imp_distinct_iff by blast
qed

text \<open>A step that changes no memory and no transit node.\<close>

lemma mt_local:
  assumes "mthr_at E B As Bs p s (us @ pc # vs) ds ns os" "transit1 s pc' = transit1 s pc" "mp_pc_ok s ns pc'"
    "taking pc' = taking pc" "giving pc' = giving pc"
    "in_acquire pc' \<longrightarrow> in_acquire pc \<or> filter in_acquire us = [] \<and> filter in_acquire vs = []"
  shows "mthr_at E B As Bs p s (us @ pc' # vs) ds ns os"
  using assms by (auto simp: mthr_defs out_ok_def counts_def split: if_splits)

lemma others_not_acquiring:
  assumes "mthr_at E B As Bs p s (us @ pc # vs) ds ns os" "in_acquire pc"
  shows "\<forall>q \<in> set us \<union> set vs. \<not> in_acquire q"
  using assms by (auto simp: mthr_defs filter_empty_conv)

lemma others_pc_ok:
  "mthr_at E B As Bs p s (us @ pc # vs) ds ns os \<Longrightarrow> \<forall>q \<in> set us \<union> set vs. mp_pc_ok s ns q"
  by (simp add: mthr_defs ball_Un)

text \<open>Threads that are not acquiring only look at their own node.\<close>

lemma mp_pc_ok_not_acquiring:
  assumes "mp_pc_ok s ns q" "\<not> in_acquire q" "mn_data s' = mn_data s" "hdr s' = hdr s"
    "\<forall>n \<in> set (transit1 s q). mn_next s' n = mn_next s n"
  shows "mp_pc_ok s' ns' q"
  using assms by (cases "(s, ns, q)" rule: mp_pc_ok.cases) (auto simp: node_of_def)

lemma mp_pc_ok_other:
  assumes "mp_pc_ok s ns q" "mn_data s' = mn_data s" "hdr s' = hdr s"
    "\<forall>n \<in> set (transit1 s q) \<union> set ns. mn_next s' n = mn_next s n" "set ns \<subseteq> set ns'"
  shows "mp_pc_ok s' ns' q"
  using assms by (cases "(s, ns, q)" rule: mp_pc_ok.cases) (auto simp: node_of_def)

lemma transit1_same: "hdr s' = hdr s \<Longrightarrow> transit1 s' q = transit1 s q"
  by (cases "(s, q)" rule: transit1.cases) (simp_all add: node_of_def)

lemma transit_same: "hdr s' = hdr s \<Longrightarrow> transit s' pcs = transit s pcs"
proof -
  assume "hdr s' = hdr s"
  then have "transit1 s' = transit1 s" by (intro ext) (rule transit1_same)
  then show ?thesis by (simp add: transit_def)
qed

section \<open>Steps that change memory\<close>

lemma pop_core:
  assumes "core_ok E B s (As @ (p, n # ns, os) # Bs)"
  shows "core_ok E B (s\<lparr>mp_head := (mp_head s)(p := mn_next s n)\<rparr>) (As @ (p, ns, n # os) # Bs)"
proof -
  from assms obtain g where ok: "mem_ok E B (s\<lparr>mp_avail := g\<rparr>) (As @ (p, n # ns, os) # Bs)"
    by (auto simp: core_ok_def)
  note m = mem_ok_mid [OF ok]
  let ?s = "s\<lparr>mp_avail := g\<rparr>"
  have "mp_head ?s p = n" "n \<noteq> 0" "node_rep ?s p n" using m(1) by simp_all
  note run = acquire_loop_pop [OF m(4) this(1,2) node_rep_valid(2) [OF m(2) this(3)], of 0]
  from acquire_pop [OF ok, of 0] obtain s' where
    "pool_mem_acquire E 0 p ?s = Inr (mn_data ?s n, s')" "mem_ok E B s' (As @ (p, ns, n # os) # Bs)" by auto
  with run m(3) have "mem_ok E B (?s\<lparr>mp_head := (mp_head ?s)(p := mn_next ?s n),
      mp_avail := if ce_track E then (mp_avail ?s)(p := mp_avail ?s p - 1) else mp_avail ?s\<rparr>) (As @ (p, ns, n # os) # Bs)"
    by (simp add: pool_mem_acquire_def)
  then show ?thesis unfolding core_ok_def by (intro exI) simp
qed

lemma push_core:
  assumes "core_ok E B s (As @ (p, ns, xs @ n # ys) # Bs)" "mn_next s n = mp_head s p"
  shows "core_ok E B (s\<lparr>mp_head := (mp_head s)(p := n)\<rparr>) (As @ (p, n # ns, xs @ ys) # Bs)"
proof -
  from assms obtain g where ok: "mem_ok E B (s\<lparr>mp_avail := g\<rparr>) (As @ (p, ns, xs @ n # ys) # Bs)"
    by (auto simp: core_ok_def)
  note m = mem_ok_mid [OF ok]
  let ?s = "s\<lparr>mp_avail := g\<rparr>"
  have rep: "node_rep ?s p n" using m(1) by simp
  note run = return_loop_push [OF m(4) node_rep_valid(2) [OF m(2) rep], of 0]
  have upd: "(mn_next s)(n := mp_head s p) = mn_next s" using fun_upd_idem [of "mn_next s" n, OF assms(2)] .
  from return_push [OF ok, of 0] obtain s' where
    "pool_mem_return E 0 (mn_data ?s n) ?s = Inr s'" "mem_ok E B s' (As @ (p, n # ns, xs @ ys) # Bs)" by auto
  moreover have "pool_mem_return E 0 (mn_data ?s n) ?s = return_loop E 0 p n ?s"
    using rep node_rep_valid(2) [OF m(2) rep] get_memnode_ok [OF m(2) rep]
    by (simp add: pool_mem_return_def node_rep_def)
  ultimately have "mem_ok E B (?s\<lparr>mp_head := (mp_head ?s)(p := n),
      mp_avail := if ce_track E then (mp_avail ?s)(p := mp_avail ?s p + 1) else mp_avail ?s\<rparr>) (As @ (p, n # ns, xs @ ys) # Bs)"
    using run upd by simp
  then show ?thesis unfolding core_ok_def by (intro exI) simp
qed

lemma link_mem_ok:
  assumes mem: "mem_ok E B s (As @ (p, ns, os) # Bs)" and n: "n \<in> set os"
  shows "mem_ok E B (s\<lparr>mn_next := (mn_next s)(n := h)\<rparr>) (As @ (p, ns, os) # Bs)"
proof -
  let ?s = "s\<lparr>mn_next := (mn_next s)(n := h)\<rparr>"
  have ok: "mem_ok E B s (As @ (p, ns, os) # Bs)" using mem by simp
  note m = mem_ok_mid [OF ok]
  have "n \<notin> set ns" using m(5) n by (auto simp: set_node_blocks)
  then have "chain (mn_next ?s) (mp_head s p) ns" using m(1) by (auto intro: chain_cong)
  then have "pool_rep E ?s (p, ns, os)" using m(1) by (auto simp: node_rep_def data_block_def)
  moreover have "owned_by ?s (p, ns, os) = owned_by s (p, ns, os)"
    by (simp add: node_blocks_def data_block_def)
  moreover have "n \<in> set (owned_by s (p, ns, os))" using n by (simp add: set_node_blocks)
  then have "agree (- set (owned_by s (p, ns, os))) s ?s" by (auto simp: agree_def)
  ultimately have "mem_ok E B ?s (As @ (p, ns, os) # Bs)"
    by (intro mem_ok_update [OF ok]) simp_all
  then show ?thesis by simp
qed

lemma link_core:
  assumes "core_ok E B s (As @ (p, ns, os) # Bs)" "n \<in> set os"
  shows "core_ok E B (s\<lparr>mn_next := (mn_next s)(n := h)\<rparr>) (As @ (p, ns, os) # Bs)"
proof -
  from assms(1) obtain g where "mem_ok E B (s\<lparr>mp_avail := g\<rparr>) (As @ (p, ns, os) # Bs)" by (auto simp: core_ok_def)
  from link_mem_ok [OF this assms(2), of h]
  have "mem_ok E B (s\<lparr>mp_avail := g\<rparr>\<lparr>mn_next := (mn_next s)(n := h)\<rparr>) (As @ (p, ns, os) # Bs)" by simp
  moreover have "s\<lparr>mp_avail := g\<rparr>\<lparr>mn_next := (mn_next s)(n := h)\<rparr> =
      s\<lparr>mn_next := (mn_next s)(n := h)\<rparr>\<lparr>mp_avail := g\<rparr>" by simp
  ultimately have "mem_ok E B (s\<lparr>mn_next := (mn_next s)(n := h)\<rparr>\<lparr>mp_avail := g\<rparr>) (As @ (p, ns, os) # Bs)"
    by metis
  then show ?thesis unfolding core_ok_def by blast
qed

text \<open>The counters that the exchanges wait for.\<close>

lemma avail_pc_ok [simp]: "mp_pc_ok (s\<lparr>mp_avail := g\<rparr>) ns q = mp_pc_ok s ns q"
  by (cases "(s, ns, q)" rule: mp_pc_ok.cases) simp_all

lemma avail_transit [simp]:
  "transit1 (s\<lparr>mp_avail := g\<rparr>) = transit1 s" "transit (s\<lparr>mp_avail := g\<rparr>) = transit s"
  by (simp_all add: fun_eq_iff transit1_same transit_same)

lemma mt_pop:
  assumes inv: "mthr_at E B As Bs p s (us @ Some (A_Cas a b) # vs) ds ns os" and head: "mp_head s p = a"
  shows "\<exists>ns1. mthr_at E B As Bs p (s\<lparr>mp_head := (mp_head s)(p := b)\<rparr>) (us @ Some (A_Data a) # vs) ds ns1 (a # os)"
proof -
  let ?s = "s\<lparr>mp_head := (mp_head s)(p := b)\<rparr>"
  from inv have mem: "core_ok E B s (As @ (p, ns, os) # Bs)" and a: "a \<in> set ns" "mn_next s a = b"
    by (simp_all add: mthr_defs)
  then obtain n ns1 where ns: "ns = n # ns1" by (cases ns) auto
  then have "n = a" using core_mid(1) [OF mem] head by simp
  with pop_core [of E B s As p n ns1 os Bs] mem ns a have ok: "core_ok E B ?s (As @ (p, ns1, a # os) # Bs)" by simp
  have same: "transit1 ?s q = transit1 s q" "transit ?s qs = transit s qs" "node_of ?s = node_of s" for q qs
    by (simp_all add: transit1_same transit_same node_of_def fun_eq_iff)
  have "mp_pc_ok ?s ns1 q" if q: "q \<in> set us \<union> set vs" for q
  proof (rule mp_pc_ok_not_acquiring)
    show "mp_pc_ok s ns q" using others_pc_ok [OF inv] q by blast
    show "\<not> in_acquire q" using others_not_acquiring [OF inv] q by simp
  qed simp_all
  with inv ok same show ?thesis
    by (intro exI [of _ ns1]) (simp add: mthr_defs out_ok_def counts_def ns ball_Un)
qed

lemma mt_link:
  assumes inv: "mthr_at E B As Bs p s (us @ Some (R_Link n h) # vs) ds ns os"
  shows "mthr_at E B As Bs p (s\<lparr>mn_next := (mn_next s)(n := h)\<rparr>) (us @ Some (R_Swap n h) # vs) ds ns os"
proof -
  let ?s = "s\<lparr>mn_next := (mn_next s)(n := h)\<rparr>"
  note n = out_nodes [OF inv, of n, simplified]
  have mem: "core_ok E B s (As @ (p, ns, os) # Bs)" using inv by (simp add: mthr_defs)
  have same: "transit1 ?s q = transit1 s q" "transit ?s qs = transit s qs" "node_of ?s = node_of s" for q qs
    by (simp_all add: transit1_same transit_same node_of_def fun_eq_iff)
  have dist: "n \<notin> set (transit s us) \<union> set (transit s vs)" using out_distinct [OF inv] by auto
  have "mp_pc_ok ?s ns q" if q: "q \<in> set us \<union> set vs" for q
  proof (rule mp_pc_ok_other)
    show "mp_pc_ok s ns q" using others_pc_ok [OF inv] q by blast
    have "set (transit1 s q) \<subseteq> set (transit s us) \<union> set (transit s vs)"
      using q by (auto simp: transit_def)
    with dist n(6) show "\<forall>k \<in> set (transit1 s q) \<union> set ns. mn_next ?s k = mn_next s k" by auto
  qed simp_all
  with inv link_core [OF mem n(1), of h] same show ?thesis
    by (simp add: mthr_defs out_ok_def counts_def ball_Un)
qed

lemma mt_push:
  assumes inv: "mthr_at E B As Bs p s (us @ Some (R_Swap n h) # vs) ds ns os" and head: "mp_head s p = h"
  shows "\<exists>os1. mthr_at E B As Bs p (s\<lparr>mp_head := (mp_head s)(p := n)\<rparr>) (us @ Some R_Track # vs) ds (n # ns) os1"
proof -
  let ?s = "s\<lparr>mp_head := (mp_head s)(p := n)\<rparr>"
  note n = out_nodes [OF inv, of n, simplified]
  then obtain xs ys where os: "os = xs @ n # ys" by (meson split_list)
  from inv have mem: "core_ok E B s (As @ (p, ns, os) # Bs)" and nx: "mn_next s n = h"
    by (simp_all add: mthr_defs)
  have ok: "core_ok E B ?s (As @ (p, n # ns, xs @ ys) # Bs)"
    using push_core [of E B s As p ns xs n ys Bs] mem nx head os by simp
  have same: "transit1 ?s q = transit1 s q" "transit ?s qs = transit s qs" "node_of ?s = node_of s" for q qs
    by (simp_all add: transit1_same transit_same node_of_def fun_eq_iff)
  have "mp_pc_ok ?s (n # ns) q" if q: "q \<in> set us \<union> set vs" for q
  proof (rule mp_pc_ok_other)
    show "mp_pc_ok s ns q" using others_pc_ok [OF inv] q by blast
    show "set ns \<subseteq> set (n # ns)" by auto
  qed simp_all
  moreover have "mset (xs @ ys) = mset (transit s us) + mset (transit s vs) + mset (map (node_of s) ds)"
    using inv by (simp add: mthr_defs out_ok_def os)
  ultimately show ?thesis
    using inv ok same by (intro exI [of _ "xs @ ys"]) (simp add: mthr_defs out_ok_def counts_def os ball_Un)
qed

lemma mt_data:
  assumes inv: "mthr_at E B As Bs p s (us @ Some (A_Data n) # vs) ds ns os"
  shows "mthr_at E B As Bs p (s\<lparr>mp_avail := if ce_track E then (mp_avail s)(p := mp_avail s p - 1) else mp_avail s\<rparr>)
      (us @ None # vs) (ds @ [mn_data s n]) ns os" "mn_data s n \<noteq> 0"
proof -
  note n = out_nodes [OF inv, of n, simplified]
  have "node_of s (mn_data s n) = n" using n(2) by (rule node_of_data)
  with inv show "mthr_at E B As Bs p (s\<lparr>mp_avail := if ce_track E then (mp_avail s)(p := mp_avail s p - 1) else mp_avail s\<rparr>)
      (us @ None # vs) (ds @ [mn_data s n]) ns os"
    by (auto simp: mthr_defs out_ok_def counts_def algebra_simps)
  show "mn_data s n \<noteq> 0" using n(2) by (simp add: node_rep_def)
qed

lemma mt_track:
  assumes inv: "mthr_at E B As Bs p s (us @ Some R_Track # vs) ds ns os"
  shows "mthr_at E B As Bs p (s\<lparr>mp_avail := if ce_track E then (mp_avail s)(p := mp_avail s p + 1) else mp_avail s\<rparr>)
      (us @ None # vs) ds ns os"
  using inv by (auto simp: mthr_defs out_ok_def counts_def algebra_simps)

text \<open>A step that leaves what the pool owns as it is, such as an allocation.\<close>

lemma out_agree:
  assumes "node_rep s p n" "agree {n, data_block s n} s s'"
  shows "mn_data s' n = mn_data s n" "mn_next s' n = mn_next s n" "node_of s' (mn_data s n) = n"
  using assms by (simp_all add: agree_def node_rep_def node_of_def data_block_def)

lemma mt_agree:
  assumes inv: "mthr_at E B As Bs p s (us @ pc # vs) ds ns os" and pc: "transit1 s pc = []"
    and agr: "agree (set (owned_by s (p, ns, os))) s s'"
  shows "transit s' us = transit s us" "transit s' vs = transit s vs"
    "mset (map (node_of s') ds) = mset (map (node_of s) ds)"
    "\<forall>d \<in> set ds. d = mn_data s' (node_of s' d)" "\<forall>q \<in> set us \<union> set vs. mp_pc_ok s' ns q"
proof -
  have mem: "core_ok E B s (As @ (p, ns, os) # Bs)" using inv by (simp add: mthr_defs)
  have os: "mset os = mset (transit s (us @ pc # vs) @ map (node_of s) ds)"
    and ds: "\<forall>d \<in> set ds. d = mn_data s (node_of s d)"
    using inv by (simp_all add: mthr_defs out_ok_def)
  have set_os: "set os = set (transit s (us @ pc # vs)) \<union> node_of s ` set ds"
    using mset_eq_setD [OF os] by (simp add: Un_assoc)
  have keep: "mn_data s' n = mn_data s n" "mn_next s' n = mn_next s n" "node_of s' (mn_data s n) = n"
    if "n \<in> set (ns @ os)" for n
  proof -
    have rep: "node_rep s p n" using core_mid(1) [OF mem] that by simp
    have "{n, data_block s n} \<subseteq> set (owned_by s (p, ns, os))" using that by (auto simp: set_node_blocks)
    with agr have "agree {n, data_block s n} s s'" by (rule agree_subset)
    note out_agree [OF rep this]
    then show "mn_data s' n = mn_data s n" "mn_next s' n = mn_next s n" "node_of s' (mn_data s n) = n" .
  qed
  have held: "node_of s' d = node_of s d" "d = mn_data s' (node_of s' d)" if d: "d \<in> set ds" for d
  proof -
    have n: "node_of s d \<in> set (ns @ os)" using set_os d by simp
    have e: "mn_data s (node_of s d) = d" using ds d by simp
    from keep(3) [OF n] show "node_of s' d = node_of s d" unfolding e .
    with keep(1) [OF n] e show "d = mn_data s' (node_of s' d)" by simp
  qed
  then have "map (node_of s') ds = map (node_of s) ds" by simp
  then show "mset (map (node_of s') ds) = mset (map (node_of s) ds)" by (rule arg_cong)
  show "\<forall>d \<in> set ds. d = mn_data s' (node_of s' d)" using held(2) by blast
  have other: "transit1 s' q = transit1 s q \<and> mp_pc_ok s' ns q" if q: "q \<in> set us \<union> set vs" for q
  proof -
    have pok: "mp_pc_ok s ns q" using others_pc_ok [OF inv] q by blast
    have tr: "n \<in> set (ns @ os)" if "n \<in> set (transit1 s q)" for n
      using that q set_os by (auto simp: transit_def)
    show ?thesis
    proof (cases "\<exists>d. q = Some (R_Begin d)")
      case True
      then obtain d where d: "q = Some (R_Begin d)" by blast
      then have n: "node_of s d \<in> set (ns @ os)" using tr by simp
      have e: "mn_data s (node_of s d) = d" using pok d by simp
      have e': "node_of s' d = node_of s d" using keep(3) [OF n] unfolding e .
      with keep(1) [OF n] e d show ?thesis by simp
    next
      case False
      then show ?thesis using pok tr keep(2)
        by (cases "(s, ns, q)" rule: mp_pc_ok.cases) simp_all
    qed
  qed
  then have eq: "\<forall>q \<in> set us \<union> set vs. transit1 s' q = transit1 s q" by blast
  show "transit s' us = transit s us" "transit s' vs = transit s vs"
    unfolding transit_def using eq by (simp_all cong: map_cong)
  show "\<forall>q \<in> set us \<union> set vs. mp_pc_ok s' ns q" using other by blast
qed

text \<open>Allocating neither looks at \<open>num_available\<close> nor changes it.\<close>

lemma c_malloc_avail:
  "c_malloc E n (s\<lparr>mp_avail := g\<rparr>) = map_prod id (\<lambda>s. s\<lparr>mp_avail := g\<rparr>) (c_malloc E n s)"
  by (simp add: c_malloc_def Let_def)

lemma try_alloc_avail:
  "pool_mem_try_alloc_data E p (s\<lparr>mp_avail := g\<rparr>) =
     map_sum id (map_prod id (\<lambda>s. s\<lparr>mp_avail := g\<rparr>)) (pool_mem_try_alloc_data E p s)"
proof -
  let ?f = "map_sum id (map_prod id (\<lambda>s. s\<lparr>mp_avail := g\<rparr>)) :: c_error + addr \<times> cmem \<Rightarrow> c_error + addr \<times> cmem"
  have alloc: "alloc_poolable_mem E p (s\<lparr>mp_avail := g\<rparr>) = ?f (alloc_poolable_mem E p s)"
  proof -
    obtain n s1 where n: "c_malloc E sizeof_MemNode s = (n, s1)" by (cases "c_malloc E sizeof_MemNode s")
    let ?s2 = "s1\<lparr>mn_next := (mn_next s1)(n := 0)\<rparr>"
    obtain d s3 where d: "c_malloc E (unat (mp_size s1 p) + sizeof_ptrdiff_t) ?s2 = (d, s3)"
      by (cases "c_malloc E (unat (mp_size s1 p) + sizeof_ptrdiff_t) ?s2")
    have swap: "s1\<lparr>mp_avail := g, mn_next := f\<rparr> = s1\<lparr>mn_next := f\<rparr>\<lparr>mp_avail := g\<rparr>" for f by simp
    show ?thesis
      using n d unfolding alloc_poolable_mem_def
      by (simp add: c_malloc_avail swap access_def c_free_def)
  qed
  show ?thesis
    unfolding pool_mem_try_alloc_data_def alloc
    by (cases "alloc_poolable_mem E p s") (auto simp: track_pool_usage_allocs_def access_def valid_def)
qed

lemma try_alloc_core:
  assumes E: "malloc_ok E" and ok: "core_ok E B s (As @ (p, ns, os) # Bs)"
  obtains (null) s' where "pool_mem_try_alloc_data E p s = Inr (0, s')"
    "core_ok E B s' (As @ (p, ns, os) # Bs)" "agree (live_blocks s) s s'" "mp_avail s' = mp_avail s"
    "mp_allocs s' = mp_allocs s"
  | (fresh) n s' where "pool_mem_try_alloc_data E p s = Inr (mn_data s' n, s')" "mn_data s' n \<noteq> 0"
    "core_ok E B s' (As @ (p, ns, n # os) # Bs)" "agree (live_blocks s) s s'" "mp_avail s' = mp_avail s"
    "mp_allocs s' p = (if ce_track E then mp_allocs s p + 1 else mp_allocs s p)"
proof -
  from ok obtain g where g: "mem_ok E B (s\<lparr>mp_avail := g\<rparr>) (As @ (p, ns, os) # Bs)"
    by (auto simp: core_ok_def)
  have same: "mp_avail s' = mp_avail s" if "pool_mem_try_alloc_data E p s = Inr (d, s')" for d s'
  proof -
    have "s' = s'\<lparr>mp_avail := mp_avail s\<rparr>"
      using try_alloc_avail [where s = s and g = "mp_avail s" and E = E and p = p] that by simp
    from arg_cong [OF this, of mp_avail] show ?thesis by simp
  qed
  have undo: "\<exists>s'. pool_mem_try_alloc_data E p s = Inr (d, s') \<and> s'' = s'\<lparr>mp_avail := g\<rparr>"
    if "pool_mem_try_alloc_data E p (s\<lparr>mp_avail := g\<rparr>) = Inr (d, s'')" for d s''
    using that unfolding try_alloc_avail by (cases "pool_mem_try_alloc_data E p s") auto
  from E g show ?thesis
  proof (cases rule: try_alloc)
    case (null s'')
    from undo [OF null(1)] obtain s' where
      s': "pool_mem_try_alloc_data E p s = Inr (0, s')" "s'' = s'\<lparr>mp_avail := g\<rparr>" by blast
    then show ?thesis
      using that(1) [OF s'(1)] null same [OF s'(1)] by (auto simp: core_ok_def agree_def)
  next
    case (fresh n s'')
    from undo [OF fresh(1)] obtain s' where
      s': "pool_mem_try_alloc_data E p s = Inr (mn_data s'' n, s')" "s'' = s'\<lparr>mp_avail := g\<rparr>" by blast
    then have run: "pool_mem_try_alloc_data E p s = Inr (mn_data s' n, s')" by simp
    show ?thesis
      using that(2) [OF run] s'(2) fresh same [OF s'(1)]
      by (auto simp: core_ok_def agree_def split: if_splits)
  qed
qed

lemma mt_alloc:
  assumes E: "malloc_ok E" and inv: "mthr_at E B As Bs p s (us @ Some A_Alloc # vs) ds ns os"
  shows "\<exists>d s' os1. pool_mem_try_alloc_data E p s = Inr (d, s') \<and>
    mthr_at E B As Bs p s' (us @ None # vs) (if d = 0 then ds else ds @ [d]) ns os1"
proof -
  have mem: "core_ok E B s (As @ (p, ns, os) # Bs)" using inv by (simp add: mthr_defs)
  from E mem show ?thesis
  proof (cases rule: try_alloc_core)
    case (null s')
    note k = mt_agree [OF inv _ agree_subset [OF null(3) owned_live [OF mem]], simplified]
    have "mthr_at E B As Bs p s' (us @ None # vs) ds ns os"
      using inv null(2,4,5) k by (simp add: mthr_defs out_ok_def counts_def ball_Un)
    with null(1) show ?thesis by auto
  next
    case (fresh n s')
    note k = mt_agree [OF inv _ agree_subset [OF fresh(4) owned_live [OF mem]], simplified]
    have mem': "core_ok E B s' (As @ (p, ns, n # os) # Bs)" using fresh(3) by simp
    have "node_rep s' p n" using core_mid(1) [OF mem'] by simp
    then have "node_of s' (mn_data s' n) = n" by (rule node_of_data)
    then have "mthr_at E B As Bs p s' (us @ None # vs) (ds @ [mn_data s' n]) ns (n # os)"
      using inv mem' k fresh(5,6) by (simp add: mthr_defs out_ok_def counts_def ball_Un)
    with fresh(1,2) show ?thesis by auto
  qed
qed

section \<open>Every step of every thread\<close>

lemma checked_Inr [simp]: "checked s (Inr x) = x"
  by (simp add: checked_def)

text \<open>The node a call works on is one that is out.\<close>

lemma in_transit: "n \<in> set (transit1 s q) \<Longrightarrow> n \<in> set (transit s (us @ q # vs))"
  by (simp add: transit_def)

lemma mt_step_acquire:
  assumes E: "malloc_ok E" and inv: "mthr_at E B As Bs p s (us @ Some pc # vs) ds ns os"
    and step: "mp_step E sp p s pc = (s', pc')" and ends: "mp_call_ends t pc' = (q, got)"
    and pc: "in_acquire (Some pc)"
  shows "\<exists>ns' os'. mthr_at E B As Bs p s' (us @ q # vs) (ds @ map snd got) ns' os'"
proof -
  have mem: "core_ok E B s (As @ (p, ns, os) # Bs)" and pok: "mp_pc_ok s ns (Some pc)"
    using inv by (simp_all add: mthr_defs)
  note m = core_mid [OF mem] and loc = mt_local [OF inv] and node = out_nodes [OF inv in_transit]
  show ?thesis
  proof (cases pc)
    case A_Load
    have "mp_head s p \<noteq> 0 \<Longrightarrow> mp_head s p \<in> set ns" using m(1) by (cases ns) auto
    then have "mthr_at E B As Bs p s (us @ Some (if mp_head s p = 0 then A_Alloc else A_Next (mp_head s p)) # vs) ds ns os"
      using loc A_Load by simp
    with A_Load step ends m(4) show ?thesis
      by (intro exI [of _ ns] exI [of _ os]) (auto split: if_splits)
  next
    case A_Alloc
    from mt_alloc [OF E inv [unfolded A_Alloc]] obtain d s1 os1 where
      d: "pool_mem_try_alloc_data E p s = Inr (d, s1)"
      "mthr_at E B As Bs p s1 (us @ None # vs) (if d = 0 then ds else ds @ [d]) ns os1" by blast
    then show ?thesis using A_Alloc step ends
      by (intro exI [of _ ns] exI [of _ os1]) (auto split: if_splits)
  next
    case (A_Next a)
    then have a: "a \<in> set ns" "node_rep s p a" using m(1) pok by simp_all
    from a(1) node_rep_valid(2) [OF m(2) a(2)] loc [of "Some (A_Cas a (mn_next s a))"] A_Next step ends
    show ?thesis by (intro exI [of _ ns] exI [of _ os]) auto
  next
    case (A_Cas a b)
    show ?thesis
    proof (cases "mp_head s p = a \<and> \<not> sp")
      case True
      with mt_pop [OF inv [unfolded A_Cas]] obtain ns1 where
        "mthr_at E B As Bs p (s\<lparr>mp_head := (mp_head s)(p := b)\<rparr>) (us @ Some (A_Data a) # vs) ds ns1 (a # os)" by blast
      with True A_Cas step ends m(4) show ?thesis
        by (intro exI [of _ ns1] exI [of _ "a # os"]) auto
    next
      case False
      with A_Cas step ends m(4) loc [of "Some A_Load"] show ?thesis
        by (intro exI [of _ ns] exI [of _ os]) auto
    qed
  next
    case (A_Data n)
    note n = node [of n, unfolded A_Data, simplified]
    have "mp_step E sp p s pc = (s\<lparr>mp_avail := if ce_track E then (mp_avail s)(p := mp_avail s p - 1)
        else mp_avail s\<rparr>, A_Done (mn_data s n))"
      using A_Data n(3) m(4) by (simp add: track_eqs)
    with step ends mt_data [OF inv [unfolded A_Data]] show ?thesis
      by (intro exI [of _ ns] exI [of _ os]) auto
  qed (use pc in simp_all)
qed

lemma mt_step_return:
  assumes inv: "mthr_at E B As Bs p s (us @ Some pc # vs) ds ns os"
    and step: "mp_step E sp p s pc = (s', pc')" and ends: "mp_call_ends t pc' = (q, got)"
    and pc: "\<not> in_acquire (Some pc)"
  shows "\<exists>ns' os'. mthr_at E B As Bs p s' (us @ q # vs) (ds @ map snd got) ns' os'"
proof -
  have mem: "core_ok E B s (As @ (p, ns, os) # Bs)" and pok: "mp_pc_ok s ns (Some pc)"
    using inv by (simp_all add: mthr_defs)
  note m = core_mid [OF mem] and loc = mt_local [OF inv] and node = out_nodes [OF inv in_transit]
  show ?thesis
  proof (cases pc)
    case (R_Begin d)
    let ?n = "node_of s d"
    note n = node [of "?n", unfolded R_Begin, simplified]
    have d: "d = mn_data s ?n" using pok R_Begin by simp
    have "get_memnode_in_data d s = Inr ?n" using get_memnode_ok [OF m(2) n(2)] d by simp
    moreover have "d \<noteq> 0" using n(2) d by (simp add: node_rep_def)
    ultimately have "mp_step E sp p s pc = (s, R_Head ?n)" using R_Begin n(3) by simp
    with step ends loc [of "Some (R_Head ?n)"] R_Begin show ?thesis
      by (intro exI [of _ ns] exI [of _ os]) auto
  next
    case (R_Head n)
    note n = node [of n, unfolded R_Head, simplified]
    with R_Head step ends m(4) loc [of "Some (R_Link n (mp_head s p))"] show ?thesis
      by (intro exI [of _ ns] exI [of _ os]) auto
  next
    case (R_Link n h)
    note n = node [of n, unfolded R_Link, simplified]
    with R_Link step ends mt_link [OF inv [unfolded R_Link]] show ?thesis
      by (intro exI [of _ ns] exI [of _ os]) auto
  next
    case (R_Swap n h)
    note n = node [of n, unfolded R_Swap, simplified]
    show ?thesis
    proof (cases "mp_head s p = h \<and> \<not> sp")
      case True
      with mt_push [OF inv [unfolded R_Swap]] obtain os1 where
        "mthr_at E B As Bs p (s\<lparr>mp_head := (mp_head s)(p := n)\<rparr>) (us @ Some R_Track # vs) ds (n # ns) os1" by blast
      with True R_Swap step ends m(4) n(4) show ?thesis
        by (intro exI [of _ "n # ns"] exI [of _ os1]) auto
    next
      case False
      with R_Swap step ends m(4) n(4) loc [of "Some (R_Head n)"] show ?thesis
        by (intro exI [of _ ns] exI [of _ os]) auto
    qed
  next
    case R_Track
    with step ends mt_track [OF inv [unfolded R_Track]] m(4) show ?thesis
      by (intro exI [of _ ns] exI [of _ os]) (auto simp: track_eqs)
  qed (use pok pc in simp_all)
qed

lemma mt_step:
  assumes "malloc_ok E" "mthr_at E B As Bs p s (us @ Some pc # vs) ds ns os"
    "mp_step E sp p s pc = (s', pc')" "mp_call_ends t pc' = (q, got)"
  shows "\<exists>ns' os'. mthr_at E B As Bs p s' (us @ q # vs) (ds @ map snd got) ns' os'"
  using mt_step_acquire [OF assms] mt_step_return [OF assms(2-4)] by blast

text \<open>What a step leaves as it was: all that pool \<open>p\<close> does not own.\<close>

lemma try_alloc_fields:
  assumes "pool_mem_try_alloc_data E p s = Inr (d, s')"
  shows "mu_pools s' = mu_pools s" "mp_size s' = mp_size s" "a \<noteq> p \<Longrightarrow> mp_allocs s' a = mp_allocs s a"
  using assms by (auto simp: pool_mem_try_alloc_data_def alloc_poolable_mem_def c_malloc_def Let_def
      access_def c_free_def track_pool_usage_allocs_def andThen_eq_Inr split: if_splits prod.splits)

lemma mp_step_fields:
  assumes "mp_step E sp p s pc = (s', pc')"
  shows "mu_pools s' = mu_pools s" "mp_size s' = mp_size s" "a \<noteq> p \<Longrightarrow> mp_allocs s' a = mp_allocs s a"
  using assms try_alloc_fields [of E p s]
  by (cases pc; fastforce simp: checked_def access_def Let_def andThen_eq_Inr
      track_pool_usage_memnode_unavailable_def track_pool_usage_returned_def
      split: sum.splits if_splits)+

lemma mt_frame:
  assumes E: "malloc_ok E" and inv: "mthr_at E B As Bs p s (us @ Some pc # vs) ds ns os"
    and step: "mp_step E sp p s pc = (s', pc')"
  shows "agree (live_blocks s - set (owned_by s (p, ns, os))) s s'"
proof -
  let ?A = "live_blocks s - set (owned_by s (p, ns, os))"
  have mem: "core_ok E B s (As @ (p, ns, os) # Bs)" using inv by (simp add: mthr_defs)
  have p: "p \<notin> ?A" by simp
  have out: "n \<notin> ?A" "mn_pool s n = p" if "n \<in> set (transit s (us @ Some pc # vs))" for n
    using out_nodes [OF inv that] by (auto simp: set_node_blocks)
  show ?thesis
  proof (cases pc)
    case A_Alloc
    have "agree (live_blocks s) s s'"
      using E mem
    proof (cases rule: try_alloc_core)
      case (null s1)
      with step A_Alloc show ?thesis by auto
    next
      case (fresh n s1)
      with step A_Alloc show ?thesis by auto
    qed
    then show ?thesis by (rule agree_subset) simp
  next
    case (R_Link n h)
    with out [of n] step p show ?thesis
      by (auto simp: agree_def checked_def access_def split: if_splits)
  next
    case (R_Swap n h)
    with out [of n] step p show ?thesis
      by (auto simp: agree_def checked_def access_def Let_def split: if_splits)
  qed (use step p in \<open>auto simp: agree_def checked_def access_def andThen_eq_Inr
      track_pool_usage_memnode_unavailable_def track_pool_usage_returned_def andThen_def
      split: if_splits sum.splits\<close>)
qed

text \<open>A pool that no step is taken in.\<close>

lemma pool_threads_frame:
  assumes inv: "mthr_at E B As Bs p s (us @ None # vs) ds ns os"
    and agr: "agree (set (owned_by s (p, ns, os))) s s'" and allocs: "mp_allocs s' p = mp_allocs s p"
  shows "pool_threads E p s' (us @ None # vs) ds ns os"
proof -
  note k = mt_agree [OF inv _ agr, simplified]
  have "mp_avail s' p = mp_avail s p" using agr by (simp add: agree_def)
  then show ?thesis
    using inv k allocs by (simp add: mthr_defs out_ok_def counts_def ball_Un)
qed

text \<open>Which of the holders has a block does not matter.\<close>

lemma mthr_perm:
  assumes "mset ds' = mset ds" "mthr_at E B As Bs p s pcs ds ns os"
  shows "mthr_at E B As Bs p s pcs ds' ns os"
  using assms(2) mset_eq_setD [OF assms(1)] by (simp add: mthr_defs out_ok_def assms(1))

lemma mt_begin_release:
  "mthr_at E B As Bs p s (us @ None # vs) (d # ds) ns os \<Longrightarrow>
     mthr_at E B As Bs p s (us @ Some (R_Begin d) # vs) ds ns os"
  by (simp add: mthr_defs out_ok_def counts_def)

lemma mt_begin_acquire:
  assumes "mthr_at E B As Bs p s (us @ None # vs) ds ns os" "\<not> list_ex in_acquire us" "\<not> list_ex in_acquire vs"
  shows "mthr_at E B As Bs p s (us @ Some A_Load # vs) ds ns os"
  using assms by (intro mt_local [OF assms(1)]) (auto simp: list_ex_iff filter_empty_conv)

text \<open>A new pool, and a pool no thread is in.\<close>

lemma mt_new:
  assumes "malloc_ok E" "heap_ok (blk s0)" "sz \<noteq> 0" "alloc_mem_pool E sz s0 = (p, s)" "p \<noteq> 0"
  shows "mthr_inv E (blk s0) p s (replicate k None) [] [] []"
proof -
  have "mem_ok E (blk s0) s0 []" using assms(2) by (simp add: mem_ok_def)
  from assms(1) this assms(3) have mem: "mem_ok E (blk s0) s [(p, [], [])]"
    by (cases rule: create_pool) (use assms(4,5) in simp_all)
  have "mp_allocs s p = 0"
    using assms(4,5) by (auto simp: alloc_mem_pool_def Let_def split: prod.splits if_splits)
  moreover have "pool_rep E s (p, [], [])" using mem by (simp add: mem_ok_def)
  ultimately have "counts E p s (replicate k None) [] []" by (simp add: counts_def)
  moreover have "transit s (replicate k None) = []" by (induction k) simp_all
  moreover have "filter in_acquire (replicate k None) = []" by (simp add: filter_empty_conv)
  ultimately show ?thesis using mem_ok_core [OF mem] by (simp add: mthr_inv_def out_ok_def)
qed

lemma mt_idle:
  assumes inv: "mthr_inv E B p s pcs ds ns os" and idle: "\<forall>pc \<in> set pcs. pc = None"
  shows "mem_ok E B s [(p, ns, os)]" "mset os = mset (map (node_of s) ds)"
    "ce_track E \<Longrightarrow> mp_avail s p = of_nat (length ns) \<and> mp_allocs s p = of_nat (length ns + length os)"
proof -
  have "map (transit1 s) pcs = map (\<lambda>_. []) pcs" using idle by (intro map_cong) auto
  then have "transit s pcs = []" by (simp add: transit_def concat_eq_Nil_conv)
  then show "mset os = mset (map (node_of s) ds)" using inv by (simp add: mthr_inv_def out_ok_def)
  have "filter giving pcs = []" "filter taking pcs = []" using idle by (auto simp: filter_empty_conv)
  then show cnt: "mp_avail s p = of_nat (length ns) \<and> mp_allocs s p = of_nat (length ns + length os)"
    if "ce_track E" using inv that by (simp add: mthr_inv_def counts_def)
  show "mem_ok E B s [(p, ns, os)]"
    using inv cnt by (intro core_counted) (simp_all add: mthr_inv_def)
qed

definition msys_inv :: "c_env \<Rightarrow> (addr \<rightharpoonup> nat) \<Rightarrow> addr \<Rightarrow> mp_sys \<Rightarrow> bool" where
  "msys_inv E B p s \<longleftrightarrow>
     (\<exists>ns os. mthr_inv E B p (ms_mem s) (ms_pcs s) (map snd (ms_held s)) ns os)"

lemma msys_inv_at:
  assumes "msys_inv E B p s" "t < length (ms_pcs s)"
  obtains ns os where "mthr_inv E B p (ms_mem s)
    (take t (ms_pcs s) @ ms_pcs s ! t # drop (Suc t) (ms_pcs s)) (map snd (ms_held s)) ns os"
  using assms by (auto simp: msys_inv_def id_take_nth_drop [symmetric])

lemma mact_Step:
  assumes E: "malloc_ok E" and inv: "msys_inv E B p s"
    and act: "mp_act E serial p (MStep t sp) s = Some s'"
  shows "msys_inv E B p s'"
proof -
  from act have t: "t < length (ms_pcs s)" by (simp split: if_splits)
  with act obtain pc where pc: "ms_pcs s ! t = Some pc" by (auto split: option.splits)
  obtain m' pc' where step: "mp_step E sp p (ms_mem s) pc = (m', pc')"
    by (cases "mp_step E sp p (ms_mem s) pc")
  obtain q got where ends: "mp_call_ends t pc' = (q, got)" by (cases "mp_call_ends t pc'")
  from act t pc step ends have s': "s' = s\<lparr>ms_mem := m', ms_pcs := (ms_pcs s)[t := q],
      ms_held := ms_held s @ got\<rparr>" by simp
  from msys_inv_at [OF inv t] obtain ns os where "mthr_inv E B p (ms_mem s)
    (take t (ms_pcs s) @ Some pc # drop (Suc t) (ms_pcs s)) (map snd (ms_held s)) ns os"
    unfolding pc .
  from mt_step [OF E this step ends] t show ?thesis
    by (simp add: msys_inv_def s' upd_conv_take_nth_drop)
qed

lemma mact_BeginAcquire:
  assumes inv: "msys_inv E B p s" and act: "mp_act E True p (BeginAcquire t) s = Some s'"
  shows "msys_inv E B p s'"
proof -
  from act have t: "t < length (ms_pcs s)" "ms_pcs s ! t = None"
    and idle: "filter in_acquire (ms_pcs s) = []"
    and s': "s' = s\<lparr>ms_pcs := (ms_pcs s)[t := Some A_Load]\<rparr>"
    by (auto simp: list_ex_iff filter_empty_conv split: if_splits)
  have free: "filter in_acquire (take t (ms_pcs s)) = []" "filter in_acquire (drop (Suc t) (ms_pcs s)) = []"
    using idle by (auto simp: filter_empty_conv dest: in_set_takeD in_set_dropD)
  from msys_inv_at [OF inv t(1)] obtain ns os where at: "mthr_inv E B p (ms_mem s)
    (take t (ms_pcs s) @ None # drop (Suc t) (ms_pcs s)) (map snd (ms_held s)) ns os"
    unfolding t(2) .
  from mt_local [OF at, of "Some A_Load"] free t(1) show ?thesis
    by (auto simp: msys_inv_def s' upd_conv_take_nth_drop)
qed

lemma mact_BeginRelease:
  assumes inv: "msys_inv E B p s" and act: "mp_act E serial p (BeginRelease t k) s = Some s'"
  shows "msys_inv E B p s'"
proof -
  let ?d = "snd (ms_held s ! k)"
  let ?h' = "take k (ms_held s) @ drop (Suc k) (ms_held s)"
  from act have t: "t < length (ms_pcs s)" "ms_pcs s ! t = None" and k: "k < length (ms_held s)"
    and s': "s' = s\<lparr>ms_pcs := (ms_pcs s)[t := Some (R_Begin ?d)], ms_held := ?h'\<rparr>"
    by (auto split: if_splits)
  from msys_inv_at [OF inv t(1)] obtain ns os where at: "mthr_inv E B p (ms_mem s)
    (take t (ms_pcs s) @ None # drop (Suc t) (ms_pcs s)) (map snd (ms_held s)) ns os"
    unfolding t(2) .
  have split: "mset (map f (ms_held s)) = add_mset (f (ms_held s ! k)) (mset (map f ?h'))" for f :: "nat \<times> addr \<Rightarrow> addr"
    using mset_take_drop_nth [of k "map f (ms_held s)"] k by (simp add: take_map drop_map)
  have sub: "set (map snd ?h') \<subseteq> set (map snd (ms_held s))"
    by (auto dest: in_set_takeD in_set_dropD)
  have d: "?d \<in> set (map snd (ms_held s))" using k by simp
  have old: "mset os = mset (transit (ms_mem s) (take t (ms_pcs s) @ None # drop (Suc t) (ms_pcs s))) +
      mset (map (node_of (ms_mem s)) (map snd (ms_held s)))"
    and all: "\<forall>e \<in> set (map snd (ms_held s)). e = mn_data (ms_mem s) (node_of (ms_mem s) e)"
    using at unfolding mthr_inv_def out_ok_def by blast+
  have "mset os = mset (transit (ms_mem s) (take t (ms_pcs s) @ Some (R_Begin ?d) # drop (Suc t) (ms_pcs s))) +
      mset (map (node_of (ms_mem s)) (map snd ?h'))"
    using old split [of "node_of (ms_mem s) \<circ> snd"] by (simp add: image_mset.compositionality)
  moreover have "\<forall>e \<in> set (map snd ?h'). e = mn_data (ms_mem s) (node_of (ms_mem s) e)"
    using sub all by blast
  moreover have "?d = mn_data (ms_mem s) (node_of (ms_mem s) ?d)" using all d by blast
  ultimately have "out_ok (ms_mem s) (take t (ms_pcs s) @ Some (R_Begin ?d) # drop (Suc t) (ms_pcs s))
      (map snd ?h') os" and pd: "mp_pc_ok (ms_mem s) ns (Some (R_Begin ?d))"
    unfolding out_ok_def mp_pc_ok.simps by blast+
  then have "mthr_inv E B p (ms_mem s)
      (take t (ms_pcs s) @ Some (R_Begin ?d) # drop (Suc t) (ms_pcs s)) (map snd ?h') ns os"
    using at unfolding mthr_inv_def by (simp add: counts_def del: map_append)
  with t(1) show ?thesis by (auto simp: msys_inv_def s' upd_conv_take_nth_drop)
qed

lemma mreachable_inv:
  assumes E: "malloc_ok E" and s0: "heap_ok (blk s0)" "sz \<noteq> 0"
    and reach: "mp_reachable E True s0 sz threads p s"
  shows "msys_inv E (blk s0) p s"
  using reach
proof induction
  case (mp_start s)
  with mt_new [OF E s0] show ?case by (auto simp: msys_inv_def)
next
  case (mp_do s a s')
  show ?case
  proof (cases a)
    case (BeginAcquire t)
    with mp_do show ?thesis using mact_BeginAcquire by blast
  next
    case (BeginRelease t k)
    with mp_do show ?thesis using mact_BeginRelease by blast
  next
    case (MStep t sp)
    with mp_do E show ?thesis using mact_Step by blast
  qed
qed

lemma map_back: "\<forall>d \<in> set ds. d = f (g d) \<Longrightarrow> map f (map g ds) = ds"
  by (induction ds) auto

section \<open>Sample runs\<close>

definition thread_env :: c_env where
  "thread_env = \<lparr>ce_malloc = next_fit (\<lambda>_. False), ce_track = False\<rparr>"

definition thread_start :: mp_sys where
  "thread_start = \<lparr>ms_mem = snd (alloc_mem_pool thread_env 16 empty_mem),
     ms_pcs = replicate 3 None, ms_held = []\<rparr>"

definition msteps :: "nat \<Rightarrow> nat \<Rightarrow> mp_action list" where
  "msteps t k = replicate k (MStep t False)"

lemma thread_env_ok: "malloc_ok thread_env" "\<not> ce_track thread_env"
  using next_fit_ok [of "\<lambda>_. False"]
  by (simp_all add: thread_env_def malloc_ok_def next_fit_env_def)

lemma thread_start_reachable: "mp_reachable thread_env serial empty_mem 16 3 8 thread_start"
proof -
  have "fst (alloc_mem_pool thread_env 16 empty_mem) = 8" by code_simp
  then have "alloc_mem_pool thread_env 16 empty_mem = (8, snd (alloc_mem_pool thread_env 16 empty_mem))"
    by (metis prod.collapse)
  then show ?thesis unfolding thread_start_def by (rule mp_reachable.mp_start) simp
qed

text \<open>The same with \<open>TRACK_POOL_USAGE\<close>.\<close>

definition tracked_env :: c_env where
  "tracked_env = thread_env\<lparr>ce_track := True\<rparr>"

definition tracked_start :: mp_sys where
  "tracked_start = \<lparr>ms_mem = snd (alloc_mem_pool tracked_env 16 empty_mem),
     ms_pcs = replicate 3 None, ms_held = []\<rparr>"

lemma tracked_env_ok: "malloc_ok tracked_env" "ce_track tracked_env"
  using thread_env_ok(1) by (simp_all add: tracked_env_def malloc_ok_def)

lemma tracked_start_reachable: "mp_reachable tracked_env serial empty_mem 16 3 8 tracked_start"
proof -
  have "fst (alloc_mem_pool tracked_env 16 empty_mem) = 8" by code_simp
  then have "alloc_mem_pool tracked_env 16 empty_mem = (8, snd (alloc_mem_pool tracked_env 16 empty_mem))"
    by (metis prod.collapse)
  then show ?thesis unfolding tracked_start_def by (rule mp_reachable.mp_start) simp
qed

text \<open>Threads 0 and 1 each acquire a block.\<close>

definition two_blocks :: "mp_action list" where
  "two_blocks = [BeginAcquire 0] @ msteps 0 2 @ [BeginAcquire 1] @ msteps 1 2"

lemma two_blocks_run:
  obtains s where "mp_reachable thread_env True empty_mem 16 3 8 s"
    "ms_held s = [(0, 56), (1, 104)]" "ms_pcs s = [None, None, None]"
proof -
  have "(case mp_exec thread_env True 8 two_blocks thread_start of None \<Rightarrow> False
      | Some s \<Rightarrow> ms_held s = [(0, 56), (1, 104)] \<and> ms_pcs s = [None, None, None])"
    by code_simp
  with that mp_exec_reachable [OF thread_start_reachable, of True two_blocks] show ?thesis
    by (auto split: option.splits)
qed

text \<open>With tracking, and then thread 1 returns its block.\<close>

definition two_and_back :: "mp_action list" where
  "two_and_back = two_blocks @ [BeginRelease 1 1] @ msteps 1 5"

lemma two_and_back_run:
  obtains s where "mp_reachable tracked_env True empty_mem 16 3 8 s"
    "length (ms_held s) = 1" "ms_pcs s = [None, None, None]"
proof -
  have "(case mp_exec tracked_env True 8 two_and_back tracked_start of None \<Rightarrow> False
      | Some s \<Rightarrow> length (ms_held s) = 1 \<and> ms_pcs s = [None, None, None])"
    by code_simp
  with that mp_exec_reachable [OF tracked_start_reachable, of True two_and_back] show ?thesis
    by (auto split: option.splits)
qed

section \<open>What the machine guarantees\<close>

text \<open>C2: however the steps of any number of threads interleave, if calls of
  \<open>pool_mem_acquire\<close> do not overlap then no block is handed out to two holders at once, the
  blocks held do not overlap in memory, and no thread fails an assertion or accesses memory
  that is not live.\<close>

theorem mempool_threads_exclusive:
  assumes "malloc_ok E" "heap_ok (blk s0)" "sz \<noteq> 0"
    "mp_reachable E True s0 sz threads p s"
  shows "distinct (map snd (ms_held s)) \<and>
    (\<forall>d \<in> set (map snd (ms_held s)). \<forall>e \<in> set (map snd (ms_held s)). d \<noteq> e \<longrightarrow>
      apart d (unat (mp_size (ms_mem s) p)) e (unat (mp_size (ms_mem s) p))) \<and>
    (\<forall>e. Some (Failed e) \<notin> set (ms_pcs s))"
proof -
  let ?m = "ms_mem s" and ?ds = "map snd (ms_held s)"
  from mreachable_inv [OF assms] obtain ns os where
    inv: "mthr_inv E (blk s0) p ?m (ms_pcs s) ?ds ns os" by (auto simp: msys_inv_def)
  have mem: "core_ok E (blk s0) ?m [(p, ns, os)]" and
    out: "mset os = mset (transit ?m (ms_pcs s)) + mset (map (node_of ?m) ?ds)"
      "\<forall>d \<in> set ?ds. d = mn_data ?m (node_of ?m d)"
    using inv unfolding mthr_inv_def out_ok_def by blast+
  have "distinct (map (node_of ?m) ?ds)" using out_distinct [OF inv] by simp
  then have "distinct ?ds" by (simp only: distinct_map)
  moreover have "apart d (unat (mp_size ?m p)) e (unat (mp_size ?m p))"
    if de: "d \<in> set ?ds" "e \<in> set ?ds" "d \<noteq> e" for d e
  proof -
    have sub: "node_of ?m d \<in> set os" if "d \<in> set ?ds" for d
      using that mset_eq_setD [OF out(1) [folded mset_append]] by auto
    have b: "mn_data ?m n = data_block ?m n + sizeof_ptrdiff_t"
      "blk ?m (data_block ?m n) = Some (unat (mp_size ?m p) + sizeof_ptrdiff_t)" if "n \<in> set os" for n
    proof -
      have "node_rep ?m p n" using mid(1) [OF mem] that by simp
      then show "mn_data ?m n = data_block ?m n + sizeof_ptrdiff_t"
        "blk ?m (data_block ?m n) = Some (unat (mp_size ?m p) + sizeof_ptrdiff_t)"
        by (simp_all add: node_rep_def data_block_def)
    qed
    have dd: "d = data_block ?m (node_of ?m d) + sizeof_ptrdiff_t"
      "blk ?m (data_block ?m (node_of ?m d)) = Some (unat (mp_size ?m p) + sizeof_ptrdiff_t)"
      if "d \<in> set ?ds" for d
      using b [of "node_of ?m d"] sub [OF that] out(2) that by auto
    have "data_block ?m (node_of ?m d) \<noteq> data_block ?m (node_of ?m e)"
      using dd(1) [OF de(1)] dd(1) [OF de(2)] de(3) by metis
    then have "apart (data_block ?m (node_of ?m d)) (unat (mp_size ?m p) + sizeof_ptrdiff_t)
        (data_block ?m (node_of ?m e)) (unat (mp_size ?m p) + sizeof_ptrdiff_t)"
      using mid(2) [OF mem] dd(2) [OF de(1)] dd(2) [OF de(2)] unfolding heap_ok_def by blast
    then show ?thesis
      using dd(1) [OF de(1)] dd(1) [OF de(2)] unfolding apart_def by linarith
  qed
  moreover have "Some (Failed e) \<notin> set (ms_pcs s)" for e
    using inv by (auto simp: mthr_inv_def)
  ultimately show ?thesis by blast
qed

theorem mempool_threads_exclusive_witness:
  "\<exists>s. mp_reachable thread_env True empty_mem 16 3 8 s \<and> ms_held s = [(0, 56), (1, 104)] \<and>
    apart 56 (unat (mp_size (ms_mem s) 8)) 104 (unat (mp_size (ms_mem s) 8))"
proof (rule two_blocks_run)
  fix s
  assume s: "mp_reachable thread_env True empty_mem 16 3 8 s" "ms_held s = [(0, 56), (1, 104)]"
  from mempool_threads_exclusive [OF thread_env_ok(1) heap_ok_empty _ s(1)] s show ?thesis by auto
qed

text \<open>C16: when no call is in progress, the pool is in a state of its single-threaded
  specification, the blocks that are out are exactly those held, and with
  \<open>TRACK_POOL_USAGE\<close> the counters are right: no update of theirs is lost.\<close>

theorem mempool_threads_conserve:
  assumes "malloc_ok E" "heap_ok (blk s0)" "sz \<noteq> 0"
    "mp_reachable E True s0 sz threads p s" "\<forall>pc \<in> set (ms_pcs s). pc = None"
  shows "\<exists>ns os. mem_ok E (blk s0) (ms_mem s) [(p, ns, os)] \<and>
    mset (map (mn_data (ms_mem s)) os) = mset (map snd (ms_held s)) \<and>
    (ce_track E \<longrightarrow> mp_avail (ms_mem s) p = of_nat (length ns) \<and>
      mp_allocs (ms_mem s) p = of_nat (length ns + length os))"
proof -
  let ?m = "ms_mem s" and ?ds = "map snd (ms_held s)"
  from mreachable_inv [OF assms(1-4)] obtain ns os where
    inv: "mthr_inv E (blk s0) p ?m (ms_pcs s) ?ds ns os" by (auto simp: msys_inv_def)
  note idle = mt_idle [OF inv assms(5)]
  have "mset (map (mn_data ?m) os) = mset (map (mn_data ?m) (map (node_of ?m) ?ds))"
    using idle(2) by (simp only: mset_map)
  also have "map (mn_data ?m) (map (node_of ?m) ?ds) = ?ds"
    using inv unfolding mthr_inv_def out_ok_def by (intro map_back) blast
  finally show ?thesis using idle(1,3) by blast
qed

theorem mempool_threads_conserve_witness:
  "\<exists>s ns os. mp_reachable tracked_env True empty_mem 16 3 8 s \<and>
    mem_ok tracked_env (blk empty_mem) (ms_mem s) [(8, ns, os)] \<and> length os = 1 \<and>
    mp_avail (ms_mem s) 8 = of_nat (length ns) \<and> mp_allocs (ms_mem s) 8 = of_nat (length ns + 1)"
proof (rule two_and_back_run)
  fix s
  assume s: "mp_reachable tracked_env True empty_mem 16 3 8 s" "length (ms_held s) = 1"
    "ms_pcs s = [None, None, None]"
  then have "\<forall>pc \<in> set (ms_pcs s). pc = None" by simp
  from mempool_threads_conserve [OF tracked_env_ok(1) heap_ok_empty _ s(1) this] obtain ns os where
    o: "mem_ok tracked_env (blk empty_mem) (ms_mem s) [(8, ns, os)]"
    "mset (map (mn_data (ms_mem s)) os) = mset (map snd (ms_held s))"
    "mp_avail (ms_mem s) 8 = of_nat (length ns) \<and> mp_allocs (ms_mem s) 8 = of_nat (length ns + length os)"
    using tracked_env_ok(2) by auto
  have "length os = 1" using arg_cong [OF o(2), of size] s(2) by simp
  with o s(1) show ?thesis by auto
qed

text \<open>
  Two nodes are in the pool. Thread 0 starts an acquire and is stopped after reading the head
  and its successor; thread 1 acquires both nodes and returns the first, so that the head is
  again what thread 0 saw; the exchange of thread 0 succeeds and puts the second node, which
  thread 1 holds, back at the head, where thread 2 gets it.
\<close>

definition aba_schedule :: "mp_action list" where
  "aba_schedule =
     [BeginAcquire 1] @ msteps 1 2 @ [BeginAcquire 1] @ msteps 1 2 @
     [BeginRelease 1 1] @ msteps 1 5 @ [BeginRelease 1 0] @ msteps 1 5 @
     [BeginAcquire 0] @ msteps 0 2 @
     [BeginAcquire 1] @ msteps 1 4 @ [BeginAcquire 1] @ msteps 1 4 @
     [BeginRelease 1 0] @ msteps 1 5 @ msteps 0 2 @ [BeginAcquire 2] @ msteps 2 4"

text \<open>C39: with overlapping calls of \<open>pool_mem_acquire\<close> the same block can be handed to two
  threads: three threads reach a state where no call is in progress and threads 1 and 2 both
  hold block 104.\<close>

theorem mempool_threads_aba:
  "\<exists>s. mp_reachable thread_env False empty_mem 16 3 8 s \<and>
    ms_held s = [(1, 104), (0, 56), (2, 104)] \<and> ms_pcs s = [None, None, None]"
proof -
  have "(case mp_exec thread_env False 8 aba_schedule thread_start of None \<Rightarrow> False
      | Some s \<Rightarrow> ms_held s = [(1, 104), (0, 56), (2, 104)] \<and> ms_pcs s = [None, None, None])"
    by code_simp
  with mp_exec_reachable [OF thread_start_reachable, of False aba_schedule] show ?thesis
    by (auto split: option.splits)
qed

end
