(* ===== verification/MemPool_Progress.thy ===== *)
theory MemPool_Progress
  imports MemPool_Threads SoloCall
begin

text \<open>
  How long a call on a C memory pool (\<open>simple_pool/dyn_mem_pool.h\<close>) takes when its thread runs
  alone on the machine of \<open>MemPool_Threads\<close>, from any state that other threads may have left it
  in. The loops of \<open>pool_mem_acquire\<close> and \<open>pool_mem_return\<close> go round again only if the head of
  the pool has changed since they read it, or if an exchange fails spuriously.
\<close>

section \<open>Steps left\<close>

fun in_return :: "mp_pc \<Rightarrow> bool" where
  "in_return (R_Begin d) = True"
| "in_return (R_Head n) = True"
| "in_return (R_Link n h) = True"
| "in_return (R_Swap n h) = True"
| "in_return R_Track = True"
| "in_return _ = False"

lemma step_in_acquire:
  "in_acquire (Some pc) \<Longrightarrow> mp_step E sp p s pc = (s', pc') \<Longrightarrow>
     in_acquire (Some pc') \<or> (\<exists>d. pc' = A_Done d) \<or> (\<exists>e. pc' = Failed e)"
  by (cases pc) (auto simp: checked_def access_def andThen_eq_Inr split: if_splits sum.splits)

lemma step_in_return:
  "in_return pc \<Longrightarrow> mp_step E sp p s pc = (s', pc') \<Longrightarrow>
     in_return pc' \<or> pc' = R_End \<or> (\<exists>e. pc' = Failed e)"
  by (cases pc) (auto simp: checked_def access_def Let_def andThen_eq_Inr split: if_splits sum.splits)

text \<open>How many steps a call has left if its thread runs alone and no exchange fails spuriously.\<close>

fun mp_left :: "cmem \<Rightarrow> addr \<Rightarrow> mp_pc \<Rightarrow> nat" where
  "mp_left s p A_Load = 4"
| "mp_left s p A_Alloc = 1"
| "mp_left s p (A_Next a) = (if mp_head s p = a then 3 else 6)"
| "mp_left s p (A_Cas a b) = (if mp_head s p = a then 2 else 5)"
| "mp_left s p (A_Data a) = 1"
| "mp_left s p (R_Begin d) = 5"
| "mp_left s p (R_Head n) = 4"
| "mp_left s p (R_Link n h) = (if mp_head s (mn_pool s n) = h then 3 else 6)"
| "mp_left s p (R_Swap n h) = (if mp_head s (mn_pool s n) = h then 2 else 5)"
| "mp_left s p R_Track = 1"
| "mp_left s p _ = 0"

lemma mp_left_step:
  assumes "mp_step E False p s pc = (s', pc')" "in_acquire (Some pc) \<or> in_return pc"
    and "in_acquire (Some pc') \<or> in_return pc'"
  shows "mp_left s' p pc' < mp_left s p pc"
  using assms
  by (cases pc) (auto simp: checked_def access_def Let_def andThen_eq_Inr split: if_splits sum.splits)

lemma mp_left_bound: "mp_left s p pc \<le> 6"
  by (cases pc) simp_all

lemma mp_left_pos: "in_acquire (Some pc) \<or> in_return pc \<Longrightarrow> 0 < mp_left s p pc"
  by (cases pc) simp_all

text \<open>The call is one of the two, and it goes on or has ended.\<close>

lemma call_in_progress:
  assumes "msys_inv E B p s" "t < length (ms_pcs s)" "ms_pcs s ! t = Some pc"
  shows "in_acquire (Some pc) \<or> in_return pc"
proof -
  from msys_inv_at [OF assms(1,2)] obtain ns where "mp_pc_ok (ms_mem s) ns (Some pc)"
    unfolding assms(3) by (auto simp: mthr_inv_def)
  then show ?thesis by (cases pc) simp_all
qed

lemma call_goes_on: "mp_call_ends t pc = (Some q, got) \<Longrightarrow> q = pc"
  by (cases "(t, pc)" rule: mp_call_ends.cases) auto

section \<open>A thread alone\<close>

definition mp_call_left :: "addr \<Rightarrow> nat \<Rightarrow> mp_sys \<Rightarrow> nat" where
  "mp_call_left p t s = (case ms_pcs s ! t of None \<Rightarrow> 0 | Some pc \<Rightarrow> mp_left (ms_mem s) p pc)"

lemma mp_solo_step:
  assumes E: "malloc_ok E" and inv: "msys_inv E B p s" and t: "t < length (ms_pcs s)" "ms_pcs s ! t = Some pc"
  shows "\<exists>s'. mp_act E True p (MStep t sp) s = Some s' \<and> msys_inv E B p s' \<and> t < length (ms_pcs s') \<and>
    (\<not> sp \<longrightarrow> ms_pcs s' ! t = None \<or> mp_call_left p t s' < mp_call_left p t s)"
proof -
  obtain m' pc' where step: "mp_step E sp p (ms_mem s) pc = (m', pc')"
    by (cases "mp_step E sp p (ms_mem s) pc")
  obtain q got where ends: "mp_call_ends t pc' = (q, got)" by (cases "mp_call_ends t pc'")
  define s' where "s' = s\<lparr>ms_mem := m', ms_pcs := (ms_pcs s)[t := q], ms_held := ms_held s @ got\<rparr>"
  have act: "mp_act E True p (MStep t sp) s = Some s'" using t step ends by (simp add: s'_def)
  have now: "ms_pcs s' ! t = q" "t < length (ms_pcs s')" using t(1) by (simp_all add: s'_def)
  note inv' = mact_Step [OF E inv act]
  have "mp_call_left p t s' < mp_call_left p t s" if sp: "\<not> sp" and Some: "q = Some r" for r
  proof -
    have at: "ms_pcs s' ! t = Some pc'" using now(1) Some ends call_goes_on by metis
    have step': "mp_step E False p (ms_mem s) pc = (m', pc')" using step sp by simp
    have "mp_left m' p pc' < mp_left (ms_mem s) p pc"
      by (rule mp_left_step [OF step' call_in_progress [OF inv t] call_in_progress [OF inv' now(2) at]])
    then show ?thesis using at t(2) by (simp add: mp_call_left_def) (simp add: s'_def)
  qed
  with act inv' now show ?thesis by (cases q) auto
qed

interpretation mp_solo: solo_call "\<lambda>sp. mp_act E True p (MStep t sp)"
  "\<lambda>s. malloc_ok E \<and> msys_inv E B p s \<and> t < length (ms_pcs s)" "\<lambda>s. ms_pcs s ! t = None"
  "mp_call_left p t" 6 for E B p t
proof unfold_locales
  fix s sp
  assume s: "malloc_ok E \<and> msys_inv E B p s \<and> t < length (ms_pcs s)" "ms_pcs s ! t \<noteq> None"
  then obtain pc where pc: "ms_pcs s ! t = Some pc" by blast
  have "in_acquire (Some pc) \<or> in_return pc" using call_in_progress [OF _ _ pc] s(1) by blast
  then show "0 < mp_call_left p t s" using mp_left_pos pc by (simp add: mp_call_left_def)
  from s(1) mp_solo_step [OF _ _ _ pc] show "\<exists>s'. mp_act E True p (MStep t sp) s = Some s' \<and>
      (malloc_ok E \<and> msys_inv E B p s' \<and> t < length (ms_pcs s')) \<and>
      (\<not> sp \<longrightarrow> ms_pcs s' ! t = None \<or> mp_call_left p t s' < mp_call_left p t s)" by blast
qed (simp add: mp_call_left_def mp_left_bound split: option.split)

lemma mp_solo_exec:
  "solo_run (\<lambda>sp. mp_act E serial p (MStep t sp)) fs s = mp_exec E serial p (map (MStep t) fs) s"
  by (induction fs arbitrary: s) (simp_all split: option.split)

section \<open>What the loops guarantee\<close>

text \<open>C15: on a pool for blocks of at least one byte, when calls of \<open>pool_mem_acquire\<close> do not overlap,
  a thread in the middle of \<open>pool_mem_acquire\<close> or \<open>pool_mem_return\<close> that runs alone from then on
  has ended its call after six steps of its own, and six more for each exchange that fails
  spuriously, whatever the other threads have left undone: \<open>fs\<close> says of each of its steps whether
  it fails spuriously. No thread waits for another.\<close>

theorem mempool_threads_progress:
  assumes "malloc_ok E" "heap_ok (blk s0)" "sz \<noteq> 0" "mp_reachable E True s0 sz threads p s"
    "t < length (ms_pcs s)" "6 * Suc (count_list fs True) \<le> length fs"
  shows "\<exists>j s'. j \<le> length fs \<and> mp_exec E True p (map (MStep t) (take j fs)) s = Some s' \<and>
    ms_pcs s' ! t = None"
  using mp_solo.ends [of E "blk s0" p s t fs] mreachable_inv [OF assms(1-4)] assms(1,5,6)
  by (simp add: mp_solo_exec take_map)

text \<open>Thread 0 has linked its node to the empty list and is about to exchange the head when
  thread 1 returns a node.\<close>

definition overtaken :: "mp_action list" where
  "overtaken = two_blocks @ [BeginRelease 0 0] @ msteps 0 3 @ [BeginRelease 1 0] @ msteps 1 5"

theorem mempool_threads_progress_witness:
  "\<exists>s j s'. mp_reachable thread_env True empty_mem 16 3 8 s \<and> ms_pcs s ! 0 = Some (R_Swap 24 0) \<and>
    j \<le> 12 \<and> mp_exec thread_env True 8 (map (MStep 0) (take j (True # replicate 11 False))) s = Some s' \<and>
    ms_pcs s' ! 0 = None"
proof -
  have "(case mp_exec thread_env True 8 overtaken thread_start of None \<Rightarrow> False
      | Some s \<Rightarrow> ms_pcs s = [Some (R_Swap 24 0), None, None])"
    by code_simp
  then obtain s where s: "mp_exec thread_env True 8 overtaken thread_start = Some s"
    "ms_pcs s = [Some (R_Swap 24 0), None, None]" by (auto split: option.splits)
  note reach = mp_exec_reachable [OF thread_start_reachable s(1)]
  let ?fs = "True # replicate 11 False"
  have "0 < length (ms_pcs s)" "6 * Suc (count_list ?fs True) \<le> length ?fs"
    using s(2) by (simp_all add: eval_nat_numeral)
  from mempool_threads_progress [OF thread_env_ok(1) heap_ok_empty _ reach this] obtain j s' where
    "j \<le> length ?fs" "mp_exec thread_env True 8 (map (MStep 0) (take j ?fs)) s = Some s'" "ms_pcs s' ! 0 = None"
    by auto
  moreover have "ms_pcs s ! 0 = Some (R_Swap 24 0)" by (simp add: s(2))
  ultimately show ?thesis using reach by auto
qed

end
