(* ===== verification/MemPool_FuzzThreads.thy ===== *)
theory MemPool_FuzzThreads
  imports MemPool_Fuzz MemPool_Progress ThreadProgram
begin

text \<open>
  The function of \<open>simple_pool/dyn_mem_pool_fuzz.c\<close> that starts threads, on the steps of
  \<open>MemPool_Threads\<close>: 32 runners acquire 33 blocks each and return them, 500 times, and when
  they have ended the list of the pool is checked for nodes that occur twice and freed. As long
  as calls of \<open>pool_mem_acquire\<close> do not overlap, no runner fails, all of them can end, and the
  check passes. Yields and the calls that print are left out.
\<close>

section \<open>The runners\<close>

definition num_runs :: nat where
  "num_runs = 500"

definition num_memnodes :: nat where
  "num_memnodes = 33"

definition num_runners :: nat where
  "num_runners = 32"

definition memnode_size :: u32 where
  "memnode_size = 32"

text \<open>
  Where \<open>pool_acquire_return_fn\<close> is, with \<open>i\<close> and \<open>j\<close>: at the test of the outer loop, of
  the loop that acquires, in \<open>pool_mem_acquire\<close>, at the test of the loop that returns, in
  \<open>pool_mem_return\<close>, at the end. \<open>all_data\<close> is a function from its indices.
\<close>

datatype runner_pc =
    U_Run nat
  | U_Get nat nat
  | U_Acquire nat nat mp_pc
  | U_Give nat nat
  | U_Return nat nat mp_pc
  | U_End

record runner =
  ru_all_data :: "nat \<Rightarrow> addr"
  ru_pc :: runner_pc

text \<open>A step of a runner: of the method it is in, with the assignment that follows its end, or
  of its own.\<close>

definition runner_step :: "c_env \<Rightarrow> bool \<Rightarrow> addr \<Rightarrow> cmem \<Rightarrow> runner \<Rightarrow> cmem \<times> runner" where
  "runner_step E spurious pool s ru =
     (case ru_pc ru of
        U_Run i \<Rightarrow> (s, ru\<lparr>ru_pc := if i < num_runs then U_Get i 0 else U_End\<rparr>)
      | U_Get i j \<Rightarrow>
          (s, ru\<lparr>ru_pc := if j < num_memnodes then U_Acquire i j A_Load else U_Give i 0\<rparr>)
      | U_Acquire i j pc \<Rightarrow>
          (case mp_step E spurious pool s pc of (s', pc') \<Rightarrow>
             (s', case pc' of
                    A_Done d \<Rightarrow>
                      ru\<lparr>ru_all_data := (ru_all_data ru)(j := d), ru_pc := U_Get i (Suc j)\<rparr>
                  | _ \<Rightarrow> ru\<lparr>ru_pc := U_Acquire i j pc'\<rparr>))
      | U_Give i j \<Rightarrow>
          (s, ru\<lparr>ru_pc :=
             if j < num_memnodes then U_Return i j (R_Begin (ru_all_data ru j)) else U_Run (Suc i)\<rparr>)
      | U_Return i j pc \<Rightarrow>
          (case mp_step E spurious pool s pc of (s', pc') \<Rightarrow>
             (s', ru\<lparr>ru_pc := if pc' = R_End then U_Give i (Suc j) else U_Return i j pc'\<rparr>))
      | U_End \<Rightarrow> (s, ru))"

fun runner_call :: "runner_pc \<Rightarrow> mp_pc option" where
  "runner_call (U_Acquire i j pc) = Some pc"
| "runner_call (U_Return i j pc) = Some pc"
| "runner_call _ = None"

fun begins_acquire :: "runner_pc \<Rightarrow> bool" where
  "begins_acquire (U_Get i j) = (j < num_memnodes)"
| "begins_acquire _ = False"

section \<open>The program\<close>

record runner_sys =
  rs_mem :: cmem
  rs_runners :: "runner list"

abbreviation calls :: "runner list \<Rightarrow> mp_pc option list" where
  "calls rus \<equiv> map (\<lambda>ru. runner_call (ru_pc ru)) rus"

text \<open>The function starts without runners and creates them one by one. \<open>created\<close> is the result of
  \<open>pthread_create\<close>, on which there is an assertion; a runner that was created may make its steps
  while the next ones are created. Its array is not initialised: the contents are an argument.\<close>

definition runners_start :: "cmem \<Rightarrow> runner_sys" where
  "runners_start s = \<lparr>rs_mem = s, rs_runners = []\<rparr>"

definition create_runner :: "int \<Rightarrow> (nat \<Rightarrow> addr) \<Rightarrow> runner_sys \<Rightarrow> c_error + runner_sys" where
  "create_runner created all_data s =
     (if created = 0
      then Inr (s\<lparr>rs_runners := rs_runners s @ [\<lparr>ru_all_data = all_data, ru_pc = U_Run 0\<rparr>]\<rparr>)
      else Inl AssertFail)"

definition rn_act ::
    "c_env \<Rightarrow> bool \<Rightarrow> addr \<Rightarrow> nat \<times> bool \<Rightarrow> runner_sys \<Rightarrow> runner_sys option" where
  "rn_act E serial pool = (\<lambda>(t, spurious) s.
     if t < length (rs_runners s) \<and>
        (serial \<and> begins_acquire (ru_pc (rs_runners s ! t)) \<longrightarrow>
           \<not> list_ex in_acquire (calls (rs_runners s)))
     then (case runner_step E spurious pool (rs_mem s) (rs_runners s ! t) of
             (s', ru) \<Rightarrow> Some \<lparr>rs_mem = s', rs_runners = (rs_runners s)[t := ru]\<rparr>)
     else None)"

fun rn_exec ::
    "c_env \<Rightarrow> bool \<Rightarrow> addr \<Rightarrow> (nat \<times> bool) list \<Rightarrow> runner_sys \<Rightarrow> runner_sys option" where
  "rn_exec E serial pool [] s = Some s"
| "rn_exec E serial pool (a # as) s =
     (case rn_act E serial pool a s of None \<Rightarrow> None | Some s' \<Rightarrow> rn_exec E serial pool as s')"

definition runners_ended :: "runner_sys \<Rightarrow> bool" where
  "runners_ended s \<longleftrightarrow> length (rs_runners s) = num_runners \<and>
     list_all (\<lambda>ru. ru_pc ru = U_End) (rs_runners s)"

text \<open>The check of \<open>fuzz_acquire_release_multi_threaded\<close> after the joins: how often a node is
  in the list, and that it is there once for each node of the list. \<open>None\<close> if a loop never
  ends.\<close>

partial_function (option) count_loop :: "cmem \<Rightarrow> addr \<Rightarrow> addr \<Rightarrow> int \<Rightarrow> (c_error + int) option" where
  "count_loop s node ptr node_count =
     (if ptr = 0 then Some (Inr node_count)
      else if valid sizeof_MemNode ptr s
      then count_loop s node (mn_next s ptr) (if ptr = node then node_count + 1 else node_count)
      else Some (Inl BadAccess))"

partial_function (option) check_nodes :: "c_env \<Rightarrow> cmem \<Rightarrow> addr \<Rightarrow> addr \<Rightarrow> (c_error + unit) option" where
  "check_nodes E s pool node =
     (if node = 0 then Some (Inr ())
      else if \<not> valid (sizeof_MemPool E) pool s then Some (Inl BadAccess)
      else
        (case count_loop s node (mp_head s pool) 0 of
           None \<Rightarrow> None
         | Some (Inl e) \<Rightarrow> Some (Inl e)
         | Some (Inr node_count) \<Rightarrow>
             if node_count \<noteq> 1 then Some (Inl AssertFail)
             else if valid sizeof_MemNode node s then check_nodes E s pool (mn_next s node)
             else Some (Inl BadAccess)))"

definition check_and_free :: "c_env \<Rightarrow> addr \<Rightarrow> cmem \<Rightarrow> c_error + cmem" where
  "check_and_free E pool s =
     access (sizeof_MemPool E) pool s
       (case check_nodes E s pool (mp_head s pool) of
          None \<Rightarrow> Inl NoReturn
        | Some r \<Rightarrow> andThen r (\<lambda>_. free_mem_pool E pool s))"

text \<open>The states of the function between the first \<open>pthread_create\<close> and the last join;
  \<open>create i\<close> is the result of the call for runner \<open>i\<close>.\<close>

inductive rn_reachable ::
    "c_env \<Rightarrow> bool \<Rightarrow> (nat \<Rightarrow> int) \<Rightarrow> cmem \<Rightarrow> addr \<Rightarrow> runner_sys \<Rightarrow> bool"
  for E :: c_env and serial :: bool and create :: "nat \<Rightarrow> int" and s0 :: cmem and pool :: addr where
  rn_start: "alloc_mem_pool E memnode_size s0 = (pool, s) \<Longrightarrow>
    rn_reachable E serial create s0 pool (runners_start s)"
| rn_create: "rn_reachable E serial create s0 pool s \<Longrightarrow> length (rs_runners s) < num_runners \<Longrightarrow>
    create_runner (create (length (rs_runners s))) all_data s = Inr s' \<Longrightarrow>
    rn_reachable E serial create s0 pool s'"
| rn_do: "rn_reachable E serial create s0 pool s \<Longrightarrow> rn_act E serial pool a s = Some s' \<Longrightarrow>
    rn_reachable E serial create s0 pool s'"

lemma rn_exec_reachable:
  "rn_reachable E serial create s0 pool s \<Longrightarrow> rn_exec E serial pool as s = Some s' \<Longrightarrow>
    rn_reachable E serial create s0 pool s'"
  by (induction as arbitrary: s) (auto split: option.splits intro: rn_reachable.rn_do)

section \<open>The invariant\<close>

fun runner_held :: "(nat \<Rightarrow> addr) \<Rightarrow> runner_pc \<Rightarrow> addr list" where
  "runner_held data (U_Get i j) = map data [0..<j]"
| "runner_held data (U_Acquire i j pc) = map data [0..<j]"
| "runner_held data (U_Give i j) = map data [j..<num_memnodes]"
| "runner_held data (U_Return i j pc) = map data [Suc j..<num_memnodes]"
| "runner_held data _ = []"

definition ru_held :: "runner \<Rightarrow> addr list" where
  "ru_held ru = runner_held (ru_all_data ru) (ru_pc ru)"

fun runner_wf :: "runner_pc \<Rightarrow> bool" where
  "runner_wf (U_Get i j) = (i < num_runs \<and> j \<le> num_memnodes)"
| "runner_wf (U_Acquire i j pc) = (i < num_runs \<and> j < num_memnodes \<and> in_acquire (Some pc))"
| "runner_wf (U_Give i j) = (i < num_runs \<and> j \<le> num_memnodes)"
| "runner_wf (U_Return i j pc) = (i < num_runs \<and> j < num_memnodes \<and> in_return pc)"
| "runner_wf _ = True"

definition rn_inv :: "c_env \<Rightarrow> (addr \<rightharpoonup> nat) \<Rightarrow> addr \<Rightarrow> runner_sys \<Rightarrow> bool" where
  "rn_inv E B p s \<longleftrightarrow>
     (\<exists>ns os. mthr_inv E B p (rs_mem s) (calls (rs_runners s)) (concat (map ru_held (rs_runners s))) ns os) \<and>
     (\<forall>ru \<in> set (rs_runners s). runner_wf (ru_pc ru))"

lemma mt_not_failed: "mthr_inv E B p s (us @ Some (Failed e) # vs) ds ns os \<Longrightarrow> False"
  by (simp add: mthr_inv_def)

lemma acquired_not_null:
  assumes E: "malloc_ok E" "never_null E" and inv: "mthr_inv E B p s (us @ Some pc # vs) ds ns os"
    and pc: "in_acquire (Some pc)" and step: "mp_step E sp p s pc = (s', A_Done d)"
  shows "d \<noteq> 0"
proof (cases pc)
  case A_Alloc
  from inv obtain g where "mem_ok E B (s\<lparr>mp_avail := g\<rparr>) ([] @ (p, ns, os) # [])"
    by (auto simp: mthr_inv_def core_ok_def)
  moreover have "pool_mem_try_alloc_data E p s = Inr (d, s')"
    using step A_Alloc by (auto simp: checked_def andThen_eq_Inr split: sum.splits)
  then have "pool_mem_try_alloc_data E p (s\<lparr>mp_avail := g\<rparr>) = Inr (d, s'\<lparr>mp_avail := g\<rparr>)"
    by (simp add: try_alloc_avail)
  ultimately show ?thesis by (rule try_alloc_not_null [OF E])
next
  case (A_Data n)
  from mt_data(2) [OF inv [unfolded A_Data]] step A_Data show ?thesis
    by (auto simp: checked_def access_def track_pool_usage_memnode_unavailable_def andThen_eq_Inr
        split: if_splits sum.splits)
qed (use step pc in \<open>auto simp: checked_def access_def split: if_splits\<close>)

section \<open>Steps keep the invariant\<close>

text \<open>The invariant as one runner sees it; \<open>R\<close> are the blocks of the others.\<close>

definition sees ::
    "c_env \<Rightarrow> (addr \<rightharpoonup> nat) \<Rightarrow> addr \<Rightarrow> mp_pc option list \<Rightarrow> mp_pc option list \<Rightarrow> addr list \<Rightarrow>
     cmem \<Rightarrow> mp_pc option \<Rightarrow> addr list \<Rightarrow> bool" where
  "sees E B p us vs R s pc ds \<longleftrightarrow> (\<exists>ns os. mthr_inv E B p s (us @ pc # vs) (ds @ R) ns os)"

lemma sees_step:
  assumes E: "malloc_ok E" and see: "sees E B p us vs R s (Some pc) ds"
    and step: "mp_step E sp p s pc = (s', pc')" and ends: "mp_call_ends 0 pc' = (q, got)"
  shows "sees E B p us vs R s' q (ds @ map snd got)"
proof -
  from see obtain ns os where "mthr_inv E B p s (us @ Some pc # vs) (ds @ R) ns os"
    by (auto simp: sees_def)
  from mt_step [OF E this step ends] obtain ns os where
    "mthr_inv E B p s' (us @ q # vs) ((ds @ R) @ map snd got) ns os" by blast
  then have "mthr_inv E B p s' (us @ q # vs) ((ds @ map snd got) @ R) ns os"
    by (rule mthr_perm [rotated]) simp
  then show ?thesis unfolding sees_def by blast
qed

lemma sees_not_failed: "\<not> sees E B p us vs R s (Some (Failed e)) ds"
  by (auto simp: sees_def dest: mt_not_failed)

lemma sees_begin_release: "sees E B p us vs R s None (d # ds) \<Longrightarrow> sees E B p us vs R s (Some (R_Begin d)) ds"
  by (auto simp: sees_def intro: mt_begin_release)

lemma sees_begin_acquire:
  "sees E B p us vs R s None ds \<Longrightarrow> \<not> list_ex in_acquire us \<and> \<not> list_ex in_acquire vs \<Longrightarrow>
     sees E B p us vs R s (Some A_Load) ds"
  by (auto simp: sees_def intro: mt_begin_acquire)

lemma sees_acquire:
  assumes E: "malloc_ok E" "never_null E" and see: "sees E B p us vs R s (Some pc) ds"
    and pc: "in_acquire (Some pc)" and step: "mp_step E sp p s pc = (s', pc')"
  shows "(\<exists>d. pc' = A_Done d \<and> sees E B p us vs R s' None (ds @ [d])) \<or>
    in_acquire (Some pc') \<and> sees E B p us vs R s' (Some pc') ds"
proof -
  obtain q got where ends: "mp_call_ends 0 pc' = (q, got)" by (cases "mp_call_ends 0 pc'")
  note see' = sees_step [OF E(1) see step ends]
  from step_in_acquire [OF pc step] show ?thesis
  proof (elim disjE exE)
    fix d assume d: "pc' = A_Done d"
    from see obtain ns os where inv: "mthr_inv E B p s (us @ Some pc # vs) (ds @ R) ns os"
      by (auto simp: sees_def)
    have "d \<noteq> 0" using acquired_not_null [OF E inv pc] step d by blast
    with d ends see' show ?thesis by auto
  next
    assume "in_acquire (Some pc')"
    with ends see' show ?thesis by (cases pc') auto
  next
    fix e assume "pc' = Failed e"
    with ends see' sees_not_failed show ?thesis by auto
  qed
qed

lemma sees_return:
  assumes E: "malloc_ok E" and see: "sees E B p us vs R s (Some pc) ds"
    and pc: "in_return pc" and step: "mp_step E sp p s pc = (s', pc')"
  shows "pc' = R_End \<and> sees E B p us vs R s' None ds \<or>
    pc' \<noteq> R_End \<and> in_return pc' \<and> sees E B p us vs R s' (Some pc') ds"
proof -
  obtain q got where ends: "mp_call_ends 0 pc' = (q, got)" by (cases "mp_call_ends 0 pc'")
  note see' = sees_step [OF E see step ends]
  from step_in_return [OF pc step] show ?thesis
  proof (elim disjE exE)
    assume "in_return pc'"
    with ends see' show ?thesis by (cases pc') auto
  next
    fix e assume "pc' = Failed e"
    with ends see' sees_not_failed show ?thesis by auto
  qed (use ends see' in auto)
qed

lemma runner_in_acquire:
  assumes E: "malloc_ok E" "never_null E"
    and see: "sees E B p us vs R s (runner_call (ru_pc ru)) (ru_held ru)" and wf: "runner_wf (ru_pc ru)"
    and step: "runner_step E sp p s ru = (s', ru')" and U_Acquire: "ru_pc ru = U_Acquire i j pc"
  shows "sees E B p us vs R s' (runner_call (ru_pc ru')) (ru_held ru') \<and> runner_wf (ru_pc ru')"
proof -
  obtain pc' where m: "mp_step E sp p s pc = (s', pc')"
    using step U_Acquire by (auto simp: runner_step_def split: prod.splits)
  have pc: "in_acquire (Some pc)" and j: "i < num_runs" "j < num_memnodes" using wf U_Acquire by simp_all
  have see: "sees E B p us vs R s (Some pc) (map (ru_all_data ru) [0..<j])"
    using see U_Acquire by (simp add: ru_held_def)
  from sees_acquire [OF E see pc m] show ?thesis
  proof (elim disjE exE conjE)
    fix d assume d: "pc' = A_Done d" "sees E B p us vs R s' None (map (ru_all_data ru) [0..<j] @ [d])"
    then have "ru' = ru\<lparr>ru_all_data := (ru_all_data ru)(j := d), ru_pc := U_Get i (Suc j)\<rparr>"
      using step U_Acquire m by (simp add: runner_step_def)
    with d(2) j show ?thesis by (simp add: ru_held_def)
  next
    assume a: "in_acquire (Some pc')" "sees E B p us vs R s' (Some pc') (map (ru_all_data ru) [0..<j])"
    then have "ru' = ru\<lparr>ru_pc := U_Acquire i j pc'\<rparr>"
      using step U_Acquire m by (cases pc') (simp_all add: runner_step_def)
    with a j show ?thesis by (simp add: ru_held_def)
  qed
qed

lemma runner_in_return:
  assumes E: "malloc_ok E"
    and see: "sees E B p us vs R s (runner_call (ru_pc ru)) (ru_held ru)" and wf: "runner_wf (ru_pc ru)"
    and step: "runner_step E sp p s ru = (s', ru')" and U_Return: "ru_pc ru = U_Return i j pc"
  shows "sees E B p us vs R s' (runner_call (ru_pc ru')) (ru_held ru') \<and> runner_wf (ru_pc ru')"
proof -
  obtain pc' where m: "mp_step E sp p s pc = (s', pc')"
    using step U_Return by (auto simp: runner_step_def split: prod.splits)
  have pc: "in_return pc" and j: "i < num_runs" "j < num_memnodes" using wf U_Return by simp_all
  have see: "sees E B p us vs R s (Some pc) (map (ru_all_data ru) [Suc j..<num_memnodes])"
    using see U_Return by (simp add: ru_held_def)
  have "ru' = ru\<lparr>ru_pc := if pc' = R_End then U_Give i (Suc j) else U_Return i j pc'\<rparr>"
    using step U_Return m by (simp add: runner_step_def)
  with sees_return [OF E see pc m] j show ?thesis by (auto simp: ru_held_def)
qed

lemma runner_step_sees:
  assumes E: "malloc_ok E" "never_null E"
    and see: "sees E B p us vs R s (runner_call (ru_pc ru)) (ru_held ru)" and wf: "runner_wf (ru_pc ru)"
    and step: "runner_step E sp p s ru = (s', ru')"
    and serial: "begins_acquire (ru_pc ru) \<Longrightarrow> \<not> list_ex in_acquire us \<and> \<not> list_ex in_acquire vs"
  shows "sees E B p us vs R s' (runner_call (ru_pc ru')) (ru_held ru') \<and> runner_wf (ru_pc ru')"
proof (cases "ru_pc ru")
  case (U_Run i)
  with step see show ?thesis by (auto simp: runner_step_def ru_held_def)
next
  case (U_Get i j)
  show ?thesis
  proof (cases "j < num_memnodes")
    case True
    then have "sees E B p us vs R s (Some A_Load) (ru_held ru)"
      using U_Get see serial by (intro sees_begin_acquire) simp_all
    with True U_Get step wf show ?thesis by (auto simp: runner_step_def ru_held_def)
  next
    case False
    then have "j = num_memnodes" using U_Get wf by simp
    with U_Get step wf see show ?thesis by (auto simp: runner_step_def ru_held_def)
  qed
next
  case (U_Acquire i j pc)
  with runner_in_acquire [OF E see wf step] show ?thesis by blast
next
  case (U_Give i j)
  show ?thesis
  proof (cases "j < num_memnodes")
    case True
    then have "[j..<num_memnodes] = j # [Suc j..<num_memnodes]" by (rule upt_conv_Cons)
    then have "sees E B p us vs R s (Some (R_Begin (ru_all_data ru j))) (map (ru_all_data ru) [Suc j..<num_memnodes])"
      using U_Give see by (intro sees_begin_release) (simp add: ru_held_def)
    with True U_Give step wf show ?thesis by (auto simp: runner_step_def ru_held_def)
  next
    case False
    with U_Give step wf see show ?thesis by (auto simp: runner_step_def ru_held_def)
  qed
next
  case (U_Return i j pc)
  with runner_in_return [OF E(1) see wf step] show ?thesis by blast
next
  case U_End
  with step see show ?thesis by (simp add: runner_step_def)
qed

lemma rn_inv_split:
  "rn_inv E B p \<lparr>rs_mem = m, rs_runners = us @ ru # vs\<rparr> \<longleftrightarrow>
     sees E B p (calls us) (calls vs) (concat (map ru_held (us @ vs))) m (runner_call (ru_pc ru)) (ru_held ru) \<and>
     runner_wf (ru_pc ru) \<and> (\<forall>ru \<in> set us \<union> set vs. runner_wf (ru_pc ru))"
proof -
  let ?ds = "concat (map ru_held (us @ ru # vs))" and ?ds' = "ru_held ru @ concat (map ru_held (us @ vs))"
  have "mset ?ds = mset ?ds'" by simp
  then have "mthr_inv E B p m pcs ?ds ns os \<longleftrightarrow> mthr_inv E B p m pcs ?ds' ns os" for pcs ns os
    by (metis mthr_perm)
  then show ?thesis by (auto simp: rn_inv_def sees_def)
qed

lemma rn_act_inv:
  assumes E: "malloc_ok E" "never_null E" and inv: "rn_inv E B p s"
    and act: "rn_act E True p (t, sp) s = Some s'"
  shows "rn_inv E B p s'"
proof -
  let ?ts = "rs_runners s" let ?us = "take t ?ts" and ?vs = "drop (Suc t) ?ts"
  from act have t: "t < length ?ts" by (simp add: rn_act_def split: if_splits)
  obtain m' ru' where step: "runner_step E sp p (rs_mem s) (?ts ! t) = (m', ru')"
    by (cases "runner_step E sp p (rs_mem s) (?ts ! t)")
  with act have s': "s' = \<lparr>rs_mem = m', rs_runners = ?ts[t := ru']\<rparr>"
    by (simp add: rn_act_def split: if_splits)
  have ts: "?ts = ?us @ ?ts ! t # ?vs" using id_take_nth_drop [OF t] .
  have ts': "?ts[t := ru'] = ?us @ ru' # ?vs" using upd_conv_take_nth_drop [OF t] .
  have serial: "\<not> list_ex in_acquire (calls ?us) \<and> \<not> list_ex in_acquire (calls ?vs)"
    if "begins_acquire (ru_pc (?ts ! t))"
    using act that by (auto simp: rn_act_def list_ex_iff dest: in_set_takeD in_set_dropD split: if_splits)
  have "s = \<lparr>rs_mem = rs_mem s, rs_runners = ?us @ ?ts ! t # ?vs\<rparr>" using ts by simp
  with inv have "rn_inv E B p \<lparr>rs_mem = rs_mem s, rs_runners = ?us @ ?ts ! t # ?vs\<rparr>" by simp
  note now = this [unfolded rn_inv_split]
  from runner_step_sees [OF E conjunct1 [OF now] conjunct1 [OF conjunct2 [OF now]] step serial] now
  show ?thesis unfolding s' ts' rn_inv_split by blast
qed

lemma runners_start_inv:
  assumes E: "malloc_ok E" "never_null E" and heap: "heap_ok (blk s0)"
    and new: "alloc_mem_pool E memnode_size s0 = (p, s)"
  shows "rn_inv E (blk s0) p (runners_start s)"
proof -
  have "memnode_size \<noteq> 0" by (simp add: memnode_size_def)
  from mt_new [OF E(1) heap this new pool_allocated [OF E(2) new], of 0]
  show ?thesis by (auto simp: rn_inv_def runners_start_def)
qed

lemma mthr_more: "mthr_inv E B p s pcs ds ns os \<Longrightarrow> mthr_inv E B p s (pcs @ [None]) ds ns os"
  by (simp add: mthr_inv_def out_ok_def counts_def)

lemma create_runner_inv:
  assumes "rn_inv E B p s" "create_runner c data s = Inr s'"
  shows "rn_inv E B p s'"
  using assms mthr_more by (fastforce simp: rn_inv_def create_runner_def ru_held_def split: if_splits)

lemma rn_reachable_inv:
  assumes E: "malloc_ok E" "never_null E" and heap: "heap_ok (blk s0)"
    and "rn_reachable E True create s0 p s"
  shows "rn_inv E (blk s0) p s"
  using assms(4)
proof induction
  case (rn_start s)
  then show ?case by (rule runners_start_inv [OF E heap])
next
  case (rn_create s data s')
  then show ?case by (blast intro: create_runner_inv)
next
  case (rn_do s a s')
  then show ?case by (cases a) (blast intro: rn_act_inv [OF E])
qed

lemma rn_act_length: "rn_act E serial p a s = Some s' \<Longrightarrow> length (rs_runners s') = length (rs_runners s)"
  by (auto simp: rn_act_def split: prod.splits if_splits)

section \<open>The runners can end\<close>

text \<open>What a runner has still to do in a run, and in all.\<close>

definition run_cost :: nat where
  "run_cost = 4 * num_memnodes + 6"

fun runner_left :: "runner_pc \<Rightarrow> nat" where
  "runner_left (U_Run i) = (num_runs - i) * run_cost + 1"
| "runner_left (U_Get i j) = (num_runs - Suc i) * run_cost + 2 * (num_memnodes - j) + 2 * num_memnodes + 3"
| "runner_left (U_Acquire i j pc) =
     (num_runs - Suc i) * run_cost + 2 * (num_memnodes - j) + 2 * num_memnodes + 2"
| "runner_left (U_Give i j) = (num_runs - Suc i) * run_cost + 2 * (num_memnodes - j) + 2"
| "runner_left (U_Return i j pc) = (num_runs - Suc i) * run_cost + 2 * (num_memnodes - j) + 1"
| "runner_left U_End = 0"

text \<open>A step finishes something, or it is a step within a call.\<close>

lemma runner_step_left:
  assumes wf: "runner_wf (ru_pc ru)" and live: "ru_pc ru \<noteq> U_End"
    and step: "runner_step E sp p s ru = (s', ru')"
  shows "runner_left (ru_pc ru') < runner_left (ru_pc ru) \<or>
    runner_left (ru_pc ru') = runner_left (ru_pc ru) \<and> (\<exists>pc pc'. runner_call (ru_pc ru) = Some pc \<and>
      runner_call (ru_pc ru') = Some pc' \<and> mp_step E sp p s pc = (s', pc'))"
proof (cases "ru_pc ru")
  case (U_Run i)
  show ?thesis
  proof (cases "i < num_runs")
    case True
    then have "num_runs - i = Suc (num_runs - Suc i)" by simp
    then have "(num_runs - i) * run_cost = (num_runs - Suc i) * run_cost + run_cost" by simp
    with True U_Run step show ?thesis by (auto simp: runner_step_def run_cost_def)
  next
    case False
    with U_Run step show ?thesis by (auto simp: runner_step_def)
  qed
next
  case (U_Acquire i j pc)
  obtain pc' where m: "mp_step E sp p s pc = (s', pc')"
    using step U_Acquire by (auto simp: runner_step_def split: prod.splits)
  show ?thesis
  proof (cases "\<exists>d. pc' = A_Done d")
    case True
    with step U_Acquire m wf show ?thesis by (auto simp: runner_step_def)
  next
    case False
    with step U_Acquire m have "ru_pc ru' = U_Acquire i j pc'"
      by (cases pc') (auto simp: runner_step_def)
    with U_Acquire m show ?thesis by simp
  qed
next
  case (U_Return i j pc)
  obtain pc' where m: "mp_step E sp p s pc = (s', pc')"
    using step U_Return by (auto simp: runner_step_def split: prod.splits)
  with step U_Return wf show ?thesis by (cases "pc' = R_End") (auto simp: runner_step_def)
qed (use live step wf in \<open>auto simp: runner_step_def split: if_splits\<close>)

definition rn_left :: "runner_sys \<Rightarrow> nat" where
  "rn_left s = sum_list (map (\<lambda>ru. runner_left (ru_pc ru)) (rs_runners s))"

definition rn_call_left :: "addr \<Rightarrow> nat \<Rightarrow> runner_sys \<Rightarrow> nat" where
  "rn_call_left p t s =
     (case runner_call (ru_pc (rs_runners s ! t)) of None \<Rightarrow> 0 | Some pc \<Rightarrow> mp_left (rs_mem s) p pc)"

definition runner_can :: "nat \<Rightarrow> runner_sys \<Rightarrow> bool" where
  "runner_can t s \<longleftrightarrow> t < length (rs_runners s) \<and> ru_pc (rs_runners s ! t) \<noteq> U_End \<and>
     (begins_acquire (ru_pc (rs_runners s ! t)) \<longrightarrow> \<not> list_ex in_acquire (calls (rs_runners s)))"

lemma some_runner_can:
  assumes "\<not> runners_ended s" "length (rs_runners s) = num_runners"
  shows "\<exists>t. runner_can t s"
proof (cases "list_ex in_acquire (calls (rs_runners s))")
  case True
  then obtain t where t: "t < length (rs_runners s)" "in_acquire (runner_call (ru_pc (rs_runners s ! t)))"
    by (auto simp: list_ex_iff in_set_conv_nth)
  then have "ru_pc (rs_runners s ! t) \<noteq> U_End \<and> \<not> begins_acquire (ru_pc (rs_runners s ! t))"
    by (cases "ru_pc (rs_runners s ! t)") simp_all
  with t(1) show ?thesis by (auto simp: runner_can_def)
next
  case False
  from assms obtain t where "t < length (rs_runners s)" "ru_pc (rs_runners s ! t) \<noteq> U_End"
    by (auto simp: runners_ended_def list_all_iff in_set_conv_nth)
  with False show ?thesis by (auto simp: runner_can_def)
qed

lemma wf_call: "runner_wf q \<Longrightarrow> runner_call q = Some pc \<Longrightarrow> in_acquire (Some pc) \<or> in_return pc"
  by (cases q) simp_all

lemma runner_goes_on:
  assumes E: "malloc_ok E" "never_null E" and inv: "rn_inv E B p s" and can: "runner_can t s"
  shows "\<exists>s'. rn_act E True p (t, False) s = Some s' \<and> rn_inv E B p s' \<and>
    (rn_left s' < rn_left s \<or> rn_left s' = rn_left s \<and> runner_can t s' \<and>
      rn_call_left p t s' < rn_call_left p t s)"
proof -
  let ?ru = "rs_runners s ! t"
  from can have t: "t < length (rs_runners s)" "ru_pc ?ru \<noteq> U_End"
    "begins_acquire (ru_pc ?ru) \<longrightarrow> \<not> list_ex in_acquire (calls (rs_runners s))"
    by (auto simp: runner_can_def)
  obtain m' ru' where step: "runner_step E False p (rs_mem s) ?ru = (m', ru')"
    by (cases "runner_step E False p (rs_mem s) ?ru")
  define s' where "s' = \<lparr>rs_mem = m', rs_runners = (rs_runners s)[t := ru']\<rparr>"
  have act: "rn_act E True p (t, False) s = Some s'" using t step by (simp add: rn_act_def s'_def)
  note inv' = rn_act_inv [OF E inv act]
  have t': "t < length (rs_runners s')" "rs_runners s' ! t = ru'" "rs_mem s' = m'"
    using t(1) by (simp_all add: s'_def)
  have wf: "runner_wf (ru_pc ?ru)" "runner_wf (ru_pc ru')"
    using inv inv' t(1) t'(1,2) nth_mem unfolding rn_inv_def by metis+
  have left: "rn_left s' + runner_left (ru_pc ?ru) = rn_left s + runner_left (ru_pc ru')"
    using sum_list_map_update [OF t(1), of "\<lambda>ru. runner_left (ru_pc ru)" ru'] by (simp add: rn_left_def s'_def)
  from runner_step_left [OF wf(1) t(2) step] show ?thesis
  proof (elim disjE conjE exE)
    assume "runner_left (ru_pc ru') < runner_left (ru_pc ?ru)"
    with left have "rn_left s' < rn_left s" by linarith
    with act inv' show ?thesis by blast
  next
    fix pc pc'
    assume same: "runner_left (ru_pc ru') = runner_left (ru_pc ?ru)"
      and pcs: "runner_call (ru_pc ?ru) = Some pc" "runner_call (ru_pc ru') = Some pc'"
      and m: "mp_step E False p (rs_mem s) pc = (m', pc')"
    have "mp_left m' p pc' < mp_left (rs_mem s) p pc"
      by (rule mp_left_step [OF m wf_call [OF wf(1) pcs(1)] wf_call [OF wf(2) pcs(2)]])
    then have dec: "rn_call_left p t s' < rn_call_left p t s" using pcs t' by (simp add: rn_call_left_def)
    have "ru_pc ru' \<noteq> U_End \<and> \<not> begins_acquire (ru_pc ru')"
      using pcs(2) by (cases "ru_pc ru'") simp_all
    then have "runner_can t s'" using t' by (simp add: runner_can_def)
    with act inv' left same dec show ?thesis by auto
  qed
qed

interpretation runners: thread_program "\<lambda>t. rn_act E True p (t, False)"
  "\<lambda>s. malloc_ok E \<and> never_null E \<and> rn_inv E B p s \<and> length (rs_runners s) = num_runners" runner_can
  rn_left "rn_call_left p" runners_ended for E B p
  by unfold_locales (use some_runner_can in blast, use runner_goes_on rn_act_length in metis)

lemma runners_exec:
  "tp_run (\<lambda>t. rn_act E serial p (t, False)) ts s = rn_exec E serial p (map (\<lambda>t. (t, False)) ts) s"
  by (induction ts arbitrary: s) (simp_all split: option.splits)

section \<open>The check\<close>

text \<open>On a list without repetitions the inner loop counts a node of the list once.\<close>

lemma count_loop_chain:
  assumes "chain (mn_next s) a ns" "\<forall>n \<in> set ns. valid sizeof_MemNode n s" "distinct ns"
  shows "count_loop s node a k = Some (Inr (if node \<in> set ns then k + 1 else k))"
  using assms
proof (induction ns arbitrary: a k)
  case Nil
  then show ?case by (simp add: count_loop.simps)
next
  case (Cons n ns)
  then show ?case by (subst count_loop.simps) auto
qed

lemma check_nodes_ok:
  assumes "chain (mn_next s) (mp_head s p) (xs @ ns)" "\<forall>n \<in> set (xs @ ns). valid sizeof_MemNode n s"
    "distinct (xs @ ns)" "valid (sizeof_MemPool E) p s" "chain (mn_next s) a ns"
  shows "check_nodes E s p a = Some (Inr ())"
  using assms
proof (induction ns arbitrary: xs a)
  case Nil
  then show ?case by (simp add: check_nodes.simps)
next
  case (Cons n ns)
  have "count_loop s n (mp_head s p) 0 = Some (Inr 1)"
    using count_loop_chain [OF Cons.prems(1-3), of n 0] by simp
  moreover have "check_nodes E s p (mn_next s n) = Some (Inr ())"
    by (rule Cons.IH [of "xs @ [n]"]) (use Cons.prems in auto)
  moreover have "a = n" "n \<noteq> 0" "valid sizeof_MemNode n s" using Cons.prems(2,5) by auto
  ultimately show ?case using Cons.prems(4) by (subst check_nodes.simps) simp
qed

lemma check_and_free_ok:
  assumes "rn_inv E B p s" "runners_ended s"
  shows "\<exists>s'. check_and_free E p (rs_mem s) = Inr s' \<and> blk s' = B"
proof -
  let ?m = "rs_mem s"
  from assms(1) obtain ns os where
    inv: "mthr_inv E B p ?m (calls (rs_runners s)) (concat (map ru_held (rs_runners s))) ns os"
    by (auto simp: rn_inv_def)
  have none: "runner_call (ru_pc ru) = None \<and> ru_held ru = []" if "ru \<in> set (rs_runners s)" for ru
    using assms(2) that by (simp add: runners_ended_def list_all_iff ru_held_def)
  then have "concat (map ru_held (rs_runners s)) = []" "\<forall>pc \<in> set (calls (rs_runners s)). pc = None" by auto
  with mt_idle(1,2) [OF inv] have mem: "mem_ok E B ?m [(p, ns, [])]" by simp
  note m = mid [OF mem_ok_core [OF mem]]
  have "\<forall>n \<in> set ns. valid sizeof_MemNode n ?m"
    using m(1) node_rep_valid(2) [OF m(2)] by auto
  moreover have "distinct ns"
  proof -
    have "distinct (node_blocks ?m ns)" using m(5) by simp
    then show ?thesis by (induction ns) (auto simp: set_node_blocks)
  qed
  moreover have "chain (mn_next ?m) (mp_head ?m p) ns" using m(1) by simp
  ultimately have check: "check_nodes E ?m p (mp_head ?m p) = Some (Inr ())"
    using check_nodes_ok [of ?m p "[]" ns E "mp_head ?m p"] m(4) by simp
  have "mem_ok E B ?m ([] @ (p, ns, []) # [])" using mem by simp
  from free_pool_ok [OF this] obtain s' where
    "free_mem_pool E p ?m = Inr s'" "mem_ok E B s' ([] @ [])" by blast
  then show ?thesis using check m(4) by (auto simp: check_and_free_def mem_ok_def)
qed

section \<open>What the program shows\<close>

text \<open>When \<open>malloc\<close> does not fail, as long as no two runners are in
  \<open>pool_mem_acquire\<close> at once, whatever the interleaving and the contents of the arrays at the
  start: no runner fails an assertion or accesses memory that is not live; from every state in
  which all 32 were created they can all end; and when they have ended no node is in the list of the pool twice, the
  pool can be freed, and the blocks that are live then are those that were live at the start.\<close>

lemma fuzz_threads_clean:
  assumes "malloc_ok E" "never_null E" "heap_ok (blk s0)"
    "rn_reachable E True create s0 pool s"
  shows "(\<forall>ru \<in> set (rs_runners s). \<forall>e. runner_call (ru_pc ru) \<noteq> Some (Failed e)) \<and>
    (length (rs_runners s) = num_runners \<longrightarrow>
      (\<exists>as s'. rn_exec E True pool as s = Some s' \<and> runners_ended s')) \<and>
    (runners_ended s \<longrightarrow> (\<exists>s'. check_and_free E pool (rs_mem s) = Inr s' \<and> blk s' = blk s0))"
proof (intro conjI ballI allI impI)
  note inv = rn_reachable_inv [OF assms]
  fix ru e
  assume "ru \<in> set (rs_runners s)"
  then have "runner_wf (ru_pc ru)" using inv by (simp add: rn_inv_def)
  then show "runner_call (ru_pc ru) \<noteq> Some (Failed e)" using wf_call [of "ru_pc ru" "Failed e"] by auto
next
  note inv = rn_reachable_inv [OF assms]
  show "\<exists>as s'. rn_exec E True pool as s = Some s' \<and> runners_ended s'" if "length (rs_runners s) = num_runners"
    using that runners.can_end [of E "blk s0" pool s] assms(1,2) inv unfolding runners_exec by blast
  show "\<exists>s'. check_and_free E pool (rs_mem s) = Inr s' \<and> blk s' = blk s0" if "runners_ended s"
    by (rule check_and_free_ok [OF inv that])
qed

lemma thread_env_never_null: "never_null thread_env"
proof -
  have "(8 :: nat) \<le> foldr (\<lambda>(p, k) m. max m (p + k)) B 8" for B by (induction B) auto
  then have "foldr (\<lambda>(p, k) m. max m (p + k)) B (8 :: nat) \<noteq> 0" for B by (metis not_numeral_le_zero)
  then show ?thesis by (simp add: never_null_def thread_env_def next_fit_def)
qed

end
