(* ===== verification/MemPool_FuzzProgram.thy ===== *)
theory MemPool_FuzzProgram
  imports MemPool_FuzzThreads
begin

text \<open>
  The whole of \<open>simple_pool/dyn_mem_pool_fuzz.c\<close>: \<open>main\<close> calls the four functions one after
  the other on one heap. Three of them are functions of the heap, the one that starts threads is
  the machine of \<open>MemPool_FuzzThreads\<close>. The calls that print and yield are left out.
\<close>

section \<open>The program\<close>

text \<open>A local variable of \<open>n\<close> bytes at \<open>p\<close>, whose address is passed on: a block of the heap for
  as long as the call runs. Its contents at the start are arbitrary.\<close>

definition with_local ::
    "addr \<Rightarrow> nat \<Rightarrow> (cmem \<Rightarrow> c_error + cmem) \<Rightarrow> cmem \<Rightarrow> c_error + cmem" where
  "with_local p n body s =
     andThen (body (s\<lparr>blocks := (p, n) # blocks s\<rparr>)) (\<lambda>s'.
       Inr (s'\<lparr>blocks := AList.delete p (blocks s')\<rparr>))"

text \<open>What \<open>main\<close> does before the threads are started, with \<open>local\<close> the address of the variable
  \<open>pool\<close> of \<open>fuzz_alloc_free_poolable_mem\<close>, and what it does after they have been joined.\<close>

definition before_threads ::
    "c_env \<Rightarrow> addr \<Rightarrow> (nat \<Rightarrow> nat \<Rightarrow> nat) \<Rightarrow> (nat \<Rightarrow> addr) \<Rightarrow> cmem \<Rightarrow> c_error + cmem" where
  "before_threads E local spurious acquired_mem s =
     andThen (with_local local (sizeof_MemPool E) (fuzz_alloc_free_poolable_mem E local) s)
       (fuzz_acquire_release_single_threaded E spurious acquired_mem)"

definition after_threads :: "c_env \<Rightarrow> addr \<Rightarrow> (nat \<Rightarrow> int \<Rightarrow> nat) \<Rightarrow> cmem \<Rightarrow> c_error + cmem" where
  "after_threads E pool spurious s =
     andThen (check_and_free E pool s) (fuzz_acquire_release_multipool E spurious)"

text \<open>Where \<open>main\<close> is: at its start, between the creation of the pool of the threads and their joins, at its
  end, or aborted, by a call of its own or by one of a thread.\<close>

datatype fuzz_main =
    M_Begin cmem
  | M_Threads addr runner_sys
  | M_Returned cmem
  | M_Failed c_error

definition runner_fails :: "c_error \<Rightarrow> runner_sys \<Rightarrow> bool" where
  "runner_fails e s \<longleftrightarrow> list_ex (\<lambda>ru. runner_call (ru_pc ru) = Some (Failed e)) (rs_runners s)"

text \<open>How often exchanges fail spuriously and what the arrays hold at their start is not fixed.
  \<open>create i\<close> is the result of \<open>pthread_create\<close> for runner \<open>i\<close>: if it is not 0 an assertion fails.
  With \<open>serial\<close> no runner calls \<open>pool_mem_acquire\<close> while another one is in it.\<close>

inductive fuzz_step ::
    "c_env \<Rightarrow> bool \<Rightarrow> (nat \<Rightarrow> int) \<Rightarrow> addr \<Rightarrow> fuzz_main \<Rightarrow> fuzz_main \<Rightarrow> bool"
  for E :: c_env and serial :: bool and create :: "nat \<Rightarrow> int" and local :: addr where
  threads_start: "before_threads E local spurious acquired_mem s = Inr s1 \<Longrightarrow>
    alloc_mem_pool E memnode_size s1 = (pool, s2) \<Longrightarrow>
    fuzz_step E serial create local (M_Begin s) (M_Threads pool (runners_start s2))"
| before_fails: "before_threads E local spurious acquired_mem s = Inl e \<Longrightarrow>
    fuzz_step E serial create local (M_Begin s) (M_Failed e)"
| runner_created: "length (rs_runners s) < num_runners \<Longrightarrow>
    create_runner (create (length (rs_runners s))) all_data s = Inr s' \<Longrightarrow>
    fuzz_step E serial create local (M_Threads pool s) (M_Threads pool s')"
| create_fails: "length (rs_runners s) < num_runners \<Longrightarrow>
    create_runner (create (length (rs_runners s))) all_data s = Inl e \<Longrightarrow>
    fuzz_step E serial create local (M_Threads pool s) (M_Failed e)"
| runner_acts: "rn_act E serial pool a s = Some s' \<Longrightarrow>
    fuzz_step E serial create local (M_Threads pool s) (M_Threads pool s')"
| thread_fails: "runner_fails e s \<Longrightarrow>
    fuzz_step E serial create local (M_Threads pool s) (M_Failed e)"
| main_returns: "runners_ended s \<Longrightarrow> after_threads E pool spur (rs_mem s) = Inr s' \<Longrightarrow>
    fuzz_step E serial create local (M_Threads pool s) (M_Returned s')"
| after_fails: "runners_ended s \<Longrightarrow> after_threads E pool spur (rs_mem s) = Inl e \<Longrightarrow>
    fuzz_step E serial create local (M_Threads pool s) (M_Failed e)"

inductive_cases fuzz_beginE: "fuzz_step E serial create local (M_Begin s) m"
inductive_cases fuzz_threadsE: "fuzz_step E serial create local (M_Threads pool s) m"
inductive_cases fuzz_returnedE: "fuzz_step E serial create local (M_Returned s) m"
inductive_cases fuzz_failedE: "fuzz_step E serial create local (M_Failed e) m"

lemmas fuzz_cases = fuzz_beginE fuzz_threadsE fuzz_returnedE fuzz_failedE

section \<open>Its parts\<close>

lemma with_local_ok:
  assumes "blk s p = None"
    and "\<exists>s'. body (s\<lparr>blocks := (p, n) # blocks s\<rparr>) = Inr s' \<and> blk s' = (blk s)(p \<mapsto> n)"
  shows "\<exists>s'. with_local p n body s = Inr s' \<and> blk s' = blk s"
  using assms by (auto simp: with_local_def fun_eq_iff)

lemma before_threads_ok:
  assumes E: "malloc_ok E" "never_null E"
    and heap: "heap_ok ((blk s)(local \<mapsto> sizeof_MemPool E))" "blk s local = None"
  shows "\<exists>s'. before_threads E local spurious acquired_mem s = Inr s' \<and> blk s' = blk s"
proof -
  let ?s = "s\<lparr>blocks := (local, sizeof_MemPool E) # blocks s\<rparr>"
  have local: "local \<noteq> 0" using heap_ok_pos [OF heap(1), of local] by simp
  then have "valid (sizeof_MemPool E) local ?s" by (simp add: valid_def)
  with alloc_free_ok [OF E, of ?s local] heap local have
    "\<exists>s'. with_local local (sizeof_MemPool E) (fuzz_alloc_free_poolable_mem E local) s = Inr s' \<and>
       blk s' = blk s"
    by (intro with_local_ok) simp_all
  then obtain s1 where s1: "blk s1 = blk s"
    "with_local local (sizeof_MemPool E) (fuzz_alloc_free_poolable_mem E local) s = Inr s1" by blast
  have "heap_ok (blk s)" using heap_ok_free [OF heap(1), of local] heap(2) by (simp add: fun_upd_idem)
  with single_threaded_ok [OF E, of s1] s1 show ?thesis by (simp add: before_threads_def)
qed

lemma after_threads_ok:
  assumes E: "malloc_ok E" "never_null E" and heap: "heap_ok B"
    and inv: "rn_inv E B pool s" and ended: "runners_ended s"
  shows "\<exists>s'. after_threads E pool spur (rs_mem s) = Inr s' \<and> blk s' = B"
proof -
  from check_and_free_ok [OF inv ended] obtain s1 where
    s1: "check_and_free E pool (rs_mem s) = Inr s1" "blk s1 = B" by blast
  with multipool_fuzz_ok [OF E, of s1 spur] heap show ?thesis by (simp add: after_threads_def)
qed

lemma no_runner_fails: "rn_inv E B pool s \<Longrightarrow> \<not> runner_fails e s"
  using wf_call by (fastforce simp: rn_inv_def runner_fails_def list_ex_iff)

section \<open>The invariant\<close>

fun fuzz_inv :: "c_env \<Rightarrow> cmem \<Rightarrow> fuzz_main \<Rightarrow> bool" where
  "fuzz_inv E s0 (M_Begin s) = (s = s0)"
| "fuzz_inv E s0 (M_Threads pool s) =
     (rn_inv E (blk s0) pool s \<and> length (rs_runners s) \<le> num_runners)"
| "fuzz_inv E s0 (M_Returned s) = (blk s = blk s0)"
| "fuzz_inv E s0 (M_Failed e) = False"

lemma heap_without_local:
  assumes "heap_ok (B(p \<mapsto> n))" "B p = None"
  shows "heap_ok B"
  using heap_ok_free [OF assms(1), of p] assms(2) by (simp add: fun_upd_idem)

lemma fuzz_step_inv:
  assumes E: "malloc_ok E" "never_null E"
    and heap: "heap_ok ((blk s0)(local \<mapsto> sizeof_MemPool E))" "blk s0 local = None"
    and create: "\<forall>i < num_runners. create i = 0"
    and inv: "fuzz_inv E s0 m" and step: "fuzz_step E True create local m m'"
  shows "fuzz_inv E s0 m'"
proof (cases m)
  case (M_Begin s)
  note before = before_threads_ok [OF E heap]
  from step show ?thesis unfolding M_Begin
  proof cases
    case (threads_start spurious acquired_mem s1 pool s2)
    then have s1: "blk s1 = blk s0" using before [of spurious acquired_mem] inv M_Begin by auto
    then have "heap_ok (blk s1)" using heap_without_local [OF heap] by simp
    from runners_start_inv [OF E this threads_start(3)] s1 show ?thesis
      by (simp add: threads_start(1) runners_start_def)
  next
    case (before_fails spurious acquired_mem e)
    then show ?thesis using before [of spurious acquired_mem] inv M_Begin by auto
  qed
next
  case (M_Threads pool s)
  note after = after_threads_ok [OF E heap_without_local [OF heap], of pool s]
  from step show ?thesis unfolding M_Threads
  proof cases
    case (runner_created data s')
    moreover from this have "length (rs_runners s') = Suc (length (rs_runners s))"
      by (auto simp: create_runner_def split: if_splits)
    ultimately show ?thesis using create_runner_inv inv M_Threads by auto
  next
    case (create_fails data e)
    then show ?thesis using create by (simp add: create_runner_def)
  next
    case (runner_acts a s')
    then show ?thesis using rn_act_inv [OF E] rn_act_length inv M_Threads by (cases a) auto
  next
    case (thread_fails e)
    then show ?thesis using no_runner_fails inv M_Threads by auto
  next
    case (main_returns spur s')
    then show ?thesis using after [of spur] inv M_Threads by auto
  next
    case (after_fails spur e)
    then show ?thesis using after [of spur] inv M_Threads by auto
  qed
qed (use step inv in \<open>auto elim: fuzz_cases\<close>)

lemma fuzz_reach_inv:
  assumes "malloc_ok E" "never_null E"
    and "heap_ok ((blk s0)(local \<mapsto> sizeof_MemPool E))" "blk s0 local = None"
    and "\<forall>i < num_runners. create i = 0" "(fuzz_step E True create local)\<^sup>*\<^sup>* (M_Begin s0) m"
  shows "fuzz_inv E s0 m"
  using assms(6) by induction (simp_all add: fuzz_step_inv [OF assms(1-5)])

section \<open>Its end\<close>

lemma runners_act_steps:
  "rn_exec E serial pool as s = Some s' \<Longrightarrow>
     (fuzz_step E serial create local)\<^sup>*\<^sup>* (M_Threads pool s) (M_Threads pool s')"
  by (induction as arbitrary: s)
    (auto split: option.splits intro: converse_rtranclp_into_rtranclp runner_acts)

lemma create_steps:
  assumes create: "\<forall>i < num_runners. create i = 0" and inv: "rn_inv E B pool s"
    and len: "length (rs_runners s) + k = num_runners"
  shows "\<exists>s'. (fuzz_step E serial create local)\<^sup>*\<^sup>* (M_Threads pool s) (M_Threads pool s') \<and>
    rn_inv E B pool s' \<and> length (rs_runners s') = num_runners"
  using inv len
proof (induction k arbitrary: s)
  case 0
  then show ?case by (intro exI [of _ s]) simp
next
  case (Suc k)
  let ?s = "s\<lparr>rs_runners := rs_runners s @ [\<lparr>ru_all_data = \<lambda>_. 0, ru_pc = U_Run 0\<rparr>]\<rparr>"
  have lt: "length (rs_runners s) < num_runners" using Suc.prems(2) by simp
  then have new: "create_runner (create (length (rs_runners s))) (\<lambda>_. 0) s = Inr ?s"
    using create by (simp add: create_runner_def)
  have step: "fuzz_step E serial create local (M_Threads pool s) (M_Threads pool ?s)"
    by (rule fuzz_step.runner_created [where all_data = "\<lambda>_. 0"]) (fact lt, fact new)
  from Suc.prems(2) have "length (rs_runners ?s) + k = num_runners" by simp
  from Suc.IH [OF create_runner_inv [OF Suc.prems(1) new] this] step
  show ?case by (blast intro: converse_rtranclp_into_rtranclp)
qed

lemma threads_return:
  assumes E: "malloc_ok E" "never_null E" and heap: "heap_ok B" and create: "\<forall>i < num_runners. create i = 0"
    and inv: "rn_inv E B pool s" and few: "length (rs_runners s) \<le> num_runners"
  shows "\<exists>s'. (fuzz_step E True create local)\<^sup>*\<^sup>* (M_Threads pool s) (M_Returned s')"
proof -
  obtain k where "length (rs_runners s) + k = num_runners" using few le_Suc_ex by metis
  from create_steps [OF create inv this] obtain s0 where
    s0: "(fuzz_step E True create local)\<^sup>*\<^sup>* (M_Threads pool s) (M_Threads pool s0)"
    "rn_inv E B pool s0" "length (rs_runners s0) = num_runners" by blast
  then obtain as s1 where s1: "rn_exec E True pool as s0 = Some s1" "runners_ended s1" "rn_inv E B pool s1"
    using runners.can_end [of E B pool s0] E unfolding runners_exec by blast
  from after_threads_ok [OF E heap s1(3,2)] obtain s2 where
    "after_threads E pool (\<lambda>_ _. 0) (rs_mem s1) = Inr s2" by blast
  from fuzz_step.main_returns [OF s1(2) this] runners_act_steps [OF s1(1)] s0(1) show ?thesis
    by (meson rtranclp.rtrancl_into_rtrancl rtranclp_trans)
qed

lemma fuzz_can_return:
  assumes E: "malloc_ok E" "never_null E"
    and heap: "heap_ok ((blk s0)(local \<mapsto> sizeof_MemPool E))" "blk s0 local = None"
    and create: "\<forall>i < num_runners. create i = 0" and inv: "fuzz_inv E s0 m"
  shows "\<exists>s'. (fuzz_step E True create local)\<^sup>*\<^sup>* m (M_Returned s')"
proof (cases m)
  case (M_Begin s)
  then have s: "s = s0" using inv by simp
  from before_threads_ok [OF E heap] obtain s1 where
    s1: "before_threads E local (\<lambda>_ _. 0) (\<lambda>_. 0) s0 = Inr s1" "blk s1 = blk s0" by blast
  obtain pool s2 where new: "alloc_mem_pool E memnode_size s1 = (pool, s2)"
    by (cases "alloc_mem_pool E memnode_size s1")
  have heap': "heap_ok (blk s1)" using heap_without_local [OF heap] s1(2) by simp
  let ?m = "M_Threads pool (runners_start s2)"
  have few: "length (rs_runners (runners_start s2)) \<le> num_runners" by (simp add: runners_start_def)
  have "fuzz_step E True create local (M_Begin s0) ?m" by (rule fuzz_step.threads_start [OF s1(1) new])
  with threads_return [OF E heap' create runners_start_inv [OF E heap' new] few] show ?thesis
    unfolding M_Begin s by (blast intro: converse_rtranclp_into_rtranclp)
next
  case (M_Threads pool s)
  with threads_return [OF E heap_without_local [OF heap] create] inv show ?thesis by simp
qed (use inv in auto)

section \<open>What the program shows\<close>

text \<open>C34: when \<open>malloc\<close> keeps its promise and does not fail, \<open>pthread_create\<close> succeeds for each of
  the 32 threads, and no two of them are in \<open>pool_mem_acquire\<close> at once, the fuzz program never
  fails an assertion, accesses memory that is not live or frees a block twice, in whatever order
  threads are created and make their steps, however often exchanges fail spuriously and whatever
  its arrays hold at the start; from every state it reaches it can return from \<open>main\<close>; and when it
  returns, the blocks that are live are those that were live when it started.\<close>

theorem fuzz_program_clean:
  assumes "malloc_ok E" "never_null E"
    "heap_ok ((blk s0)(local \<mapsto> sizeof_MemPool E))" "blk s0 local = None"
    "\<forall>i < num_runners. create i = 0"
    "(fuzz_step E True create local)\<^sup>*\<^sup>* (M_Begin s0) m"
  shows "(\<forall>e. m \<noteq> M_Failed e) \<and> (\<exists>s. (fuzz_step E True create local)\<^sup>*\<^sup>* m (M_Returned s)) \<and>
    (\<forall>s. m = M_Returned s \<longrightarrow> blk s = blk s0)"
  using fuzz_reach_inv [OF assms] fuzz_can_return [OF assms(1-5) fuzz_reach_inv [OF assms]] by auto

text \<open>With an allocator that places blocks one after the other, the program can be run to its end.\<close>

theorem fuzz_program_clean_witness:
  "\<exists>s. (fuzz_step thread_env True (\<lambda>_. 0) 8)\<^sup>*\<^sup>* (M_Begin empty_mem) (M_Returned s) \<and> blk s = blk empty_mem"
proof -
  have heap: "heap_ok ((blk empty_mem)(8 \<mapsto> sizeof_MemPool thread_env))"
    by (rule heap_ok_insert [OF heap_ok_empty])
      (simp_all add: sizeof_MemPool_def blk_def empty_mem_def)
  have none: "blk empty_mem 8 = None" by (simp add: blk_def empty_mem_def)
  have create: "\<forall>i < num_runners. (\<lambda>_. 0 :: int) i = 0" by simp
  note clean = fuzz_program_clean [OF thread_env_ok(1) thread_env_never_null heap none create]
  from clean [OF rtranclp.rtrancl_refl] obtain s where
    s: "(fuzz_step thread_env True (\<lambda>_. 0) 8)\<^sup>*\<^sup>* (M_Begin empty_mem) (M_Returned s)" by blast
  from clean [OF s] s show ?thesis by blast
qed

text \<open>If the system cannot create a thread the program fails the assertion on it.\<close>

lemma fuzz_create_fails:
  assumes "create (length (rs_runners s)) \<noteq> 0" "length (rs_runners s) < num_runners"
  shows "fuzz_step E serial create local (M_Threads pool s) (M_Failed AssertFail)"
  by (rule fuzz_step.create_fails [OF assms(2)]) (simp add: create_runner_def assms(1))

end
