(* ===== verification/MultiPool_Threads.thy ===== *)
theory MultiPool_Threads
  imports MemPool_Fuzz MemPool_Threads
begin

text \<open>
  Threads that share one multipool. A call of \<open>multipool_mem_acquire\<close> finds its pool and then
  runs \<open>pool_mem_acquire\<close> on it, a call of \<open>pool_mem_return\<close> finds its pool in the node; the
  steps of the fourteen pools interleave on one memory. Clients ask for sizes the multipool
  serves, and calls of \<open>multipool_mem_acquire\<close> that end up in the same pool do not overlap;
  calls in different pools may.
\<close>

section \<open>The machine\<close>

text \<open>\<open>multipool_mem_acquire\<close> up to the first access to the pool. It only reads what does not
  change after \<open>multipool_create\<close>.\<close>

definition multipool_find_pool :: "addr \<Rightarrow> u32 \<Rightarrow> cmem \<Rightarrow> c_error + addr" where
  "multipool_find_pool multipool sz s =
     (if multipool = 0 then Inl AssertFail
      else
        (let index = find_multipool_index_for_size sz in
         if \<not> unat index < MULTIPOOL_ENTRY_COUNT then Inl AssertFail
         else access sizeof_MultiPool multipool s
           (let pool = mu_pools s multipool (unat index) in
            if pool = 0 then Inl AssertFail else Inr pool)))"

lemma multipool_mem_acquire_find:
  "multipool_mem_acquire E k m sz s = andThen (multipool_find_pool m sz s) (\<lambda>p. pool_mem_acquire E k p s)"
  by (simp add: multipool_mem_acquire_def multipool_find_pool_def access_def Let_def pool_mem_acquire_def)

text \<open>
  A call in progress: the size asked for (0 for a return), the pool it works on and where it
  is. A return gets to know its pool when it has found the node of its block.
\<close>

type_synonym mu_pc = "u32 \<times> addr \<times> mp_pc"

record mu_sys =
  us_mem :: cmem
  us_pcs :: "mu_pc option list"
  us_held :: "(nat \<times> u32 \<times> addr) list"

datatype mu_action = MuAcquire nat u32 | MuRelease nat nat | MuStep nat bool

fun pool_seen :: "cmem \<Rightarrow> addr \<Rightarrow> mp_pc \<Rightarrow> addr" where
  "pool_seen s pool (R_Head new_head) = mn_pool s new_head"
| "pool_seen s pool pc = pool"

fun mu_act :: "c_env \<Rightarrow> addr \<Rightarrow> mu_action \<Rightarrow> mu_sys \<Rightarrow> mu_sys option" where
  "mu_act E m (MuAcquire t sz) s =
     (if t < length (us_pcs s) \<and> us_pcs s ! t = None
      then Some (s\<lparr>us_pcs := (us_pcs s)[t :=
        Some (case multipool_find_pool m sz (us_mem s) of
            Inl e \<Rightarrow> (sz, 0, Failed e) | Inr pool \<Rightarrow> (sz, pool, A_Load))]\<rparr>) else None)"
| "mu_act E m (MuRelease t k) s =
     (if t < length (us_pcs s) \<and> us_pcs s ! t = None \<and> k < length (us_held s)
      then Some (s\<lparr>us_pcs := (us_pcs s)[t := Some (0, 0, R_Begin (snd (snd (us_held s ! k))))],
                   us_held := take k (us_held s) @ drop (Suc k) (us_held s)\<rparr>) else None)"
| "mu_act E m (MuStep t spurious) s =
     (if t < length (us_pcs s) then
        (case us_pcs s ! t of
           None \<Rightarrow> None
         | Some (sz, pool, pc) \<Rightarrow>
             (case mp_step E spurious pool (us_mem s) pc of (mem', pc') \<Rightarrow>
                (case mp_call_ends t pc' of (p, got) \<Rightarrow>
                   Some (s\<lparr>us_mem := mem',
                     us_pcs := (us_pcs s)[t := map_option (\<lambda>q. (sz, pool_seen mem' pool q, q)) p],
                     us_held := us_held s @ map (\<lambda>(t, d). (t, sz, d)) got\<rparr>))))
      else None)"

fun mu_exec :: "c_env \<Rightarrow> addr \<Rightarrow> mu_action list \<Rightarrow> mu_sys \<Rightarrow> mu_sys option" where
  "mu_exec E m [] s = Some s"
| "mu_exec E m (a # as) s =
     (case mu_act E m a s of None \<Rightarrow> None | Some s' \<Rightarrow> mu_exec E m as s')"

text \<open>What clients see to: sizes that are served, and one acquisition at a time in each pool.\<close>

definition acquiring_in :: "addr \<Rightarrow> mu_pc option \<Rightarrow> bool" where
  "acquiring_in p c = (case c of None \<Rightarrow> False | Some (sz, q, pc) \<Rightarrow> q = p \<and> in_acquire (Some pc))"

fun mu_allowed :: "addr \<Rightarrow> mu_action \<Rightarrow> mu_sys \<Rightarrow> bool" where
  "mu_allowed m (MuAcquire t sz) s =
     (size_fits sz \<and> \<not> list_ex (acquiring_in (mu_pools (us_mem s) m (class_of sz))) (us_pcs s))"
| "mu_allowed m _ s = True"

fun mu_allowed_all :: "c_env \<Rightarrow> addr \<Rightarrow> mu_action list \<Rightarrow> mu_sys \<Rightarrow> bool" where
  "mu_allowed_all E m [] s = True"
| "mu_allowed_all E m (a # as) s = (mu_allowed m a s \<and>
     (case mu_act E m a s of None \<Rightarrow> True | Some s' \<Rightarrow> mu_allowed_all E m as s'))"

inductive mu_reachable :: "c_env \<Rightarrow> cmem \<Rightarrow> nat \<Rightarrow> addr \<Rightarrow> mu_sys \<Rightarrow> bool"
  for E :: c_env and s0 :: cmem and threads :: nat and m :: addr where
  mu_start: "multipool_create E s0 = Inr (m, s) \<Longrightarrow> m \<noteq> 0 \<Longrightarrow>
    \<forall>i < MULTIPOOL_ENTRY_COUNT. mu_pools s m i \<noteq> 0 \<Longrightarrow>
    mu_reachable E s0 threads m \<lparr>us_mem = s, us_pcs = replicate threads None, us_held = []\<rparr>"
| mu_do: "mu_reachable E s0 threads m s \<Longrightarrow> mu_allowed m a s \<Longrightarrow> mu_act E m a s = Some s' \<Longrightarrow>
    mu_reachable E s0 threads m s'"

lemma mu_exec_reachable:
  "mu_reachable E s0 threads m s \<Longrightarrow> mu_allowed_all E m as s \<Longrightarrow> mu_exec E m as s = Some s' \<Longrightarrow>
    mu_reachable E s0 threads m s'"
  by (induction as arbitrary: s) (auto split: option.splits intro: mu_reachable.mu_do)

section \<open>Who is in which pool\<close>

text \<open>
  Calls and held blocks, each with the pool it belongs to. For calls that is the pool in
  \<open>us_pcs\<close>, except that a return that is about to find its node has none there yet.
\<close>

type_synonym pooled_block = "addr \<times> nat \<times> u32 \<times> addr"

definition call_at :: "addr \<Rightarrow> mu_pc option \<Rightarrow> mp_pc option" where
  "call_at p c = (case c of None \<Rightarrow> None | Some (sz, q, pc) \<Rightarrow> if q = p then Some pc else None)"

definition held_at :: "addr \<Rightarrow> pooled_block list \<Rightarrow> addr list" where
  "held_at p hs = map (snd \<circ> snd \<circ> snd) (filter (\<lambda>h. fst h = p) hs)"

definition same_call :: "mu_pc option \<Rightarrow> mu_pc option \<Rightarrow> bool" where
  "same_call c v \<longleftrightarrow> c = v \<or>
     (\<exists>sz q q' d. c = Some (sz, q, R_Begin d) \<and> v = Some (sz, q', R_Begin d))"

definition call_known :: "cmem \<Rightarrow> pool_desc list \<Rightarrow> mu_pc option \<Rightarrow> bool" where
  "call_known s Ps c = (case c of None \<Rightarrow> True
     | Some (sz, p, pc) \<Rightarrow> p \<in> fst ` set Ps \<and> unat sz \<le> unat (mp_size s p) \<and>
         (in_acquire (Some pc) \<longrightarrow> sz \<noteq> 0))"

definition block_known :: "cmem \<Rightarrow> pool_desc list \<Rightarrow> pooled_block \<Rightarrow> bool" where
  "block_known s Ps h = (case h of (p, t, sz, d) \<Rightarrow>
     p \<in> fst ` set Ps \<and> unat sz \<le> unat (mp_size s p) \<and> sz \<noteq> 0)"

text \<open>The multipool but for \<open>num_available\<close>, and the threads in each of its pools.\<close>

definition multi_core :: "c_env \<Rightarrow> (addr \<rightharpoonup> nat) \<Rightarrow> cmem \<Rightarrow> addr \<Rightarrow> pool_desc list \<Rightarrow> bool" where
  "multi_core E B s m Ps \<longleftrightarrow> core_ok E (B(m \<mapsto> sizeof_MultiPool)) s Ps \<and> B m = None \<and> m \<noteq> 0 \<and>
     length Ps = MULTIPOOL_ENTRY_COUNT \<and>
     (\<forall>i < MULTIPOOL_ENTRY_COUNT. mu_pools s m i = fst (Ps ! i) \<and>
        unat (mp_size s (fst (Ps ! i))) = 2 ^ (9 + i))"

definition mu_state_ok ::
    "c_env \<Rightarrow> (addr \<rightharpoonup> nat) \<Rightarrow> addr \<Rightarrow> cmem \<Rightarrow> mu_pc option list \<Rightarrow> pooled_block list \<Rightarrow>
     pool_desc list \<Rightarrow> bool" where
  "mu_state_ok E B m s vs hs Ps \<longleftrightarrow> multi_core E B s m Ps \<and>
     (\<forall>(p, ns, os) \<in> set Ps. pool_threads E p s (map (call_at p) vs) (held_at p hs) ns os) \<and>
     (\<forall>v \<in> set vs. call_known s Ps v) \<and> (\<forall>h \<in> set hs. block_known s Ps h)"

definition mu_inv :: "c_env \<Rightarrow> (addr \<rightharpoonup> nat) \<Rightarrow> addr \<Rightarrow> mu_sys \<Rightarrow> bool" where
  "mu_inv E B m s \<longleftrightarrow> (\<exists>vs hs Ps. mu_state_ok E B m (us_mem s) vs hs Ps \<and>
     list_all2 same_call (us_pcs s) vs \<and> us_held s = map snd hs)"

lemma held_at_simps [simp]:
  "held_at p [] = []" "held_at p (hs @ ks) = held_at p hs @ held_at p ks"
  "held_at p ((q, t, sz, d) # hs) = (if q = p then d # held_at p hs else held_at p hs)"
  by (simp_all add: held_at_def)

lemma call_at_simps [simp]:
  "call_at p None = None" "call_at p (Some (sz, q, pc)) = (if q = p then Some pc else None)"
  by (simp_all add: call_at_def)

text \<open>Pools are at different places, and what they own does not overlap.\<close>

lemma core_ok_owned:
  assumes "core_ok E C s Ps"
  shows "distinct (owned_all s Ps)" "\<forall>a \<in> set (owned_all s Ps). blk s a \<noteq> None" "heap_ok (blk s)"
proof -
  from assms obtain g where g: "mem_ok E C (s\<lparr>mp_avail := g\<rparr>) Ps" by (auto simp: core_ok_def)
  have "owned_by (s\<lparr>mp_avail := g\<rparr>) = owned_by s" by (simp add: fun_eq_iff)
  with g mem_ok_blocks [OF g] show "distinct (owned_all s Ps)"
    "\<forall>a \<in> set (owned_all s Ps). blk s a \<noteq> None" "heap_ok (blk s)"
    by (auto simp: mem_ok_def)
qed

lemma distinct_pools:
  "distinct (owned_all s Ps) \<Longrightarrow> distinct (map fst Ps)"
proof (induction Ps)
  case (Cons P Ps)
  have "fst Q \<in> set (owned_by s Q)" for Q by (cases Q) simp
  with Cons show ?case by fastforce
qed simp

lemma split_pools:
  assumes "i < length Ps" "Ps ! i = (p, ns, os)"
  shows "Ps = take i Ps @ (p, ns, os) # drop (Suc i) Ps"
    "Ps[i := P] = take i Ps @ P # drop (Suc i) Ps"
  using assms id_take_nth_drop [of i Ps] by (simp_all add: upd_conv_take_nth_drop)


section \<open>A step in one pool\<close>

lemma mu_state_at:
  assumes "mu_state_ok E B m s (us @ v # vs) hs Ps" "i < MULTIPOOL_ENTRY_COUNT" "Ps ! i = (p, ns, os)"
  shows "mthr_at E (B(m \<mapsto> sizeof_MultiPool)) (take i Ps) (drop (Suc i) Ps) p s
    (map (call_at p) us @ call_at p v # map (call_at p) vs) (held_at p hs) ns os"
proof -
  have i: "i < length Ps" and core: "core_ok E (B(m \<mapsto> sizeof_MultiPool)) s Ps"
    using assms by (simp_all add: mu_state_ok_def multi_core_def)
  have "(p, ns, os) \<in> set Ps" using i assms(3) by (metis nth_mem)
  then have "pool_threads E p s (map (call_at p) (us @ v # vs)) (held_at p hs) ns os"
    using assms(1) unfolding mu_state_ok_def by blast
  moreover have "core_ok E (B(m \<mapsto> sizeof_MultiPool)) s (take i Ps @ (p, ns, os) # drop (Suc i) Ps)"
    using core split_pools(1) [OF i assms(3)] by simp
  ultimately show ?thesis by (simp add: mthr_at_def)
qed

lemma mu_state_step:
  assumes ok: "mu_state_ok E B m s (us @ v # vs) hs Ps"
    and i: "i < MULTIPOOL_ENTRY_COUNT" "Ps ! i = (p, ns, os)"
    and inv: "mthr_at E (B(m \<mapsto> sizeof_MultiPool)) (take i Ps) (drop (Suc i) Ps) p s'
      (map (call_at p) us @ call_at p v' # map (call_at p) vs) (held_at p hs') ns' os'"
    and only: "\<And>q. q \<noteq> p \<Longrightarrow> call_at q v = None" "\<And>q. q \<noteq> p \<Longrightarrow> call_at q v' = None"
      "\<And>q. q \<noteq> p \<Longrightarrow> held_at q hs' = held_at q hs"
    and agr: "agree (live_blocks s - set (owned_by s (p, ns, os))) s s'"
    and keep: "\<And>a. a \<noteq> p \<Longrightarrow> mp_allocs s' a = mp_allocs s a" "mu_pools s' = mu_pools s" "mp_size s' = mp_size s"
    and known: "call_known s Ps v'" "\<forall>h \<in> set hs'. block_known s Ps h"
  shows "mu_state_ok E B m s' (us @ v' # vs) hs' (Ps[i := (p, ns', os')])"
proof -
  let ?Ps = "Ps[i := (p, ns', os')]"
  have multi: "multi_core E B s m Ps" using ok by (simp add: mu_state_ok_def)
  then have li: "i < length Ps" and core: "core_ok E (B(m \<mapsto> sizeof_MultiPool)) s Ps"
    using i(1) by (simp_all add: multi_core_def)
  note sp = split_pools [OF li i(2)]
  have fsts: "fst (?Ps ! j) = fst (Ps ! j)" for j
    using i(2) li by (cases "j = i") simp_all
  have names: "map fst ?Ps = map fst Ps" by (rule nth_equalityI) (simp_all add: fsts)
  have core': "core_ok E (B(m \<mapsto> sizeof_MultiPool)) s' ?Ps"
    using inv sp(2) by (simp add: mthr_at_def)
  then have multi': "multi_core E B s' m ?Ps"
    using multi keep by (simp add: multi_core_def fsts)
  have "pool_threads E q s' (map (call_at q) (us @ v' # vs)) (held_at q hs') ms ks"
    if Q: "(q, ms, ks) \<in> set ?Ps" for q ms ks
  proof -
    from Q obtain j where j: "j < length ?Ps" "?Ps ! j = (q, ms, ks)" by (metis in_set_conv_nth)
    then have j': "j < MULTIPOOL_ENTRY_COUNT" using multi by (simp add: multi_core_def)
    show ?thesis
    proof (cases "j = i")
      case True
      then show ?thesis using j inv li by (simp add: mthr_at_def)
    next
      case False
      with j have Pj: "Ps ! j = (q, ms, ks)" by simp
      have dist: "distinct (owned_all s Ps)" by (rule core_ok_owned(1) [OF core])
      have "q \<noteq> p"
        using nth_eq_iff_index_eq [OF distinct_pools [OF dist], of j i] False j(1) li Pj i(2) by simp
      have "set (owned_by s (Ps ! j)) \<inter> set (owned_by s (Ps ! i)) = {}"
        using concat_nth_disjoint [OF dist, of j i] False j(1) li by simp
      moreover have "set (owned_by s (Ps ! j)) \<subseteq> live_blocks s"
        using core_ok_owned(2) [OF core] nth_mem [of j Ps] j(1) by auto
      ultimately have "agree (set (owned_by s (q, ms, ks))) s s'"
        unfolding i(2) Pj by (intro agree_subset [OF agr]) blast
      from pool_threads_frame [OF _ this keep(1) [OF \<open>q \<noteq> p\<close>]]
        mu_state_at [OF ok j' Pj] only \<open>q \<noteq> p\<close>
      show ?thesis by simp
    qed
  qed
  moreover have "call_known s' ?Ps w = call_known s Ps w" "block_known s' ?Ps h = block_known s Ps h" for w h
    using arg_cong [OF names, of set] keep(3)
    by (auto simp: call_known_def block_known_def split: option.splits prod.splits)
  ultimately show ?thesis
    using ok known multi' by (auto simp: mu_state_ok_def)
qed


section \<open>Every action of the machine\<close>

lemma known_pool:
  assumes "mu_state_ok E B m s vs hs Ps" "p \<in> fst ` set Ps"
  obtains i ns os where "i < MULTIPOOL_ENTRY_COUNT" "Ps ! i = (p, ns, os)"
proof -
  from assms(2) obtain ns os where "(p, ns, os) \<in> set Ps" by force
  then obtain i where "i < length Ps" "Ps ! i = (p, ns, os)" by (metis in_set_conv_nth)
  with assms(1) show ?thesis by (intro that [of i]) (auto simp: mu_state_ok_def multi_core_def)
qed

lemma pool_seen_label:
  assumes inv: "mthr_at E B As Bs p s (us @ Some pc # vs) ds ns os"
    and pool: "pool = p \<or> (\<exists>n. pc = R_Head n) \<or> (\<exists>e. pc = Failed e)"
  shows "pool_seen s pool pc = p"
proof (cases "\<exists>n. pc = R_Head n")
  case True
  then obtain n where n: "pc = R_Head n" by blast
  from out_nodes(4) [OF inv, of n] show ?thesis by (simp add: n)
next
  case False
  with pool inv have "pool = p" by (auto simp: mthr_defs)
  with False show ?thesis by (cases pc) auto
qed

lemma step_from_acquire:
  assumes "mp_step E sp p s pc = (s', pc')" "in_acquire (Some pc') \<or> (\<exists>d. pc' = A_Done d)"
    "\<forall>d. pc \<noteq> A_Done d"
  shows "in_acquire (Some pc)"
  using assms by (cases pc) (auto simp: checked_def access_def Let_def andThen_eq_Inr split: if_splits sum.splits)

lemma state_MuStep:
  assumes E: "malloc_ok E" and ok: "mu_state_ok E B m s (us @ Some (sz, p, pc) # vs) hs Ps"
    and step: "mp_step E sp p s pc = (s', pc')" and ends: "mp_call_ends t pc' = (q, got)"
  shows "\<exists>Ps'. mu_state_ok E B m s' (us @ map_option (\<lambda>pc. (sz, p, pc)) q # vs)
      (hs @ map (\<lambda>(t, d). (p, t, sz, d)) got) Ps' \<and>
    (\<forall>r pool. q = Some r \<longrightarrow> pool = p \<or> (\<exists>d. pc = R_Begin d) \<longrightarrow> pool_seen s' pool r = p)"
proof -
  have known: "call_known s Ps (Some (sz, p, pc))" "\<forall>h \<in> set hs. block_known s Ps h"
    using ok by (simp_all add: mu_state_ok_def)
  then have "p \<in> fst ` set Ps" by (simp add: call_known_def)
  then obtain i ns os where i: "i < MULTIPOOL_ENTRY_COUNT" "Ps ! i = (p, ns, os)"
    by (rule known_pool [OF ok])
  have inv: "mthr_at E (B(m \<mapsto> sizeof_MultiPool)) (take i Ps) (drop (Suc i) Ps) p s
      (map (call_at p) us @ Some pc # map (call_at p) vs) (held_at p hs) ns os"
    using mu_state_at [OF ok i] by simp
  let ?v = "map_option (\<lambda>pc. (sz, p, pc)) q" and ?h = "map (\<lambda>(t, d). (p, t, sz, d)) got"
  have v: "call_at p ?v = q" "r \<noteq> p \<Longrightarrow> call_at r ?v = None" for r by (cases q; simp)+
  have h: "held_at p ?h = map snd got" "r \<noteq> p \<Longrightarrow> held_at r ?h = []" for r
    by (induction got) auto
  have "\<forall>d. pc \<noteq> A_Done d" using inv by (auto simp: mthr_defs)
  note acq = step_from_acquire [OF step _ this]
  have sz: "sz \<noteq> 0" if "in_acquire q \<or> got \<noteq> []"
    using that ends acq known(1) by (cases pc') (auto simp: call_known_def)
  from mt_step [OF E inv step ends] obtain ns' os' where
    inv': "mthr_at E (B(m \<mapsto> sizeof_MultiPool)) (take i Ps) (drop (Suc i) Ps) p s'
      (map (call_at p) us @ q # map (call_at p) vs) (held_at p hs @ map snd got) ns' os'" by blast
  have "mu_state_ok E B m s' (us @ ?v # vs) (hs @ ?h) (Ps[i := (p, ns', os')])"
  proof (rule mu_state_step [OF ok i])
    show "mthr_at E (B(m \<mapsto> sizeof_MultiPool)) (take i Ps) (drop (Suc i) Ps) p s'
      (map (call_at p) us @ call_at p ?v # map (call_at p) vs) (held_at p (hs @ ?h)) ns' os'"
      using inv' v h by simp
    show "agree (live_blocks s - set (owned_by s (p, ns, os))) s s'" by (rule mt_frame [OF E inv step])
    show "mu_pools s' = mu_pools s" "mp_size s' = mp_size s" "a \<noteq> p \<Longrightarrow> mp_allocs s' a = mp_allocs s a" for a
      using mp_step_fields [OF step] by blast+
    show "call_known s Ps ?v" using known(1) sz by (cases q) (simp_all add: call_known_def)
    show "\<forall>h \<in> set (hs @ ?h). block_known s Ps h"
      using known sz by (cases "got = []") (auto simp: call_known_def block_known_def)
  qed (use v h in simp_all)
  moreover have "pool_seen s' pool r = p" if r: "q = Some r" and pool: "pool = p \<or> (\<exists>d. pc = R_Begin d)" for r pool
  proof (rule pool_seen_label [OF inv' [unfolded r]])
    have "pc' = r" using ends r by (cases pc') auto
    with pool step show "pool = p \<or> (\<exists>n. r = R_Head n) \<or> (\<exists>e. r = Failed e)"
      by (auto simp: checked_def access_def andThen_def split: if_splits sum.splits)
  qed
  ultimately show ?thesis by blast
qed

lemma find_pool_ok:
  assumes multi: "multi_core E B s m Ps" and sz: "size_fits sz"
  shows "multipool_find_pool m sz s = Inr (mu_pools s m (class_of sz))"
proof -
  note c = class_of_fits [OF sz]
  have core: "core_ok E (B(m \<mapsto> sizeof_MultiPool)) s Ps" and m: "m \<noteq> 0"
    and li: "class_of sz < length Ps"
    using multi c(1) by (simp_all add: multi_core_def)
  from core obtain g where "mem_ok E (B(m \<mapsto> sizeof_MultiPool)) (s\<lparr>mp_avail := g\<rparr>) Ps"
    by (auto simp: core_ok_def)
  with m have v: "valid sizeof_MultiPool m s"
    using mem_ok_valid(2) [of E "B(m \<mapsto> sizeof_MultiPool)" _ Ps m] by fastforce
  obtain p ns os where P: "Ps ! class_of sz = (p, ns, os)" by (cases "Ps ! class_of sz")
  have "mu_pools s m (class_of sz) = p" using multi c(1) P by (simp add: multi_core_def)
  moreover have "p \<noteq> 0"
    using core core_mid(3) [of E _ s "take (class_of sz) Ps" p ns os] split_pools(1) [OF li P] by metis
  ultimately show ?thesis
    using m c(1) v by (simp add: multipool_find_pool_def class_of_def Let_def)
qed

lemma state_MuAcquire:
  assumes ok: "mu_state_ok E B m s (us @ None # vs) hs Ps" and sz: "size_fits sz"
    and free: "\<not> list_ex (acquiring_in (mu_pools s m (class_of sz))) (us @ vs)"
  shows "\<exists>p. multipool_find_pool m sz s = Inr p \<and>
    mu_state_ok E B m s (us @ Some (sz, p, A_Load) # vs) hs Ps"
proof -
  let ?i = "class_of sz"
  note c = class_of_fits [OF sz]
  have multi: "multi_core E B s m Ps" using ok by (simp add: mu_state_ok_def)
  obtain p ns os where P: "Ps ! ?i = (p, ns, os)" by (cases "Ps ! ?i")
  have li: "?i < length Ps" using multi c(1) by (simp add: multi_core_def)
  have mp: "mu_pools s m ?i = p" "unat (mp_size s p) = 2 ^ (9 + ?i)"
    using multi c(1) P by (auto simp: multi_core_def)
  from mu_state_at [OF ok c(1) P] have
    inv: "mthr_at E (B(m \<mapsto> sizeof_MultiPool)) (take ?i Ps) (drop (Suc ?i) Ps) p s
      (map (call_at p) us @ None # map (call_at p) vs) (held_at p hs) ns os" by simp
  have find: "multipool_find_pool m sz s = Inr p" using find_pool_ok [OF multi sz] mp(1) by simp
  have acq: "acquiring_in p w = in_acquire (call_at p w)" for w
    by (simp add: acquiring_in_def call_at_def split: option.splits)
  have "\<not> list_ex in_acquire (map (call_at p) us)" "\<not> list_ex in_acquire (map (call_at p) vs)"
    using free by (auto simp: mp(1) acq list_ex_iff)
  note inv' = mt_begin_acquire [OF inv this]
  have "mu_state_ok E B m s (us @ Some (sz, p, A_Load) # vs) hs (Ps[?i := (p, ns, os)])"
  proof (rule mu_state_step [OF ok c(1) P])
    show "call_known s Ps (Some (sz, p, A_Load))"
      using nth_mem [OF li] P mp(2) c(2) sz by (force simp: call_known_def size_fits_def)
    show "\<forall>h \<in> set hs. block_known s Ps h" using ok by (simp add: mu_state_ok_def)
  qed (use inv' in \<open>simp_all add: agree_def\<close>)
  with find P show ?thesis by (metis list_update_id)
qed

lemma state_MuRelease:
  assumes ok: "mu_state_ok E B m s (us @ None # vs) (hs @ (p, t, sz, d) # ks) Ps"
  shows "mu_state_ok E B m s (us @ Some (0, p, R_Begin d) # vs) (hs @ ks) Ps"
proof -
  have known: "\<forall>h \<in> set (hs @ (p, t, sz, d) # ks). block_known s Ps h" using ok by (simp add: mu_state_ok_def)
  then have p: "p \<in> fst ` set Ps" by (simp add: block_known_def)
  then obtain i ns os where i: "i < MULTIPOOL_ENTRY_COUNT" "Ps ! i = (p, ns, os)"
    by (rule known_pool [OF ok])
  from mu_state_at [OF ok i] have "mthr_at E (B(m \<mapsto> sizeof_MultiPool)) (take i Ps) (drop (Suc i) Ps) p s
      (map (call_at p) us @ None # map (call_at p) vs) (held_at p hs @ d # held_at p ks) ns os" by simp
  then have "mthr_at E (B(m \<mapsto> sizeof_MultiPool)) (take i Ps) (drop (Suc i) Ps) p s
      (map (call_at p) us @ None # map (call_at p) vs) (d # held_at p hs @ held_at p ks) ns os"
    by (rule mthr_perm [rotated]) simp
  note inv = mt_begin_release [OF this]
  have "mu_state_ok E B m s (us @ Some (0, p, R_Begin d) # vs) (hs @ ks) (Ps[i := (p, ns, os)])"
  proof (rule mu_state_step [OF ok i])
    show "call_known s Ps (Some (0, p, R_Begin d))" using p by (simp add: call_known_def)
  qed (use inv known in \<open>simp_all add: agree_def ball_Un\<close>)
  with i show ?thesis by (metis list_update_id)
qed


lemma in_acquire_begin: "same_call c v \<Longrightarrow> acquiring_in p c = acquiring_in p v"
  by (auto simp: same_call_def acquiring_in_def)

lemma mu_inv_at:
  assumes "mu_inv E B m s" "t < length (us_pcs s)"
  obtains us v vs hs Ps where "mu_state_ok E B m (us_mem s) (us @ v # vs) hs Ps"
    "list_all2 same_call (take t (us_pcs s)) us" "list_all2 same_call (drop (Suc t) (us_pcs s)) vs"
    "same_call (us_pcs s ! t) v" "us_held s = map snd hs"
proof -
  from assms(1) obtain ws hs Ps where w: "mu_state_ok E B m (us_mem s) ws hs Ps"
    "list_all2 same_call (us_pcs s) ws" "us_held s = map snd hs" by (auto simp: mu_inv_def)
  have "t < length ws" using w(2) assms(2) by (simp add: list_all2_lengthD)
  then have "ws = take t ws @ ws ! t # drop (Suc t) ws" by (rule id_take_nth_drop)
  with w that [of "take t ws" "ws ! t" "drop (Suc t) ws" hs Ps] list_all2_nthD [OF w(2) assms(2)]
  show ?thesis by (metis list_all2_dropI list_all2_takeI)
qed

lemma mu_invI:
  assumes "mu_state_ok E B m mem (us @ v # vs) hs Ps" "t < length pcs"
    "list_all2 same_call (take t pcs) us" "list_all2 same_call (drop (Suc t) pcs) vs"
    "same_call c v"
  shows "mu_inv E B m \<lparr>us_mem = mem, us_pcs = pcs[t := c], us_held = map snd hs\<rparr>"
proof -
  have "list_all2 same_call (pcs[t := c]) (us @ v # vs)"
    using assms by (simp add: upd_conv_take_nth_drop list_all2_appendI)
  with assms(1) show ?thesis by (auto simp: mu_inv_def)
qed

lemma mu_act_MuAcquire:
  assumes inv: "mu_inv E B m s" and allowed: "mu_allowed m (MuAcquire t sz) s" and act: "mu_act E m (MuAcquire t sz) s = Some s'"
  shows "mu_inv E B m s'"
proof -
  from act have t: "t < length (us_pcs s)" "us_pcs s ! t = None" by (auto split: if_splits)
  from inv t(1) obtain us v vs hs Ps where w: "mu_state_ok E B m (us_mem s) (us @ v # vs) hs Ps"
    "list_all2 same_call (take t (us_pcs s)) us" "list_all2 same_call (drop (Suc t) (us_pcs s)) vs"
    "same_call (us_pcs s ! t) v" "us_held s = map snd hs" by (rule mu_inv_at)
  have v: "v = None" using w(4) t(2) by (simp add: same_call_def)
  let ?p = "mu_pools (us_mem s) m (class_of sz)"
  have "list_all2 same_call (us_pcs s) (us @ v # vs)"
    using w(2-4) t(1) by (subst id_take_nth_drop [OF t(1)]) (simp add: list_all2_appendI)
  then have "list_ex (acquiring_in ?p) (us_pcs s) = list_ex (acquiring_in ?p) (us @ v # vs)"
    by (induction rule: list_all2_induct) (simp_all add: in_acquire_begin)
  then have "size_fits sz" "\<not> list_ex (acquiring_in ?p) (us @ vs)"
    using allowed by simp_all
  from state_MuAcquire [OF w(1) [unfolded v] this] obtain p where
    p: "multipool_find_pool m sz (us_mem s) = Inr p"
    "mu_state_ok E B m (us_mem s) (us @ Some (sz, p, A_Load) # vs) hs Ps" by blast
  from mu_invI [OF p(2) t(1) w(2,3)] show ?thesis
    using act t p(1) w(5) by (cases s) (auto simp: same_call_def)
qed

lemma mu_act_MuRelease:
  assumes inv: "mu_inv E B m s" and act: "mu_act E m (MuRelease t k) s = Some s'"
  shows "mu_inv E B m s'"
proof -
  from act have t: "t < length (us_pcs s)" "us_pcs s ! t = None" and k: "k < length (us_held s)"
    by (auto split: if_splits)
  from inv t(1) obtain us v vs hs Ps where w: "mu_state_ok E B m (us_mem s) (us @ v # vs) hs Ps"
    "list_all2 same_call (take t (us_pcs s)) us" "list_all2 same_call (drop (Suc t) (us_pcs s)) vs"
    "same_call (us_pcs s ! t) v" "us_held s = map snd hs" by (rule mu_inv_at)
  have v: "v = None" using w(4) t(2) by (simp add: same_call_def)
  have k': "k < length hs" using k w(5) by simp
  obtain p u sz d where h: "hs ! k = (p, u, sz, d)" by (cases "hs ! k")
  then have "us_held s ! k = (u, sz, d)" using k' w(5) by simp
  then have s': "s' = s\<lparr>us_pcs := (us_pcs s)[t := Some (0, 0, R_Begin d)],
      us_held := map snd (take k hs @ drop (Suc k) hs)\<rparr>"
    using act t k w(5) by (simp add: take_map drop_map)
  have "mu_state_ok E B m (us_mem s) (us @ None # vs) (take k hs @ (p, u, sz, d) # drop (Suc k) hs) Ps"
    using w(1) v id_take_nth_drop [OF k'] h by simp
  from mu_invI [OF state_MuRelease [OF this] t(1) w(2,3)] show ?thesis
    unfolding s' by (cases s) (simp add: same_call_def)
qed

lemma mu_act_MuStep:
  assumes E: "malloc_ok E" and inv: "mu_inv E B m s" and act: "mu_act E m (MuStep t sp) s = Some s'"
  shows "mu_inv E B m s'"
proof -
  from act have t: "t < length (us_pcs s)" by (simp split: if_splits)
  with act obtain sz pool pc where pc: "us_pcs s ! t = Some (sz, pool, pc)"
    by (auto split: option.splits)
  from inv t(1) obtain us v vs hs Ps where w: "mu_state_ok E B m (us_mem s) (us @ v # vs) hs Ps"
    "list_all2 same_call (take t (us_pcs s)) us" "list_all2 same_call (drop (Suc t) (us_pcs s)) vs"
    "same_call (us_pcs s ! t) v" "us_held s = map snd hs" by (rule mu_inv_at)
  obtain p where v: "v = Some (sz, p, pc)" "pool = p \<or> (\<exists>d. pc = R_Begin d)"
    using w(4) pc by (auto simp: same_call_def)
  obtain m' pc' where step: "mp_step E sp p (us_mem s) pc = (m', pc')"
    by (cases "mp_step E sp p (us_mem s) pc")
  have step': "mp_step E sp pool (us_mem s) pc = (m', pc')" using v(2) step by auto
  obtain q got where ends: "mp_call_ends t pc' = (q, got)" by (cases "mp_call_ends t pc'")
  from state_MuStep [OF E w(1) [unfolded v(1)] step ends] obtain Ps' where
    st: "mu_state_ok E B m m' (us @ map_option (\<lambda>pc. (sz, p, pc)) q # vs)
      (hs @ map (\<lambda>(t, d). (p, t, sz, d)) got) Ps'"
    "\<forall>r. q = Some r \<longrightarrow> pool_seen m' pool r = p" using v(2) by blast
  have "same_call (map_option (\<lambda>q. (sz, pool_seen m' pool q, q)) q) (map_option (\<lambda>pc. (sz, p, pc)) q)"
    using st(2) by (cases q) (simp_all add: same_call_def)
  from mu_invI [OF st(1) t w(2,3) this] show ?thesis
    using act t pc step' ends w(5) by (cases s) (auto simp: case_prod_unfold comp_def)
qed

lemma mu_act_inv:
  assumes E: "malloc_ok E" and inv: "mu_inv E B m s" and allowed: "mu_allowed m a s"
    and act: "mu_act E m a s = Some s'"
  shows "mu_inv E B m s'"
proof (cases a)
  case (MuAcquire t sz)
  show ?thesis by (rule mu_act_MuAcquire [OF inv allowed [unfolded MuAcquire] act [unfolded MuAcquire]])
next
  case (MuRelease t k)
  show ?thesis by (rule mu_act_MuRelease [OF inv act [unfolded MuRelease]])
next
  case (MuStep t sp)
  show ?thesis by (rule mu_act_MuStep [OF E inv act [unfolded MuStep]])
qed


section \<open>Creation\<close>

text \<open>The pools of a new multipool have allocated nothing.\<close>

lemma create_loop_allocs:
  assumes "multipool_create_loop E m i s = Inr s'"
  shows "(mp_allocs s' a = mp_allocs s a \<or> mp_allocs s' a = 0) \<and>
    (\<forall>j. i \<le> j \<longrightarrow> j < MULTIPOOL_ENTRY_COUNT \<longrightarrow> mu_pools s' m j \<noteq> 0 \<longrightarrow>
      mp_allocs s' (mu_pools s' m j) = 0)"
  using assms
proof (induction "MULTIPOOL_ENTRY_COUNT - i" arbitrary: i s a)
  case 0
  then show ?case by (subst (asm) multipool_create_loop.simps) simp
next
  case (Suc k)
  then have i: "i < MULTIPOOL_ENTRY_COUNT" and k: "k = MULTIPOOL_ENTRY_COUNT - Suc i" by simp_all
  obtain p s1 where a: "alloc_mem_pool E (push_bit (DynPoolMinMultiPoolMemNodeSizeBits + i) 1) s = (p, s1)"
    by (cases "alloc_mem_pool E (push_bit (DynPoolMinMultiPoolMemNodeSizeBits + i) 1) s")
  then have s1: "mp_allocs s1 b = mp_allocs s b \<or> mp_allocs s1 b = 0" "p \<noteq> 0 \<Longrightarrow> mp_allocs s1 p = 0" for b
    by (auto simp: alloc_mem_pool_def c_malloc_def Let_def split: if_splits)
  let ?s2 = "s1\<lparr>mu_pools := (mu_pools s1)(m := (mu_pools s1 m)(i := p))\<rparr>"
  have rest: "multipool_create_loop E m (Suc i) ?s2 = Inr s'"
    using Suc.prems i a by (subst (asm) multipool_create_loop.simps)
      (simp add: Let_def access_def split: if_splits)
  note IH = Suc.hyps(1) [OF k rest]
  have pi: "mu_pools s' m i = p" using create_loop_pools [OF rest] by simp
  have "mp_allocs s' (mu_pools s' m j) = 0"
    if j: "i \<le> j" "j < MULTIPOOL_ENTRY_COUNT" "mu_pools s' m j \<noteq> 0" for j
  proof (cases "j = i")
    case True
    then show ?thesis using IH [of p] s1(2) pi j(3) by auto
  next
    case False
    with j IH show ?thesis by (metis Suc_leI le_neq_implies_less)
  qed
  moreover have "mp_allocs s' a = mp_allocs s a \<or> mp_allocs s' a = 0"
    using IH [of a] s1(1) [of a] by auto
  ultimately show ?case by blast
qed

lemma create_allocs:
  assumes "multipool_create E s = Inr (m, s')" "m \<noteq> 0" "j < MULTIPOOL_ENTRY_COUNT" "mu_pools s' m j \<noteq> 0"
  shows "mp_allocs s' (mu_pools s' m j) = 0"
proof -
  obtain s1 where "multipool_create_loop E m 0 s1 = Inr s'"
    using assms(1,2) by (auto simp: multipool_create_def andThen_eq_Inr split: prod.splits if_splits)
  with create_loop_allocs [of E m 0 s1 s'] assms(3,4) show ?thesis by blast
qed

lemma multi_ok_core: "multi_ok E B s m Ps \<Longrightarrow> multi_core E B s m Ps"
  by (simp add: multi_ok_def multi_core_def mem_ok_core)

lemma mu_start_inv:
  assumes E: "malloc_ok E" and heap: "heap_ok (blk s0)"
    and new: "multipool_create E s0 = Inr (m, s)" "m \<noteq> 0"
    and all: "\<forall>i < MULTIPOOL_ENTRY_COUNT. mu_pools s m i \<noteq> 0"
  shows "mu_inv E (blk s0) m \<lparr>us_mem = s, us_pcs = replicate threads None, us_held = []\<rparr>"
proof -
  from multi_create_complete [OF assms] obtain Ps where
    Ps: "multi_ok E (blk s0) s m Ps" "\<forall>P \<in> set Ps. snd P = ([], [])" .
  have none: "map (call_at p) (replicate threads None) = replicate threads None" for p by simp
  have "pool_threads E p s (replicate threads None) [] ns os" if P: "(p, ns, os) \<in> set Ps" for p ns os
  proof -
    have ns: "ns = []" "os = []" using Ps(2) P by auto
    from P obtain i where "i < length Ps" "Ps ! i = (p, ns, os)" by (metis in_set_conv_nth)
    with Ps(1) have "i < MULTIPOOL_ENTRY_COUNT" "mu_pools s m i = p" by (auto simp: multi_ok_def)
    with create_allocs [OF new] all have "mp_allocs s p = 0" by metis
    moreover have "pool_rep E s (p, ns, os)" using Ps(1) P by (auto simp: multi_ok_def mem_ok_def)
    moreover have "transit s (replicate threads None) = []" by (induction threads) simp_all
    moreover have "filter in_acquire (replicate threads None) = []" by (simp add: filter_empty_conv)
    ultimately show ?thesis by (simp add: pool_threads_def out_ok_def counts_def ns)
  qed
  moreover have "multi_core E (blk s0) s m Ps" using Ps(1) by (rule multi_ok_core)
  ultimately have "mu_state_ok E (blk s0) m s (replicate threads None) [] Ps"
    by (auto simp: mu_state_ok_def none call_known_def)
  moreover have "list_all2 same_call (replicate threads None) (replicate threads None)"
    by (simp add: list_all2_conv_all_nth same_call_def)
  ultimately show ?thesis unfolding mu_inv_def by fastforce
qed

lemma mu_reachable_inv:
  assumes "malloc_ok E" "heap_ok (blk s0)" "mu_reachable E s0 threads m s"
  shows "mu_inv E (blk s0) m s"
  using assms(3)
proof induction
  case (mu_start s)
  then show ?case by (rule mu_start_inv [OF assms(1,2)])
next
  case (mu_do s a s')
  then show ?case using mu_act_inv [OF assms(1)] by blast
qed

section \<open>What the clients hold\<close>

lemma mset_concat_add:
  "\<forall>x \<in> set xs. mset (f x) = mset (g x) + mset (h x) \<Longrightarrow>
     mset (concat (map f xs)) = mset (concat (map g xs)) + mset (concat (map h xs))"
  by (induction xs) (auto simp: union_ac)

lemma mset_held:
  "distinct ps \<Longrightarrow> fst ` set hs \<subseteq> set ps \<Longrightarrow>
     mset (concat (map (\<lambda>p. map f (held_at p hs)) ps)) = mset (map (\<lambda>(p, t, sz, d). f d) hs)"
proof (induction ps arbitrary: hs)
  case (Cons p ps)
  let ?hs = "filter (\<lambda>h. fst h \<noteq> p) hs"
  have "mset (map (\<lambda>(p, t, sz, d). f d) hs) =
      mset (map f (held_at p hs)) + mset (map (\<lambda>(p, t, sz, d). f d) ?hs)" by (induction hs) auto
  moreover have "held_at q ?hs = held_at q hs" if "q \<in> set ps" for q
    using Cons.prems(1) that by (auto simp: held_at_def intro!: arg_cong [of _ _ "map _"] filter_cong)
  then have "mset (concat (map (\<lambda>q. map f (held_at q ?hs)) ps)) = mset (concat (map (\<lambda>q. map f (held_at q hs)) ps))"
    by (intro arg_cong [of _ _ "\<lambda>x. mset (concat x)"] map_cong) simp_all
  moreover have "mset (concat (map (\<lambda>q. map f (held_at q ?hs)) ps)) = mset (map (\<lambda>(p, t, sz, d). f d) ?hs)"
    using Cons.prems by (intro Cons.IH) auto
  ultimately show ?case by (simp add: union_ac)
qed simp

lemma held_block:
  assumes ok: "mu_state_ok E B m s vs hs Ps" and h: "(p, t, sz, d) \<in> set hs"
  shows "d = mn_data s (node_of s d)" "mn_pool s (node_of s d) = p"
proof -
  have "block_known s Ps (p, t, sz, d)" using ok h unfolding mu_state_ok_def by blast
  then have "p \<in> fst ` set Ps" by (simp add: block_known_def)
  then obtain ns os where P: "(p, ns, os) \<in> set Ps" by force
  then have th: "pool_threads E p s (map (call_at p) vs) (held_at p hs) ns os"
    using ok by (auto simp: mu_state_ok_def)
  have "d \<in> snd ` snd ` snd ` {h \<in> set hs. fst h = p}"
    by (rule image_eqI [where x = "(sz, d)"], simp, rule image_eqI [where x = "(t, sz, d)"], simp,
        rule image_eqI [where x = "(p, t, sz, d)"]) (use h in simp_all)
  then have d: "d \<in> set (held_at p hs)" by (simp add: held_at_def image_comp comp_def)
  with th show "d = mn_data s (node_of s d)" by (simp add: pool_threads_def out_ok_def)
  have "mset os = mset (transit s (map (call_at p) vs) @ map (node_of s) (held_at p hs))"
    using th by (simp add: pool_threads_def out_ok_def)
  from mset_eq_setD [OF this] d have n: "node_of s d \<in> set os" by simp
  from P obtain As Bs where "Ps = As @ (p, ns, os) # Bs" by (auto dest: split_list)
  then have "core_ok E (B(m \<mapsto> sizeof_MultiPool)) s (As @ (p, ns, os) # Bs)"
    using ok by (simp add: mu_state_ok_def multi_core_def)
  from core_mid(1) [OF this] n show "mn_pool s (node_of s d) = p" by (simp add: node_rep_def)
qed

text \<open>All blocks that are out, those of calls in progress (\<open>tr\<close>) first.\<close>

lemma mu_holds:
  assumes ok: "mu_state_ok E B m s vs hs Ps"
  obtains tr where "holds s Ps (map (\<lambda>n. (mn_data s n, 0)) tr @ map (\<lambda>(p, t, sz, d). (d, sz)) hs)
      (tr @ map (\<lambda>(p, t, sz, d). node_of s d) hs)"
    "(\<forall>v \<in> set vs. v = None) \<Longrightarrow> tr = []"
proof -
  let ?tr = "concat (map (\<lambda>P. transit s (map (call_at (fst P)) vs)) Ps)"
  have core: "core_ok E (B(m \<mapsto> sizeof_MultiPool)) s Ps" using ok by (simp add: mu_state_ok_def multi_core_def)
  note own = core_ok_owned [OF core]
  have th: "pool_threads E (fst P) s (map (call_at (fst P)) vs) (held_at (fst P) hs) (fst (snd P)) (snd (snd P))"
    if "P \<in> set Ps" for P using ok that by (force simp: mu_state_ok_def)
  then have out: "mset (snd (snd P)) = mset (transit s (map (call_at (fst P)) vs)) +
      mset (map (node_of s) (held_at (fst P) hs))" if "P \<in> set Ps" for P
    using that by (simp add: pool_threads_def out_ok_def)
  have labels: "fst ` set hs \<subseteq> set (map fst Ps)" using ok by (force simp: mu_state_ok_def block_known_def)
  have "mset (concat (map (\<lambda>P. snd (snd P)) Ps)) = mset ?tr +
      mset (concat (map (\<lambda>P. map (node_of s) (held_at (fst P) hs)) Ps))"
    using out by (intro mset_concat_add) blast
  also have "concat (map (\<lambda>P. map (node_of s) (held_at (fst P) hs)) Ps) =
      concat (map (\<lambda>p. map (node_of s) (held_at p hs)) (map fst Ps))" by (simp add: comp_def)
  also have "mset \<dots> = mset (map (\<lambda>(p, t, sz, d). node_of s d) hs)"
    by (rule mset_held [OF distinct_pools [OF own(1)] labels])
  finally have all: "mset (?tr @ map (\<lambda>(p, t, sz, d). node_of s d) hs) = mset (concat (map (snd \<circ> snd) Ps))"
    by (simp add: comp_def)
  have "unat sz \<le> unat (mp_size s p)" if "(p, t, sz, d) \<in> set hs" for p t sz d
    using ok that by (force simp: mu_state_ok_def block_known_def)
  then have "list_all2 (\<lambda>(d, sz) n. d = mn_data s n \<and> unat sz \<le> unat (mp_size s (mn_pool s n)))
      (map (\<lambda>(p, t, sz, d). (d, sz)) hs) (map (\<lambda>(p, t, sz, d). node_of s d) hs)"
    using held_block [OF ok] by (auto simp: list_all2_map1 list_all2_map2 list_all2_same)
  then have "holds s Ps (map (\<lambda>n. (mn_data s n, 0)) ?tr @ map (\<lambda>(p, t, sz, d). (d, sz)) hs)
      (?tr @ map (\<lambda>(p, t, sz, d). node_of s d) hs)"
    using all unfolding holds_def
    by (intro conjI list_all2_appendI) (simp_all add: list_all2_map1 list_all2_same)
  moreover have "?tr = []" if "\<forall>v \<in> set vs. v = None"
  proof -
    have "transit s (map (call_at p) vs) = []" for p using that by (induction vs) auto
    then show ?thesis by simp
  qed
  ultimately show ?thesis by (rule that)
qed

lemma mu_apart:
  assumes ok: "mu_state_ok E B m s vs hs Ps"
  shows "sorted_wrt (\<lambda>(t, a, d) (u, b, e). apart d (unat a) e (unat b)) (map snd hs)"
    "distinct (map (\<lambda>(p, t, sz, d). d) hs)"
proof -
  obtain tr where h: "holds s Ps (map (\<lambda>n. (mn_data s n, 0)) tr @ map (\<lambda>(p, t, sz, d). (d, sz)) hs)
      (tr @ map (\<lambda>(p, t, sz, d). node_of s d) hs)" using mu_holds [OF ok] by metis
  have "core_ok E (B(m \<mapsto> sizeof_MultiPool)) s Ps" using ok by (simp add: mu_state_ok_def multi_core_def)
  then obtain g where g: "mem_ok E (B(m \<mapsto> sizeof_MultiPool)) (s\<lparr>mp_avail := g\<rparr>) Ps" by (auto simp: core_ok_def)
  have "holds (s\<lparr>mp_avail := g\<rparr>) Ps held own = holds s Ps held own" for held own by (simp add: holds_def)
  with held_apart [OF g] h
  have "sorted_wrt (\<lambda>(d, a) (e, b). apart d (unat a) e (unat b))
      (map (\<lambda>n. (mn_data s n, 0)) tr @ map (\<lambda>(p, t, sz, d). (d, sz)) hs)" by blast
  then show ap: "sorted_wrt (\<lambda>(t, a, d) (u, b, e). apart d (unat a) e (unat b)) (map snd hs)"
    by (simp add: sorted_wrt_append sorted_wrt_map case_prod_unfold)
  have pos: "\<forall>(p, t, sz, d) \<in> set hs. sz \<noteq> 0" using ok by (force simp: mu_state_ok_def block_known_def)
  from ap pos show "distinct (map (\<lambda>(p, t, sz, d). d) hs)"
    by (induction hs) (fastforce simp: apart_def unat_gt_0 [symmetric] simp del: unat_gt_0)+
qed

lemma mu_idle:
  assumes ok: "mu_state_ok E B m s vs hs Ps" and idle: "\<forall>v \<in> set vs. v = None"
  shows "multi_ok E B s m Ps"
proof -
  have "mp_avail s p = of_nat (length ns)" if P: "(p, ns, os) \<in> set Ps" and "ce_track E" for p ns os
  proof -
    have "pool_threads E p s (map (call_at p) vs) (held_at p hs) ns os" using ok P by (auto simp: mu_state_ok_def)
    moreover have "filter giving (map (call_at p) vs) = []" "filter taking (map (call_at p) vs) = []"
      using idle by (auto simp: filter_empty_conv)
    ultimately show ?thesis using that(2) by (simp add: pool_threads_def counts_def)
  qed
  then have "mem_ok E (B(m \<mapsto> sizeof_MultiPool)) s Ps"
    using ok by (intro core_counted) (auto simp: mu_state_ok_def multi_core_def)
  with ok show ?thesis by (simp add: mu_state_ok_def multi_core_def multi_ok_def)
qed


text \<open>A block held is a live block of the heap from its header on, with room for the size asked for.\<close>

lemma mu_room:
  assumes ok: "mu_state_ok E B m s vs hs Ps" and h: "(p, t, sz, d) \<in> set hs"
  shows "sizeof_ptrdiff_t < d \<and>
    (\<exists>k. blk s (d - sizeof_ptrdiff_t) = Some k \<and> unat sz + sizeof_ptrdiff_t \<le> k)"
proof -
  obtain tr where hold: "holds s Ps (map (\<lambda>n. (mn_data s n, 0)) tr @ map (\<lambda>(p, t, sz, d). (d, sz)) hs)
      (tr @ map (\<lambda>(p, t, sz, d). node_of s d) hs)" using mu_holds [OF ok] by metis
  let ?n = "node_of s d"
  have l2: "list_all2 (\<lambda>(d, sz) n. d = mn_data s n \<and> unat sz \<le> unat (mp_size s (mn_pool s n)))
      (map (\<lambda>(p, t, sz, d). (d, sz)) hs) (map (\<lambda>(p, t, sz, d). node_of s d) hs)"
    using hold by (simp add: holds_def list_all2_append)
  have n: "d = mn_data s ?n" "unat sz \<le> unat (mp_size s (mn_pool s ?n))"
    using l2 h by (auto simp: list_all2_conv_all_nth in_set_conv_nth split: prod.splits)
  have "core_ok E (B(m \<mapsto> sizeof_MultiPool)) s Ps" using ok by (simp add: mu_state_ok_def multi_core_def)
  then obtain g where g: "mem_ok E (B(m \<mapsto> sizeof_MultiPool)) (s\<lparr>mp_avail := g\<rparr>) Ps" by (auto simp: core_ok_def)
  let ?own = "tr @ map (\<lambda>(p, t, sz, d). node_of s d) hs"
  have mem: "?n \<in> set ?own" using h by force
  have own: "mset ?own = mset (concat (map (snd \<circ> snd) Ps))" using hold by (simp add: holds_def)
  obtain q where q: "node_rep (s\<lparr>mp_avail := g\<rparr>) q ?n" by (rule own_node [OF g own mem])
  then have "sizeof_ptrdiff_t < mn_data s ?n" "mn_pool s ?n = q"
    "blk s (mn_data s ?n - sizeof_ptrdiff_t) = Some (unat (mp_size s q) + sizeof_ptrdiff_t)"
    by (simp_all add: node_rep_def data_block_def)
  then show ?thesis using n(2) unfolding n(1) [symmetric] by simp
qed

lemma mu_drain:
  assumes ok: "mu_state_ok E B m s vs hs Ps" and idle: "\<forall>v \<in> set vs. v = None"
  shows "\<exists>s2 s3. return_all E (map (\<lambda>(p, t, sz, d). d) hs) s = Inr s2 \<and>
    multipool_free E m s2 = Inr s3 \<and> blk s3 = B"
proof -
  obtain tr where "holds s Ps (map (\<lambda>n. (mn_data s n, 0)) tr @ map (\<lambda>(p, t, sz, d). (d, sz)) hs)
      (tr @ map (\<lambda>(p, t, sz, d). node_of s d) hs)" "tr = []"
    using mu_holds [OF ok] idle by metis
  then have "holds s Ps (map (\<lambda>(p, t, sz, d). (d, sz)) hs) (map (\<lambda>(p, t, sz, d). node_of s d) hs)" by simp
  from multi_return_all [OF mu_idle [OF ok idle] this] obtain s2 Ps2 where
    s2: "return_all E (map (\<lambda>(p, t, sz, d). d) hs) s = Inr s2" "multi_ok E B s2 m Ps2"
    "\<forall>P \<in> set Ps2. snd (snd P) = []" by (auto simp: comp_def case_prod_unfold)
  from multi_free [OF s2(2,3)] s2(1) show ?thesis by blast
qed

lemma idle_calls:
  "list_all2 same_call cs vs \<Longrightarrow> \<forall>c \<in> set cs. c = None \<Longrightarrow> \<forall>v \<in> set vs. v = None"
  by (induction rule: list_all2_induct) (auto simp: same_call_def)

lemma state_not_failed:
  assumes ok: "mu_state_ok E B m s vs hs Ps"
  shows "Some (sz, p, Failed e) \<notin> set vs"
proof
  assume v: "Some (sz, p, Failed e) \<in> set vs"
  then have "call_known s Ps (Some (sz, p, Failed e))" using ok unfolding mu_state_ok_def by blast
  then obtain ns os where "(p, ns, os) \<in> set Ps" by (force simp: call_known_def)
  then have "pool_threads E p s (map (call_at p) vs) (held_at p hs) ns os"
    using ok by (auto simp: mu_state_ok_def)
  moreover have "Some (Failed e) \<in> set (map (call_at p) vs)" using v by (force simp: call_at_def)
  ultimately have "mp_pc_ok s ns (Some (Failed e))" unfolding pool_threads_def by blast
  then show False by simp
qed

section \<open>A sample run\<close>

text \<open>Two threads are in \<open>multipool_mem_acquire\<close> at the same time, in different pools.\<close>

definition two_sizes :: "mu_action list" where
  "two_sizes = [MuAcquire 0 100, MuAcquire 1 5000, MuStep 0 False, MuStep 1 False,
     MuStep 0 False, MuStep 1 False]"

lemma sizes_100_5000: "class_of 100 = 0" "class_of 5000 = 4" "size_fits 100" "size_fits 5000"
proof -
  show "class_of 100 = 0" "class_of 5000 = 4" by code_simp+
  show "size_fits 100" "size_fits 5000" by (simp_all add: size_fits_def)
qed

lemma block_for:
  assumes E: "malloc_ok E" "never_null E" and ok: "mem_ok E B s (As @ (p, ns, os) # Bs)"
  shows "\<exists>n s'. pool_mem_try_alloc_data E p s = Inr (mn_data s' n, s') \<and> mn_data s' n \<noteq> 0 \<and>
    mem_ok E B s' (As @ (p, ns, n # os) # Bs)"
  using E(1) ok
proof (cases rule: try_alloc)
  case (null s')
  with try_alloc_not_null [OF E ok] show ?thesis by simp
qed blast

lemma two_sizes_run:
  obtains m s where "mu_reachable sample_env empty_mem 2 m s" "us_pcs s = [None, None]"
    "map (fst \<circ> snd) (us_held s) = [100, 5000]"
proof -
  obtain m s where s: "multipool_create sample_env empty_mem = Inr (m, s)" "m \<noteq> 0"
    "\<forall>i < MULTIPOOL_ENTRY_COUNT. mu_pools s m i \<noteq> 0" by (rule sample_multi)
  from multi_create_complete [OF sample_env_ok heap_ok_empty s] obtain Ps where
    Ps: "multi_ok sample_env (blk empty_mem) s m Ps" "\<forall>P \<in> set Ps. snd P = ([], [])" .
  let ?C = "(blk empty_mem)(m \<mapsto> sizeof_MultiPool)" and ?p = "mu_pools s m"
  have mem: "mem_ok sample_env ?C s Ps" and len: "length Ps = 14"
    and fsts: "\<forall>i < 14. fst (Ps ! i) = ?p i"
    using Ps(1) by (simp_all add: multi_ok_def MULTIPOOL_ENTRY_COUNT_def)
  have P: "Ps ! i = (?p i, [], [])" if "i < 14" for i
    using that fsts Ps(2) len nth_mem [of i Ps] by (cases "Ps ! i") auto
  have sp: "Ps = take i Ps @ (?p i, [], []) # drop (Suc i) Ps" if "i < 14" for i
    using split_pools(1) [of i Ps "?p i" "[]" "[]"] P that len by simp
  have at: "mem_ok sample_env ?C s (take i Ps @ (?p i, [], []) # drop (Suc i) Ps)" if "i < 14" for i
    using mem sp [OF that] by simp
  have ne: "?p 0 \<noteq> ?p 4"
    using nth_eq_iff_index_eq [OF distinct_pools, of s Ps 0 4] mem fsts len by (simp add: mem_ok_def)
  have head: "mp_head s (?p i) = 0" "valid (sizeof_MemPool sample_env) (?p i) s" if "i < 14" for i
    using mem_ok_mid(1,4) [OF at [OF that]] by simp_all
  note E = sample_env_ok sample_never_null
  from block_for [OF E at [of 0]] obtain n s1 where
    s1: "pool_mem_try_alloc_data sample_env (?p 0) s = Inr (mn_data s1 n, s1)" "mn_data s1 n \<noteq> 0"
    "mem_ok sample_env ?C s1 (take 0 Ps @ (?p 0, [], [n]) # drop (Suc 0) Ps)" by auto
  let ?Qs = "Ps[0 := (?p 0, [], [n])]"
  have "mem_ok sample_env ?C s1 (take 4 ?Qs @ (?p 4, [], []) # drop 5 ?Qs)"
    using s1(3) split_pools(2) [of 0 Ps "?p 0" "[]" "[]" "(?p 0, [], [n])"]
      split_pools(1) [of 4 ?Qs "?p 4" "[]" "[]"] P [of 0] P [of 4] len by simp
  from block_for [OF E this] obtain k s2 where
    s2: "pool_mem_try_alloc_data sample_env (?p 4) s1 = Inr (mn_data s2 k, s2)" "mn_data s2 k \<noteq> 0" by auto
  let ?S = "\<lparr>us_mem = s, us_pcs = replicate 2 None, us_held = []\<rparr>"
  have r: "mu_reachable sample_env empty_mem 2 m ?S" by (rule mu_reachable.mu_start [OF s])
  note find = find_pool_ok [OF multi_ok_core [OF Ps(1)]]
  note sizes = sizes_100_5000
  have two: "replicate 2 x = [x, x]" for x :: "mu_pc option" by (simp add: numeral_2_eq_2)
  have "mu_exec sample_env m two_sizes ?S = Some \<lparr>us_mem = s2, us_pcs = [None, None],
      us_held = [(0, 100, mn_data s1 n), (1, 5000, mn_data s2 k)]\<rparr>"
    "mu_allowed_all sample_env m two_sizes ?S"
    using find [OF sizes(3)] find [OF sizes(4)] sizes head [of 0] head [of 4] s1(1,2) s2 ne
    by (simp_all add: two_sizes_def two acquiring_in_def)
  with mu_exec_reachable [OF r] that show ?thesis by fastforce
qed

section \<open>What the machine guarantees\<close>

text \<open>C10: threads share a multipool of which all fourteen pools were allocated, and ask it for
  sizes from 1 byte to 4 MB. However they interleave, as long as the calls of
  \<open>multipool_mem_acquire\<close> that end up in the same pool do not overlap, no call fails; each block
  held lies in a live block of the heap, after its header and with room for the size asked for;
  and the blocks held do not overlap, whichever pools they come from. Whenever no call is in
  progress, returning the blocks held and freeing the multipool leaves exactly the blocks that
  were there before its creation.\<close>

theorem multipool_threads:
  assumes "malloc_ok E" "heap_ok (blk s0)" "mu_reachable E s0 threads m s"
  shows "sorted_wrt (\<lambda>(t, a, d) (u, b, e). apart d (unat a) e (unat b)) (us_held s) \<and>
    (\<forall>(t, a, d) \<in> set (us_held s). sizeof_ptrdiff_t < d \<and>
      (\<exists>k. blk (us_mem s) (d - sizeof_ptrdiff_t) = Some k \<and> unat a + sizeof_ptrdiff_t \<le> k)) \<and>
    distinct (map (snd \<circ> snd) (us_held s)) \<and> (\<forall>sz p e. Some (sz, p, Failed e) \<notin> set (us_pcs s)) \<and>
    ((\<forall>c \<in> set (us_pcs s). c = None) \<longrightarrow>
      (\<exists>s2 s3. return_all E (map (snd \<circ> snd) (us_held s)) (us_mem s) = Inr s2 \<and>
        multipool_free E m s2 = Inr s3 \<and> blk s3 = blk s0))"
proof -
  let ?m = "us_mem s"
  from mu_reachable_inv [OF assms] obtain vs hs Ps where
    ok: "mu_state_ok E (blk s0) m ?m vs hs Ps" and same: "list_all2 same_call (us_pcs s) vs"
    and held: "us_held s = map snd hs" by (auto simp: mu_inv_def)
  have "Some (sz, p, Failed e) \<notin> set (us_pcs s)" for sz p e
    using state_not_failed [OF ok] same by (auto simp: same_call_def in_set_conv_nth list_all2_conv_all_nth)
  moreover have "\<exists>s2 s3. return_all E (map (snd \<circ> snd) (us_held s)) ?m = Inr s2 \<and>
      multipool_free E m s2 = Inr s3 \<and> blk s3 = blk s0" if "\<forall>c \<in> set (us_pcs s). c = None"
    using mu_drain [OF ok] idle_calls [OF same that] held by (simp add: case_prod_unfold comp_def)
  moreover have "\<forall>(t, a, d) \<in> set (us_held s). sizeof_ptrdiff_t < d \<and>
      (\<exists>k. blk ?m (d - sizeof_ptrdiff_t) = Some k \<and> unat a + sizeof_ptrdiff_t \<le> k)"
    using mu_room [OF ok] unfolding held by fastforce
  ultimately show ?thesis using mu_apart [OF ok] held by (simp add: case_prod_unfold comp_def)
qed


theorem multipool_threads_witness:
  "\<exists>m s s2 s3. mu_reachable sample_env empty_mem 2 m s \<and> map (fst \<circ> snd) (us_held s) = [100, 5000] \<and>
    distinct (map (snd \<circ> snd) (us_held s)) \<and>
    return_all sample_env (map (snd \<circ> snd) (us_held s)) (us_mem s) = Inr s2 \<and>
    multipool_free sample_env m s2 = Inr s3 \<and> blk s3 = blk empty_mem"
proof (rule two_sizes_run)
  fix m s
  assume s: "mu_reachable sample_env empty_mem 2 m s" "us_pcs s = [None, None]"
    "map (fst \<circ> snd) (us_held s) = [100, 5000]"
  from multipool_threads [OF sample_env_ok heap_ok_empty s(1)] have
    d: "distinct (map (snd \<circ> snd) (us_held s))" and
    ex: "\<exists>s2 s3. return_all sample_env (map (snd \<circ> snd) (us_held s)) (us_mem s) = Inr s2 \<and>
      multipool_free sample_env m s2 = Inr s3 \<and> blk s3 = blk empty_mem"
    using s(2) by simp_all
  from ex obtain s2 s3 where r: "return_all sample_env (map (snd \<circ> snd) (us_held s)) (us_mem s) = Inr s2"
    "multipool_free sample_env m s2 = Inr s3" "blk s3 = blk empty_mem" by blast
  from s(1,3) d r show ?thesis
    by (intro exI [of _ m] exI [of _ s] exI [of _ s2] exI [of _ s3] conjI)
qed

end
