(* ===== verification/WorkQueue.thy ===== *)
theory WorkQueue
  imports Prelude
begin

text \<open>
  The class \<open>WorkQueue\<close> of \<open>src/WorkQueue.h\<close>. Every method holds the mutex of the queue
  for its whole body, except while \<open>Take\<close> waits on the condition variable, so a method is one
  function on the queue; \<open>Take\<close> gives \<open>None\<close> when its thread has to wait. Who is woken
  is part of the worker pool, which has the threads.
\<close>

section \<open>The class\<close>

record 'a work_queue =
  wq_tasks :: "'a list"

definition WorkQueue_new :: "'a work_queue" where
  "WorkQueue_new = \<lparr>wq_tasks = []\<rparr>"

definition wq_Add :: "'a \<Rightarrow> 'a work_queue \<Rightarrow> 'a work_queue" where
  "wq_Add task q = q\<lparr>wq_tasks := wq_tasks q @ [task]\<rparr>"

definition wq_Take :: "'a work_queue \<Rightarrow> ('a \<times> 'a work_queue) option" where
  "wq_Take q =
     (case wq_tasks q of [] \<Rightarrow> None | task # rest \<Rightarrow> Some (task, q\<lparr>wq_tasks := rest\<rparr>))"

definition wq_HasWork :: "'a work_queue \<Rightarrow> bool" where
  "wq_HasWork q \<longleftrightarrow> wq_tasks q \<noteq> []"

section \<open>The contract\<close>

text \<open>What users of a task queue rely on, and what follows for any sequence of their calls.\<close>

datatype 'a queue_call = QAdd 'a | QTake

locale task_queue =
  fixes new :: 'q
    and add :: "'a \<Rightarrow> 'q \<Rightarrow> 'q"
    and take' :: "'q \<Rightarrow> ('a \<times> 'q) option"
    and has_work :: "'q \<Rightarrow> bool"
    and contents :: "'q \<Rightarrow> 'a list"
  assumes contents_new: "contents new = []"
    and contents_add: "contents (add t q) = contents q @ [t]"
    and take_none: "take' q = None \<longleftrightarrow> contents q = []"
    and take_some: "take' q = Some (t, q') \<Longrightarrow> contents q = t # contents q'"
    and has_work_iff: "has_work q \<longleftrightarrow> contents q \<noteq> []"
begin

text \<open>What is taken, and what is left, after a sequence of calls; a take that would block is
  skipped.\<close>

fun queue_run :: "'a queue_call list \<Rightarrow> 'q \<Rightarrow> 'a list \<Rightarrow> 'a list \<times> 'q" where
  "queue_run [] q taken = (taken, q)"
| "queue_run (QAdd t # cs) q taken = queue_run cs (add t q) taken"
| "queue_run (QTake # cs) q taken =
     (case take' q of
        None \<Rightarrow> queue_run cs q taken
      | Some (t, q') \<Rightarrow> queue_run cs q' (taken @ [t]))"

fun added :: "'a queue_call list \<Rightarrow> 'a list" where
  "added [] = []"
| "added (QAdd t # cs) = t # added cs"
| "added (QTake # cs) = added cs"

lemma run_order:
  "queue_run cs q taken = (taken', q') \<Longrightarrow> taken' @ contents q' = taken @ contents q @ added cs"
proof (induction cs arbitrary: q taken)
  case (Cons c cs)
  show ?case
  proof (cases c)
    case (QAdd t)
    with Cons show ?thesis by (simp add: contents_add)
  next
    case QTake
    show ?thesis
    proof (cases "take' q")
      case None
      with Cons QTake show ?thesis by simp
    next
      case (Some r)
      obtain t q1 where r: "r = (t, q1)" by (cases r)
      with Cons QTake Some show ?thesis by (simp add: take_some)
    qed
  qed
qed simp

lemma run_new:
  assumes "queue_run cs new [] = (taken, q)"
  shows "taken @ contents q = added cs" "has_work q \<longleftrightarrow> taken \<noteq> added cs"
proof -
  show "taken @ contents q = added cs"
    using run_order [OF assms] by (simp add: contents_new)
  then show "has_work q \<longleftrightarrow> taken \<noteq> added cs"
    by (metis append.right_neutral append_self_conv has_work_iff)
qed

end

interpretation wq: task_queue WorkQueue_new wq_Add wq_Take wq_HasWork wq_tasks
  by unfold_locales
    (auto simp: WorkQueue_new_def wq_Add_def wq_Take_def wq_HasWork_def split: list.splits)

text \<open>The queue is first-in first-out: whatever sequence of calls is made on a new queue, the
  tasks taken are an initial part of the tasks added, in the order they were added, the rest is
  still in the queue, and \<open>HasWork\<close> tells whether there is a rest.\<close>

lemma work_queue_fifo:
  "case wq.queue_run cs WorkQueue_new [] of (taken, q) \<Rightarrow>
     taken @ wq_tasks q = wq.added cs \<and> (wq_HasWork q \<longleftrightarrow> taken \<noteq> wq.added cs)"
proof (cases "wq.queue_run cs WorkQueue_new ([] :: 'a list)")
  case (Pair taken q)
  from wq.run_new [OF this] show ?thesis by (simp add: Pair)
qed

end
