(* ===== verification/WorkerPool.thy ===== *)
theory WorkerPool
  imports WorkQueue
begin

text \<open>
  The class \<open>WorkerPool\<close> of \<open>src/WorkerPool.h\<close> as a machine: the worker threads, the
  threads that submit tasks and the thread that shuts the pool down, whose steps interleave in
  any order. A step is the evaluation of \<open>isAlive\<close>, a method of the work queue, the run of a
  task, or a statement of \<open>Shutdown\<close>.
\<close>

section \<open>State\<close>

text \<open>
  A worker in \<open>startThread\<close>: before the loop, at the test of the loop, in \<open>Take\<close> about to
  look at the queue, asleep on the condition variable, in a task, and done. A task is \<open>None\<close> if
  it is one of the empty functions \<open>Shutdown\<close> submits.
\<close>

datatype 'a worker = W_Start | W_Check | W_Take | W_Wait | W_Run "'a option" | W_Exit

text \<open>The thread in \<open>Shutdown\<close>: not called, in the first loop after \<open>i\<close> rounds, in the
  second loop after \<open>i\<close> rounds, returned.\<close>

datatype shutdown = S_Idle | S_Add nat | S_Join nat | S_Done

text \<open>\<open>wp_submitted\<close> and \<open>wp_started\<close> are no fields of the class: they record the tasks
  submitted and the tasks the workers have taken, in order.\<close>

record 'a worker_pool =
  wp_queue :: "'a option work_queue"
  wp_alive :: bool
  wp_threads :: "'a worker list"
  wp_shutdown :: shutdown
  wp_submitted :: "'a option list"
  wp_started :: "'a option list"

definition WorkerPool_new :: "nat \<Rightarrow> 'a worker_pool" where
  "WorkerPool_new n = \<lparr>wp_queue = WorkQueue_new, wp_alive = True,
     wp_threads = replicate n W_Start, wp_shutdown = S_Idle, wp_submitted = [], wp_started = []\<rparr>"

definition wp_Size :: "'a worker_pool \<Rightarrow> nat" where
  "wp_Size p = length (wp_threads p)"

definition wp_HasWork :: "'a worker_pool \<Rightarrow> bool" where
  "wp_HasWork p = wq_HasWork (wp_queue p)"

section \<open>Steps\<close>

text \<open>\<open>notify_one\<close> wakes a waiting worker, \<open>w\<close>, if there is one.\<close>

definition notify_one :: "nat \<Rightarrow> 'a worker list \<Rightarrow> 'a worker list option" where
  "notify_one w ws =
     (if list_all (\<lambda>x. case x of W_Wait \<Rightarrow> False | _ \<Rightarrow> True) ws then Some ws
      else if w < length ws then
        (case ws ! w of W_Wait \<Rightarrow> Some (ws[w := W_Take]) | _ \<Rightarrow> None)
      else None)"

text \<open>\<open>Submit\<close>, and the part of \<open>WorkQueue::Add\<close> that concerns the threads.\<close>

definition wp_Submit :: "nat \<Rightarrow> 'a option \<Rightarrow> 'a worker_pool \<Rightarrow> 'a worker_pool option" where
  "wp_Submit w task p =
     (case notify_one w (wp_threads p) of
        None \<Rightarrow> None
      | Some ws \<Rightarrow> Some (p\<lparr>wp_queue := wq_Add task (wp_queue p), wp_threads := ws,
                           wp_submitted := wp_submitted p @ [task]\<rparr>))"

text \<open>A step of worker \<open>w\<close> in \<open>startThread\<close>. The affinity of the thread is set before the
  loop; the result of that call is not looked at.\<close>

definition wp_work :: "nat \<Rightarrow> 'a worker_pool \<Rightarrow> 'a worker_pool option" where
  "wp_work w p =
     (if w < length (wp_threads p) then
        (case wp_threads p ! w of
           W_Start \<Rightarrow> Some (p\<lparr>wp_threads := (wp_threads p)[w := W_Check]\<rparr>)
         | W_Check \<Rightarrow>
             Some (p\<lparr>wp_threads := (wp_threads p)[w := if wp_alive p then W_Take else W_Exit]\<rparr>)
         | W_Take \<Rightarrow>
             (case wq_Take (wp_queue p) of
                None \<Rightarrow> Some (p\<lparr>wp_threads := (wp_threads p)[w := W_Wait]\<rparr>)
              | Some (task, q) \<Rightarrow>
                  Some (p\<lparr>wp_queue := q, wp_threads := (wp_threads p)[w := W_Run task],
                          wp_started := wp_started p @ [task]\<rparr>))
         | W_Wait \<Rightarrow> None
         | W_Run task \<Rightarrow> Some (p\<lparr>wp_threads := (wp_threads p)[w := W_Check]\<rparr>)
         | W_Exit \<Rightarrow> None)
      else None)"

text \<open>A step of the thread in \<open>Shutdown\<close>; \<open>w\<close> is the worker its \<open>Submit\<close> wakes. One thread
  calls it; when it is called again, as the destructor does, it finds \<open>isAlive\<close> false, returns
  at once and is no step. Two threads that read \<open>isAlive\<close> before either clears it, which would
  join the same threads, are not modelled.\<close>

definition wp_main :: "nat \<Rightarrow> 'a worker_pool \<Rightarrow> 'a worker_pool option" where
  "wp_main w p =
     (case wp_shutdown p of
        S_Idle \<Rightarrow> Some (p\<lparr>wp_alive := False, wp_shutdown := S_Add 0\<rparr>)
      | S_Add i \<Rightarrow>
          if i < length (wp_threads p) then
            (case wp_Submit w None p of
               None \<Rightarrow> None
             | Some p' \<Rightarrow> Some (p'\<lparr>wp_shutdown := S_Add (Suc i)\<rparr>))
          else Some (p\<lparr>wp_shutdown := S_Join 0\<rparr>)
      | S_Join i \<Rightarrow>
          if i < length (wp_threads p) then
            (case wp_threads p ! i of
               W_Exit \<Rightarrow> Some (p\<lparr>wp_shutdown := S_Join (Suc i)\<rparr>)
             | _ \<Rightarrow> None)
          else Some (p\<lparr>wp_shutdown := S_Done\<rparr>)
      | S_Done \<Rightarrow> None)"

text \<open>All actions. \<open>Wake w\<close> is a spurious wakeup.\<close>

datatype 'a wp_action = Submit nat 'a | Work nat | Wake nat | Main nat

fun wp_act :: "'a wp_action \<Rightarrow> 'a worker_pool \<Rightarrow> 'a worker_pool option" where
  "wp_act (Submit w t) p = wp_Submit w (Some t) p"
| "wp_act (Work w) p = wp_work w p"
| "wp_act (Wake w) p =
     (if w < length (wp_threads p) then
        (case wp_threads p ! w of
           W_Wait \<Rightarrow> Some (p\<lparr>wp_threads := (wp_threads p)[w := W_Take]\<rparr>)
         | _ \<Rightarrow> None)
      else None)"
| "wp_act (Main w) p = wp_main w p"

fun wp_exec :: "'a wp_action list \<Rightarrow> 'a worker_pool \<Rightarrow> 'a worker_pool option" where
  "wp_exec [] p = Some p"
| "wp_exec (a # as) p = (case wp_act a p of None \<Rightarrow> None | Some p' \<Rightarrow> wp_exec as p')"

inductive wp_reachable :: "nat \<Rightarrow> 'a worker_pool \<Rightarrow> bool" for n :: nat where
  wp_start: "wp_reachable n (WorkerPool_new n)"
| wp_step: "wp_reachable n p \<Longrightarrow> wp_act a p = Some p' \<Longrightarrow> wp_reachable n p'"

lemma wp_exec_reachable:
  "wp_reachable n p \<Longrightarrow> wp_exec as p = Some p' \<Longrightarrow> wp_reachable n p'"
  by (induction as arbitrary: p) (auto split: option.splits intro: wp_reachable.wp_step)

section \<open>The invariant\<close>

fun asleep :: "'a worker \<Rightarrow> bool" where
  "asleep W_Wait = True"
| "asleep _ = False"

text \<open>Workers that will not take another task once the pool is not alive.\<close>

fun past_take :: "'a worker \<Rightarrow> bool" where
  "past_take W_Take = False"
| "past_take W_Wait = False"
| "past_take _ = True"

text \<open>How many of its \<open>n\<close> empty tasks \<open>Shutdown\<close> has submitted.\<close>

fun posted :: "nat \<Rightarrow> shutdown \<Rightarrow> nat" where
  "posted n S_Idle = 0"
| "posted n (S_Add i) = i"
| "posted n _ = n"

fun joined :: "'a worker list \<Rightarrow> shutdown \<Rightarrow> bool" where
  "joined ws (S_Join i) \<longleftrightarrow> i \<le> length ws \<and> (\<forall>j < i. ws ! j = W_Exit)"
| "joined ws S_Done \<longleftrightarrow> (\<forall>j < length ws. ws ! j = W_Exit)"
| "joined ws _ \<longleftrightarrow> True"

definition count_if :: "('a worker \<Rightarrow> bool) \<Rightarrow> 'a worker list \<Rightarrow> nat" where
  "count_if P ws = length (filter P ws)"

definition wp_inv :: "nat \<Rightarrow> 'a worker_pool \<Rightarrow> bool" where
  "wp_inv n p \<longleftrightarrow> length (wp_threads p) = n \<and>
     wp_started p @ wq_tasks (wp_queue p) = wp_submitted p \<and>
     (wp_alive p \<longleftrightarrow> wp_shutdown p = S_Idle) \<and>
     (wp_alive p \<longrightarrow> W_Exit \<notin> set (wp_threads p)) \<and>
     joined (wp_threads p) (wp_shutdown p) \<and> posted n (wp_shutdown p) \<le> n \<and>
     posted n (wp_shutdown p) \<le> length (wq_tasks (wp_queue p)) + count_if past_take (wp_threads p) \<and>
     count_if asleep (wp_threads p) + posted n (wp_shutdown p) \<le> n"

lemma wp_inv_tasks: "wp_inv n p \<Longrightarrow> wp_submitted p = wp_started p @ wq_tasks (wp_queue p)"
  by (simp add: wp_inv_def)

lemma count_update:
  "w < length ws \<Longrightarrow> count_if P (ws[w := x]) + (if P (ws ! w) then 1 else 0) =
    count_if P ws + (if P x then 1 else 0)"
  unfolding count_if_def by (rule length_filter_update)

lemma count_le: "count_if P ws \<le> length ws"
  by (simp add: count_if_def)

lemma count_apart: "count_if past_take ws + count_if asleep ws \<le> length ws"
proof (induction ws)
  case (Cons x ws)
  then show ?case by (cases x) (simp_all add: count_if_def)
qed (simp add: count_if_def)

lemma count_pos: "w < length ws \<Longrightarrow> P (ws ! w) \<Longrightarrow> 0 < count_if P ws"
  by (auto simp: count_if_def length_greater_0_conv filter_empty_conv)

lemma not_past_take:
  assumes "w < length ws" "\<not> past_take (ws ! w)" "\<not> asleep (ws ! w)"
  shows "count_if past_take ws + count_if asleep ws < length ws"
proof -
  have "count_if past_take (ws[w := W_Check]) + count_if asleep (ws[w := W_Check]) \<le> length ws"
    using count_apart [of "ws[w := W_Check]"] by simp
  with count_update [OF assms(1), of past_take W_Check] count_update [OF assms(1), of asleep W_Check]
    assms(2,3) show ?thesis by simp
qed

lemma notify_cases:
  assumes "notify_one w ws = Some ws'"
  obtains (nobody) "ws' = ws" "count_if asleep ws = 0"
  | (woken) "w < length ws" "ws ! w = W_Wait" "ws' = ws[w := W_Take]"
proof (cases "list_all (\<lambda>x. case x of W_Wait \<Rightarrow> False | _ \<Rightarrow> True) ws")
  case True
  then have "\<not> asleep x" if "x \<in> set ws" for x
    using that by (cases x) (auto simp: list_all_iff split: worker.splits)
  then have "count_if asleep ws = 0" by (simp add: count_if_def filter_empty_conv)
  with True assms nobody show ?thesis by (simp add: notify_one_def)
next
  case False
  with assms woken show ?thesis
    by (auto simp: notify_one_def split: if_splits worker.splits)
qed

text \<open>Waking a worker, and what else changes a worker without touching the queue.\<close>

lemma joined_update:
  "joined ws sh \<Longrightarrow> w < length ws \<Longrightarrow> ws ! w \<noteq> W_Exit \<Longrightarrow> joined (ws[w := x]) sh"
  by (cases "(ws, sh)" rule: joined.cases) (auto simp: nth_list_update)

lemma exit_update:
  "W_Exit \<notin> set ws \<Longrightarrow> x \<noteq> W_Exit \<Longrightarrow> W_Exit \<notin> set (ws[w := x])"
  using set_update_subset_insert [of ws w x] by auto

lemma inv_thread:
  assumes inv: "wp_inv n p" and w: "w < length (wp_threads p)" "wp_threads p ! w \<noteq> W_Exit"
    and x: "x = W_Exit \<longrightarrow> \<not> wp_alive p" "past_take (wp_threads p ! w) \<longrightarrow> past_take x \<or> wp_alive p"
      "asleep x \<longrightarrow> asleep (wp_threads p ! w)"
  shows "wp_inv n (p\<lparr>wp_threads := (wp_threads p)[w := x]\<rparr>)"
proof -
  let ?ws = "wp_threads p"
  note past = count_update [OF w(1), of past_take x] and sleep = count_update [OF w(1), of asleep x]
  have "posted n (wp_shutdown p) = 0" if "wp_alive p"
    using inv that by (simp add: wp_inv_def)
  then have "posted n (wp_shutdown p) \<le>
      length (wq_tasks (wp_queue p)) + count_if past_take (?ws[w := x])"
    using inv past x(2) by (auto simp: wp_inv_def split: if_splits)
  moreover have "count_if asleep (?ws[w := x]) + posted n (wp_shutdown p) \<le> n"
    using inv sleep x(3) by (auto simp: wp_inv_def split: if_splits)
  moreover have "wp_alive p \<longrightarrow> W_Exit \<notin> set (?ws[w := x])"
    using inv x(1) exit_update by (auto simp: wp_inv_def)
  ultimately show ?thesis
    using inv joined_update [OF _ w] by (simp add: wp_inv_def)
qed

lemma inv_submit:
  assumes inv: "wp_inv n p" and sub: "wp_Submit w t p = Some p'"
  shows "wp_inv n p' \<and> wp_shutdown p' = wp_shutdown p \<and> wp_alive p' = wp_alive p \<and>
    length (wp_threads p') = length (wp_threads p) \<and>
    Suc (length (wq_tasks (wp_queue p))) = length (wq_tasks (wp_queue p')) \<and>
    count_if past_take (wp_threads p') = count_if past_take (wp_threads p) \<and>
    count_if asleep (wp_threads p') = count_if asleep (wp_threads p) - 1"
proof -
  from sub obtain ws where ws: "notify_one w (wp_threads p) = Some ws" and
    p': "p' = p\<lparr>wp_threads := ws\<rparr>\<lparr>wp_queue := wq_Add t (wp_queue p),
      wp_submitted := wp_submitted p @ [t]\<rparr>"
    by (auto simp: wp_Submit_def split: option.splits)
  have "wp_inv n (p\<lparr>wp_threads := ws\<rparr>) \<and> length ws = length (wp_threads p) \<and>
      count_if past_take ws = count_if past_take (wp_threads p) \<and>
      count_if asleep ws = count_if asleep (wp_threads p) - 1"
    using ws
  proof (cases rule: notify_cases)
    case nobody
    then show ?thesis using inv by simp
  next
    case woken
    note past = count_update [OF woken(1), of past_take W_Take]
      and sleep = count_update [OF woken(1), of asleep W_Take]
    have "wp_inv n (p\<lparr>wp_threads := ws\<rparr>)"
      unfolding woken(3) using inv_thread [OF inv woken(1), of W_Take] woken(2) by simp
    then show ?thesis using past sleep woken by simp
  qed
  then show ?thesis by (simp add: p' wp_inv_def wq_Add_def)
qed

lemma inv_new: "wp_inv n (WorkerPool_new n)"
  by (simp add: wp_inv_def WorkerPool_new_def WorkQueue_new_def count_if_def)

lemma inv_take:
  assumes inv: "wp_inv n p" and w: "w < length (wp_threads p)" "wp_threads p ! w = W_Take"
    and step: "wp_work w p = Some p'"
  shows "wp_inv n p'"
proof (cases "wq_tasks (wp_queue p)")
  case Nil
  then have p': "p' = p\<lparr>wp_threads := (wp_threads p)[w := W_Wait]\<rparr>"
    using step w by (simp add: wp_work_def wq_Take_def)
  have "count_if past_take (wp_threads p) + count_if asleep (wp_threads p) < length (wp_threads p)"
    using not_past_take [OF w(1)] w by simp
  then show ?thesis
    using inv Nil count_update [OF w(1), of past_take W_Wait]
      count_update [OF w(1), of asleep W_Wait] w joined_update [OF _ w(1)]
      exit_update [of "wp_threads p" W_Wait w]
    by (simp add: p' wp_inv_def)
next
  case (Cons t ts)
  then have p': "p' = p\<lparr>wp_queue := (wp_queue p)\<lparr>wq_tasks := ts\<rparr>,
      wp_threads := (wp_threads p)[w := W_Run t], wp_started := wp_started p @ [t]\<rparr>"
    using step w by (simp add: wp_work_def wq_Take_def)
  show ?thesis
    using inv Cons count_update [OF w(1), of past_take "W_Run t"]
      count_update [OF w(1), of asleep "W_Run t"] w joined_update [OF _ w(1)]
      exit_update [of "wp_threads p" "W_Run t" w]
    by (simp add: p' wp_inv_def)
qed

lemma inv_work:
  assumes inv: "wp_inv n p" and step: "wp_work w p = Some p'"
  shows "wp_inv n p'"
proof -
  have w: "w < length (wp_threads p)"
    using step by (auto simp: wp_work_def split: if_splits)
  note upd = inv_thread [OF inv w]
  show ?thesis
  proof (cases "wp_threads p ! w")
    case W_Take
    then show ?thesis by (rule inv_take [OF inv w _ step])
  next
    case W_Check
    then show ?thesis
      using step w upd [of W_Take] upd [of W_Exit] by (auto simp: wp_work_def split: if_splits)
  qed (use step w upd [of W_Check] in \<open>auto simp: wp_work_def\<close>)
qed

lemma inv_main:
  assumes inv: "wp_inv n p" and step: "wp_main w p = Some p'"
  shows "wp_inv n p'"
proof (cases "wp_shutdown p")
  case S_Idle
  then show ?thesis using inv step by (auto simp: wp_main_def wp_inv_def)
next
  case (S_Add i)
  show ?thesis
  proof (cases "i < length (wp_threads p)")
    case True
    then obtain q where q: "wp_Submit w None p = Some q" "p' = q\<lparr>wp_shutdown := S_Add (Suc i)\<rparr>"
      using step S_Add by (auto simp: wp_main_def split: option.splits)
    have "Suc (count_if asleep (wp_threads p) - 1 + i) \<le> n"
      using inv True S_Add by (auto simp: wp_inv_def)
    with inv_submit [OF inv q(1)] inv True S_Add show ?thesis
      unfolding q(2) wp_inv_def by simp
  next
    case False
    then show ?thesis using inv step S_Add by (auto simp: wp_main_def wp_inv_def)
  qed
next
  case (S_Join i)
  then show ?thesis
    using inv step
    by (auto simp: wp_main_def wp_inv_def less_Suc_eq split: if_splits worker.splits)
next
  case S_Done
  then show ?thesis using step by (simp add: wp_main_def)
qed

lemma inv_act:
  assumes inv: "wp_inv n p" and step: "wp_act a p = Some p'"
  shows "wp_inv n p'"
proof (cases a)
  case (Submit w t)
  then show ?thesis using inv_submit [OF inv] step by simp
next
  case (Work w)
  then show ?thesis using inv_work [OF inv] step by simp
next
  case (Wake w)
  then show ?thesis
    using step inv_thread [OF inv, of w W_Take] by (auto split: if_splits worker.splits)
next
  case (Main w)
  then show ?thesis using inv_main [OF inv] step by simp
qed

lemma inv_reachable: "wp_reachable n p \<Longrightarrow> wp_inv n p"
  by (induction rule: wp_reachable.induct) (simp_all add: inv_new inv_act)

end
