(* ===== verification/WorkerPool_Threads.thy ===== *)
theory WorkerPool_Threads
  imports WorkerPool
begin

text \<open>
  The worker pool by statement: \<open>WorkQueue::Add\<close> and \<open>WorkQueue::Take\<close> of \<open>src/WorkQueue.h\<close>
  lock and unlock the mutex and wait on the condition variable step by step, called by the
  workers, by \<open>Shutdown\<close> and by any number of clients. The machine of \<open>WorkerPool\<close>, in which
  each method is one step, simulates this one, so that what is proved of it holds here.
\<close>

section \<open>The statements\<close>

text \<open>A thread in \<open>Add\<close>: it wants the mutex, then pushes, notifies and gives the mutex back.\<close>

datatype 'a add_pc = Add_Out | Add_Lock 'a | Add_Push 'a | Add_Notify 'a | Add_Unlock

text \<open>A worker in \<open>startThread\<close>. In \<open>Take\<close> it wants the mutex, tests the queue, waits without
  the mutex, wants it again after a wakeup, reads the front, pops it and gives the mutex back.
  \<open>F_Undefined\<close> is where it is after it has read the front of an empty queue.\<close>

datatype 'a fworker =
    F_Start | F_Check | F_Lock | F_Test | F_Wait | F_Relock | F_Front
  | F_Pop "'a option" | F_Unlock "'a option" | F_Run "'a option" | F_Exit | F_Undefined

datatype thread_id = TWorker nat | TClient nat | TMain

record 'a fine_pool =
  f_queue :: "'a option work_queue"
  f_mutex :: "thread_id option"
  f_alive :: bool
  f_workers :: "'a fworker list"
  f_clients :: "'a option add_pc list"
  f_main :: shutdown
  f_main_add :: "'a option add_pc"
  f_submitted :: "'a option list"
  f_started :: "'a option list"

definition fine_new :: "nat \<Rightarrow> nat \<Rightarrow> 'a fine_pool" where
  "fine_new n clients = \<lparr>f_queue = WorkQueue_new, f_mutex = None, f_alive = True,
     f_workers = replicate n F_Start, f_clients = replicate clients Add_Out, f_main = S_Idle,
     f_main_add = Add_Out, f_submitted = [], f_started = []\<rparr>"

definition fine_notify :: "nat \<Rightarrow> 'a fworker list \<Rightarrow> 'a fworker list option" where
  "fine_notify w ws =
     (if F_Wait \<notin> set ws then Some ws
      else if w < length ws \<and> ws ! w = F_Wait then Some (ws[w := F_Relock])
      else None)"

text \<open>The next statement of \<open>Add\<close> in thread \<open>h\<close>, where \<open>w\<close> is the worker it wakes.\<close>

fun add_step ::
    "thread_id \<Rightarrow> nat \<Rightarrow> 'a option add_pc \<Rightarrow> 'a fine_pool \<Rightarrow> ('a option add_pc \<times> 'a fine_pool) option" where
  "add_step h w Add_Out s = None"
| "add_step h w (Add_Lock t) s =
     (if f_mutex s = None then Some (Add_Push t, s\<lparr>f_mutex := Some h\<rparr>) else None)"
| "add_step h w (Add_Push t) s = Some (Add_Notify t, s\<lparr>f_queue := wq_Add t (f_queue s)\<rparr>)"
| "add_step h w (Add_Notify t) s =
     map_option (\<lambda>ws. (Add_Unlock, s\<lparr>f_workers := ws, f_submitted := f_submitted s @ [t]\<rparr>))
       (fine_notify w (f_workers s))"
| "add_step h w Add_Unlock s = Some (Add_Out, s\<lparr>f_mutex := None\<rparr>)"

fun worker_step :: "nat \<Rightarrow> 'a fworker \<Rightarrow> 'a fine_pool \<Rightarrow> ('a fworker \<times> 'a fine_pool) option" where
  "worker_step w F_Start s = Some (F_Check, s)"
| "worker_step w F_Check s = Some (if f_alive s then F_Lock else F_Exit, s)"
| "worker_step w F_Lock s =
     (if f_mutex s = None then Some (F_Test, s\<lparr>f_mutex := Some (TWorker w)\<rparr>) else None)"
| "worker_step w F_Test s =
     Some (if wq_HasWork (f_queue s) then (F_Front, s) else (F_Wait, s\<lparr>f_mutex := None\<rparr>))"
| "worker_step w F_Wait s = None"
| "worker_step w F_Relock s =
     (if f_mutex s = None then Some (F_Test, s\<lparr>f_mutex := Some (TWorker w)\<rparr>) else None)"
| "worker_step w F_Front s =
     Some (case wq_Take (f_queue s) of None \<Rightarrow> F_Undefined | Some (task, _) \<Rightarrow> F_Pop task, s)"
| "worker_step w (F_Pop task) s =
     Some (case wq_Take (f_queue s) of
             None \<Rightarrow> (F_Undefined, s)
           | Some (_, q) \<Rightarrow> (F_Unlock task, s\<lparr>f_queue := q, f_started := f_started s @ [task]\<rparr>))"
| "worker_step w (F_Unlock task) s = Some (F_Run task, s\<lparr>f_mutex := None\<rparr>)"
| "worker_step w (F_Run task) s = Some (F_Check, s)"
| "worker_step w F_Exit s = None"
| "worker_step w F_Undefined s = None"

text \<open>The thread in \<open>Shutdown\<close>: a statement of \<open>Add\<close> if it is in it, else one of its own.\<close>

definition main_step :: "nat \<Rightarrow> 'a fine_pool \<Rightarrow> 'a fine_pool option" where
  "main_step w s =
     (case f_main_add s of
        Add_Out \<Rightarrow>
          (case f_main s of
             S_Idle \<Rightarrow> Some (s\<lparr>f_alive := False, f_main := S_Add 0\<rparr>)
           | S_Add i \<Rightarrow>
               Some (if i < length (f_workers s) then s\<lparr>f_main_add := Add_Lock None\<rparr>
                     else s\<lparr>f_main := S_Join 0\<rparr>)
           | S_Join i \<Rightarrow>
               if i < length (f_workers s) then
                 (if f_workers s ! i = F_Exit then Some (s\<lparr>f_main := S_Join (Suc i)\<rparr>) else None)
               else Some (s\<lparr>f_main := S_Done\<rparr>)
           | S_Done \<Rightarrow> None)
      | pc \<Rightarrow>
          (case add_step TMain w pc s of
             None \<Rightarrow> None
           | Some (pc', s') \<Rightarrow>
               Some (s'\<lparr>f_main_add := pc',
                 f_main := (case (pc, f_main s) of (Add_Unlock, S_Add i) \<Rightarrow> S_Add (Suc i) | (_, m) \<Rightarrow> m)\<rparr>)))"

datatype 'a fine_action = Call nat 'a | Client nat nat | Worker nat | Wakeup nat | Main_Step nat

fun fine_act :: "'a fine_action \<Rightarrow> 'a fine_pool \<Rightarrow> 'a fine_pool option" where
  "fine_act (Call c t) s =
     (if c < length (f_clients s) \<and> f_clients s ! c = Add_Out
      then Some (s\<lparr>f_clients := (f_clients s)[c := Add_Lock (Some t)]\<rparr>) else None)"
| "fine_act (Client c w) s =
     (if c < length (f_clients s) then
        map_option (\<lambda>(pc, s'). s'\<lparr>f_clients := (f_clients s)[c := pc]\<rparr>)
          (add_step (TClient c) w (f_clients s ! c) s)
      else None)"
| "fine_act (Worker w) s =
     (if w < length (f_workers s) then
        map_option (\<lambda>(pc, s'). s'\<lparr>f_workers := (f_workers s)[w := pc]\<rparr>)
          (worker_step w (f_workers s ! w) s)
      else None)"
| "fine_act (Wakeup w) s =
     (if w < length (f_workers s) \<and> f_workers s ! w = F_Wait
      then Some (s\<lparr>f_workers := (f_workers s)[w := F_Relock]\<rparr>) else None)"
| "fine_act (Main_Step w) s = main_step w s"

inductive fine_reachable :: "nat \<Rightarrow> nat \<Rightarrow> 'a fine_pool \<Rightarrow> bool" for n :: nat and clients :: nat where
  fine_begin: "fine_reachable n clients (fine_new n clients)"
| fine_do: "fine_reachable n clients s \<Longrightarrow> fine_act a s = Some s' \<Longrightarrow> fine_reachable n clients s'"

fun fine_exec :: "'a fine_action list \<Rightarrow> 'a fine_pool \<Rightarrow> 'a fine_pool option" where
  "fine_exec [] s = Some s"
| "fine_exec (a # as) s = (case fine_act a s of None \<Rightarrow> None | Some s' \<Rightarrow> fine_exec as s')"

lemma fine_exec_reachable:
  "fine_reachable n c s \<Longrightarrow> fine_exec as s = Some s' \<Longrightarrow> fine_reachable n c s'"
  by (induction as arbitrary: s) (auto split: option.splits intro: fine_reachable.fine_do)

section \<open>Who is in a critical section\<close>

fun add_inside :: "'a add_pc \<Rightarrow> bool" where
  "add_inside Add_Out = False"
| "add_inside (Add_Lock t) = False"
| "add_inside _ = True"

fun worker_inside :: "'a fworker \<Rightarrow> bool" where
  "worker_inside F_Test = True"
| "worker_inside F_Front = True"
| "worker_inside (F_Pop t) = True"
| "worker_inside (F_Unlock t) = True"
| "worker_inside _ = False"

text \<open>Where a thread is in \<open>Add\<close>, and the pool with that changed.\<close>

fun add_at :: "'a fine_pool \<Rightarrow> thread_id \<Rightarrow> 'a option add_pc" where
  "add_at s (TWorker w) = Add_Out"
| "add_at s (TClient c) = (if c < length (f_clients s) then f_clients s ! c else Add_Out)"
| "add_at s TMain = f_main_add s"

fun add_put :: "thread_id \<Rightarrow> 'a option add_pc \<Rightarrow> 'a fine_pool \<Rightarrow> 'a fine_pool" where
  "add_put (TWorker w) pc s = s"
| "add_put (TClient c) pc s = s\<lparr>f_clients := (f_clients s)[c := pc]\<rparr>"
| "add_put TMain pc s = s\<lparr>f_main_add := pc\<rparr>"

definition inside :: "'a fine_pool \<Rightarrow> thread_id \<Rightarrow> bool" where
  "inside s h \<longleftrightarrow> add_inside (add_at s h) \<or>
     (\<exists>w < length (f_workers s). h = TWorker w \<and> worker_inside (f_workers s ! w))"

lemma add_at_simps [simp]:
  "add_at (s\<lparr>f_queue := q\<rparr>) h = add_at s h" "add_at (s\<lparr>f_mutex := m\<rparr>) h = add_at s h"
  "add_at (s\<lparr>f_alive := a\<rparr>) h = add_at s h" "add_at (s\<lparr>f_main := i\<rparr>) h = add_at s h"
  "add_at (s\<lparr>f_submitted := l\<rparr>) h = add_at s h" "add_at (s\<lparr>f_started := l\<rparr>) h = add_at s h"
  "add_at (s\<lparr>f_workers := ws\<rparr>) h = add_at s h"
  by (cases h; simp)+

lemma add_put_fields [simp]:
  "f_queue (add_put h pc s) = f_queue s" "f_mutex (add_put h pc s) = f_mutex s"
  "f_alive (add_put h pc s) = f_alive s" "f_main (add_put h pc s) = f_main s"
  "f_submitted (add_put h pc s) = f_submitted s" "f_started (add_put h pc s) = f_started s"
  "f_workers (add_put h pc s) = f_workers s"
  by (cases h; simp)+

definition adder :: "'a fine_pool \<Rightarrow> thread_id \<Rightarrow> bool" where
  "adder s h \<longleftrightarrow> (case h of TWorker w \<Rightarrow> False | TClient c \<Rightarrow> c < length (f_clients s) | TMain \<Rightarrow> True)"

lemma adder_simps [simp]:
  "adder (s\<lparr>f_queue := q\<rparr>) h = adder s h" "adder (s\<lparr>f_mutex := m\<rparr>) h = adder s h"
  "adder (s\<lparr>f_submitted := l\<rparr>) h = adder s h" "adder (s\<lparr>f_workers := ws\<rparr>) h = adder s h"
  by (simp_all add: adder_def split: thread_id.splits)

lemma add_at_put: "adder s h \<Longrightarrow> add_at (add_put h pc s) g = (if g = h then pc else add_at s g)"
  by (cases h; cases g) (auto simp: adder_def nth_list_update)

lemma inside_put:
  assumes "adder s h"
  shows "inside (add_put h pc s) g \<longleftrightarrow> (if g = h then add_inside pc else inside s g)"
  unfolding inside_def add_at_put [OF assms] add_put_fields using assms by (auto simp: adder_def)

lemma inside_simps [simp]:
  "inside (s\<lparr>f_queue := q\<rparr>) h = inside s h" "inside (s\<lparr>f_mutex := m\<rparr>) h = inside s h"
  "inside (s\<lparr>f_alive := a\<rparr>) h = inside s h" "inside (s\<lparr>f_main := i\<rparr>) h = inside s h"
  "inside (s\<lparr>f_submitted := l\<rparr>) h = inside s h" "inside (s\<lparr>f_started := l\<rparr>) h = inside s h"
  by (simp_all add: inside_def)

lemma inside_worker:
  "w < length (f_workers s) \<Longrightarrow> inside (s\<lparr>f_workers := (f_workers s)[w := pc]\<rparr>) h \<longleftrightarrow>
     (if h = TWorker w then worker_inside pc else inside s h)"
  by (auto simp: inside_def nth_list_update)

section \<open>The simulation\<close>

fun abs_worker :: "'a fworker \<Rightarrow> 'a worker" where
  "abs_worker F_Start = W_Start"
| "abs_worker F_Check = W_Check"
| "abs_worker F_Wait = W_Wait"
| "abs_worker (F_Unlock t) = W_Run t"
| "abs_worker (F_Run t) = W_Run t"
| "abs_worker F_Exit = W_Exit"
| "abs_worker F_Undefined = W_Exit"
| "abs_worker _ = W_Take"

text \<open>A round of the first loop of \<open>Shutdown\<close> counts from its notification on.\<close>

fun abs_main :: "shutdown \<Rightarrow> 'a add_pc \<Rightarrow> shutdown" where
  "abs_main (S_Add i) Add_Unlock = S_Add (Suc i)"
| "abs_main m pc = m"

text \<open>The queue holds the tasks submitted and not taken: a task counts as submitted when its
  \<open>Add\<close> notifies, and as taken when it is popped.\<close>

definition fine_abs :: "'a fine_pool \<Rightarrow> 'a worker_pool" where
  "fine_abs s = \<lparr>wp_queue = \<lparr>wq_tasks = drop (length (f_started s)) (f_submitted s)\<rparr>,
     wp_alive = f_alive s, wp_threads = map abs_worker (f_workers s),
     wp_shutdown = abs_main (f_main s) (f_main_add s),
     wp_submitted = f_submitted s, wp_started = f_started s\<rparr>"

text \<open>The task that a thread has pushed and not notified of.\<close>

fun pushed_by :: "'a add_pc \<Rightarrow> 'a list" where
  "pushed_by (Add_Notify t) = [t]"
| "pushed_by _ = []"

definition pushed :: "'a fine_pool \<Rightarrow> 'a option list" where
  "pushed s = (case f_mutex s of None \<Rightarrow> [] | Some h \<Rightarrow> pushed_by (add_at s h))"

fun worker_ok :: "'a option list \<Rightarrow> 'a fworker \<Rightarrow> bool" where
  "worker_ok ts F_Front \<longleftrightarrow> ts \<noteq> []"
| "worker_ok ts (F_Pop t) \<longleftrightarrow> (\<exists>us. ts = t # us)"
| "worker_ok ts F_Undefined \<longleftrightarrow> False"
| "worker_ok ts pc \<longleftrightarrow> True"

fun carries :: "('a \<Rightarrow> bool) \<Rightarrow> 'a add_pc \<Rightarrow> bool" where
  "carries P (Add_Lock t) \<longleftrightarrow> P t"
| "carries P (Add_Push t) \<longleftrightarrow> P t"
| "carries P (Add_Notify t) \<longleftrightarrow> P t"
| "carries P pc \<longleftrightarrow> True"

definition mutex_inv :: "'a fine_pool \<Rightarrow> bool" where
  "mutex_inv s \<longleftrightarrow> (\<forall>h. inside s h \<longleftrightarrow> f_mutex s = Some h) \<and>
     f_started s @ wq_tasks (f_queue s) = f_submitted s @ pushed s \<and>
     length (f_started s) \<le> length (f_submitted s) \<and>
     (\<forall>w < length (f_workers s). worker_ok (wq_tasks (f_queue s)) (f_workers s ! w))"

definition fine_inv :: "'a fine_pool \<Rightarrow> bool" where
  "fine_inv s \<longleftrightarrow> mutex_inv s \<and>
     (\<forall>pc \<in> set (f_clients s). carries (\<lambda>t. t \<noteq> None) pc) \<and> carries (\<lambda>t. t = None) (f_main_add s) \<and>
     (f_main_add s \<noteq> Add_Out \<longrightarrow> (\<exists>i < length (f_workers s). f_main s = S_Add i))"

lemma pushed_simps [simp]:
  "pushed (s\<lparr>f_main := i\<rparr>) = pushed s" "pushed (s\<lparr>f_alive := a\<rparr>) = pushed s"
  by (simp_all add: pushed_def split: option.splits)

lemma mutex_inv_simps [simp]:
  "mutex_inv (s\<lparr>f_main := i\<rparr>) = mutex_inv s" "mutex_inv (s\<lparr>f_alive := a\<rparr>) = mutex_inv s"
  by (simp_all add: mutex_inv_def)

lemma mutex_inv_facts:
  assumes "mutex_inv s"
  shows "inside s h \<longleftrightarrow> f_mutex s = Some h"
    "f_started s @ wq_tasks (f_queue s) = f_submitted s @ pushed s"
    "length (f_started s) \<le> length (f_submitted s)"
    "w < length (f_workers s) \<Longrightarrow> worker_ok (wq_tasks (f_queue s)) (f_workers s ! w)"
  using assms by (simp_all add: mutex_inv_def)

lemma add_at_new [simp]: "add_at (fine_new n c) h = Add_Out"
  by (cases h) (simp_all add: fine_new_def)

lemma fine_inv_new: "fine_inv (fine_new n c)"
proof -
  have "\<not> inside (fine_new n c :: 'a fine_pool) h" for h
    unfolding inside_def add_at_new by (simp add: fine_new_def)
  then have "mutex_inv (fine_new n c :: 'a fine_pool)"
    unfolding mutex_inv_def pushed_def by (simp add: fine_new_def WorkQueue_new_def)
  then show ?thesis by (simp add: fine_inv_def) (simp add: fine_new_def)
qed

lemma fine_abs_new: "fine_abs (fine_new n c) = WorkerPool_new n"
  by (simp add: fine_abs_def fine_new_def WorkerPool_new_def WorkQueue_new_def)

lemma abs_worker_wait [simp]: "abs_worker pc = W_Wait \<longleftrightarrow> pc = F_Wait"
  by (cases pc) simp_all

lemma abs_notify:
  assumes "fine_notify w ws = Some ws'"
  shows "notify_one w (map abs_worker ws) = Some (map abs_worker ws')"
proof -
  have "list_all (\<lambda>x. case x of W_Wait \<Rightarrow> False | _ \<Rightarrow> True) (map abs_worker ws) \<longleftrightarrow> F_Wait \<notin> set ws"
  proof (induction ws)
    case (Cons pc ws)
    then show ?case by (cases pc) simp_all
  qed simp
  with assms show ?thesis
    by (auto simp: fine_notify_def notify_one_def map_update split: if_splits)
qed

lemma notify_others:
  assumes "fine_notify w ws = Some ws'"
  shows "length ws' = length ws" "\<forall>v < length ws. worker_inside (ws' ! v) = worker_inside (ws ! v)"
    "\<forall>pc \<in> set ws'. pc \<in> set ws \<or> pc = F_Relock"
  using assms set_update_subset_insert [of ws w F_Relock]
  by (auto simp: fine_notify_def nth_list_update split: if_splits)

section \<open>A statement of \<open>Add\<close>\<close>

lemma nobody: "mutex_inv s \<Longrightarrow> f_mutex s = None \<Longrightarrow> pushed s = [] \<and> (\<forall>h. \<not> inside s h)"
  by (simp add: mutex_inv_def pushed_def)

lemma holder_pushed:
  assumes "mutex_inv s" "add_inside (add_at s h)"
  shows "f_mutex s = Some h" "pushed s = pushed_by (add_at s h)"
proof -
  have "inside s h" using assms(2) by (simp add: inside_def)
  then show "f_mutex s = Some h" using mutex_inv_facts(1) [OF assms(1)] by blast
  then show "pushed s = pushed_by (add_at s h)" by (simp add: pushed_def)
qed

text \<open>Statements that touch nothing but the mutex and the place of the thread.\<close>

lemma add_move:
  assumes inv: "mutex_inv s" and h: "adder s h" and pc: "pushed_by pc = pushed_by (add_at s h)"
    and m: "m = (if add_inside pc then Some h else if add_inside (add_at s h) then None else f_mutex s)"
    and free: "add_inside pc \<Longrightarrow> f_mutex s = None \<or> f_mutex s = Some h"
    and out: "\<not> add_inside (add_at s h) \<or> \<not> add_inside pc \<Longrightarrow> pushed_by pc = []"
  shows "mutex_inv (add_put h pc (s\<lparr>f_mutex := m\<rparr>))"
proof -
  let ?s = "add_put h pc (s\<lparr>f_mutex := m\<rparr>)"
  have in_h: "inside s h \<longleftrightarrow> add_inside (add_at s h)"
    using h by (auto simp: inside_def adder_def)
  have ins: "inside ?s g \<longleftrightarrow> f_mutex ?s = Some g" for g
    using mutex_inv_facts(1) [OF inv, of g] mutex_inv_facts(1) [OF inv, of h] in_h free
    by (auto simp: inside_put h m)
  have "pushed ?s = pushed s"
  proof (cases "f_mutex s = Some h \<or> add_inside pc")
    case True
    then show ?thesis
      using free out pc mutex_inv_facts(1) [OF inv, of h] in_h
      by (auto simp: pushed_def m add_at_put h)
  next
    case False
    then show ?thesis
      using mutex_inv_facts(1) [OF inv, of h] in_h
      by (auto simp: pushed_def m add_at_put h split: option.splits)
  qed
  with ins inv show ?thesis by (simp add: mutex_inv_def)
qed

lemma add_push:
  assumes inv: "mutex_inv s" and h: "adder s h" and Add_Push: "add_at s h = Add_Push t"
    and step: "add_step h w (add_at s h) s = Some (pc, s')"
  shows "mutex_inv (add_put h pc s')"
proof -
  from step Add_Push have s': "pc = Add_Notify t" "s' = s\<lparr>f_queue := wq_Add t (f_queue s)\<rparr>" by simp_all
  have hold: "f_mutex s = Some h" "pushed s = []"
    using holder_pushed [OF inv, of h] by (simp_all add: Add_Push)
  have "worker_ok (wq_tasks (f_queue s) @ [t]) (f_workers s ! v)" if "v < length (f_workers s)" for v
    using mutex_inv_facts(4) [OF inv that] by (cases "f_workers s ! v") auto
  moreover have "inside (add_put h pc s') g \<longleftrightarrow> f_mutex s = Some g" for g
    using mutex_inv_facts(1) [OF inv, of g] s' hold(1) by (auto simp: inside_put h)
  moreover have "pushed (add_put h pc s') = [t]"
    using s' hold(1) by (simp add: pushed_def add_at_put h)
  ultimately show ?thesis
    using inv hold(2) s' by (simp add: mutex_inv_def wq_Add_def)
qed

lemma add_notify:
  assumes inv: "mutex_inv s" and h: "adder s h" and Add_Notify: "add_at s h = Add_Notify t"
    and step: "add_step h w (add_at s h) s = Some (pc, s')"
  shows "mutex_inv (add_put h pc s')"
proof -
  from step Add_Notify obtain ws where ws: "fine_notify w (f_workers s) = Some ws" "pc = Add_Unlock"
    "s' = s\<lparr>f_workers := ws, f_submitted := f_submitted s @ [t]\<rparr>"
    by auto
  note others = notify_others [OF ws(1)]
  have hold: "f_mutex s = Some h" "pushed s = [t]"
    using holder_pushed [OF inv, of h] by (simp_all add: Add_Notify)
  have "worker_ok (wq_tasks (f_queue s)) (ws ! v)" if "v < length ws" for v
    using others(3) mutex_inv_facts(4) [OF inv] nth_mem [OF that] that
    by (metis in_set_conv_nth worker_ok.simps(9))
  moreover have "inside (add_put h pc s') g \<longleftrightarrow> f_mutex s = Some g" for g
  proof -
    have "inside s' g \<longleftrightarrow> inside s g" using others(1,2) by (auto simp: ws(3) inside_def)
    moreover have "adder s' h" using h by (simp add: ws(3))
    ultimately show ?thesis
      using mutex_inv_facts(1) [OF inv, of g] hold(1) by (auto simp: inside_put ws(2))
  qed
  moreover have "pushed (add_put h pc s') = []"
    using ws hold(1) by (simp add: pushed_def add_at_put h)
  moreover have "length (f_started s) \<le> length (f_submitted s)"
    by (rule mutex_inv_facts(3) [OF inv])
  ultimately show ?thesis
    using inv hold(2) ws by (simp add: mutex_inv_def)
qed

lemma add_inv:
  assumes inv: "mutex_inv s" and h: "adder s h"
    and step: "add_step h w (add_at s h) s = Some (pc, s')"
  shows "mutex_inv (add_put h pc s') \<and>
    (if \<exists>t. add_at s h = Add_Notify t
     then \<exists>t ws. add_at s h = Add_Notify t \<and> pc = Add_Unlock \<and> fine_notify w (f_workers s) = Some ws \<and>
       s' = s\<lparr>f_workers := ws, f_submitted := f_submitted s @ [t]\<rparr>
     else pc \<noteq> Add_Unlock \<and> f_workers s' = f_workers s \<and> f_submitted s' = f_submitted s) \<and>
    f_started s' = f_started s \<and> f_alive s' = f_alive s \<and> f_main s' = f_main s \<and>
    f_clients s' = f_clients s \<and> f_main_add s' = f_main_add s"
proof (cases "add_at s h")
  case Add_Out
  with step show ?thesis by simp
next
  case (Add_Lock t)
  with step have s': "f_mutex s = None" "pc = Add_Push t" "s' = s\<lparr>f_mutex := Some h\<rparr>"
    by (auto split: if_splits)
  show ?thesis
    using add_move [OF inv h, of pc "Some h"] s' by (simp add: Add_Lock)
next
  case (Add_Push t)
  with step add_push [OF inv h Add_Push step] show ?thesis by auto
next
  case (Add_Notify t)
  with step add_notify [OF inv h Add_Notify step] show ?thesis by auto
next
  case Add_Unlock
  with step have s': "pc = Add_Out" "s' = s\<lparr>f_mutex := None\<rparr>" by simp_all
  show ?thesis
    using add_move [OF inv h, of pc None] s' by (simp add: Add_Unlock)
qed

section \<open>A statement of a worker\<close>

text \<open>A worker that moves on may enter the mutex if it is free, or leave it.\<close>

lemma worker_inside_mutex:
  assumes "mutex_inv s" "w < length (f_workers s)"
  shows "worker_inside (f_workers s ! w) \<longleftrightarrow> f_mutex s = Some (TWorker w)"
  using mutex_inv_facts(1) [OF assms(1), of "TWorker w"] assms(2) by (simp add: inside_def)

lemma worker_move:
  assumes inv: "mutex_inv s" and w: "w < length (f_workers s)"
    and m: "m = (if worker_inside pc then Some (TWorker w)
      else if worker_inside (f_workers s ! w) then None else f_mutex s)"
    and free: "worker_inside pc \<Longrightarrow> f_mutex s = None \<or> f_mutex s = Some (TWorker w)"
    and pc: "worker_ok (wq_tasks (f_queue s)) pc"
  shows "mutex_inv (s\<lparr>f_mutex := m, f_workers := (f_workers s)[w := pc]\<rparr>)"
proof -
  let ?ts = "wq_tasks (f_queue s)" and ?pc = "f_workers s ! w"
  note in_w = worker_inside_mutex [OF inv w]
  have "inside (s\<lparr>f_workers := (f_workers s)[w := pc]\<rparr>) h \<longleftrightarrow> m = Some h" for h
    using mutex_inv_facts(1) [OF inv, of h] in_w free w
    by (auto simp: inside_worker m)
  moreover have "pushed (s\<lparr>f_mutex := m, f_workers := (f_workers s)[w := pc]\<rparr>) = pushed s"
  proof (cases "f_mutex s")
    case None
    then show ?thesis using m in_w by (auto simp: pushed_def)
  next
    case (Some h)
    then show ?thesis
      using m free in_w by (auto simp: pushed_def)
  qed
  moreover have "worker_ok ?ts ((f_workers s)[w := pc] ! v)" if "v < length (f_workers s)" for v
    using mutex_inv_facts(4) [OF inv that] pc that by (cases "v = w") simp_all
  moreover have "inside (s\<lparr>f_mutex := m, f_workers := ws\<rparr>) h = inside (s\<lparr>f_workers := ws\<rparr>) h" for ws h
    by (simp add: inside_def)
  ultimately show ?thesis using inv by (simp add: mutex_inv_def)
qed

lemma worker_pop:
  assumes inv: "mutex_inv s" and w: "w < length (f_workers s)" and F_Pop: "f_workers s ! w = F_Pop t"
    and step: "worker_step w (f_workers s ! w) s = Some (pc, s')"
  shows "mutex_inv (s'\<lparr>f_workers := (f_workers s)[w := pc]\<rparr>) \<and>
    f_clients s' = f_clients s \<and> f_main_add s' = f_main_add s \<and> f_main s' = f_main s"
proof -
  let ?ts = "wq_tasks (f_queue s)"
  have hold': "f_mutex s = Some (TWorker w)" "pushed s = []"
    using worker_inside_mutex [OF inv w] F_Pop by (simp_all add: pushed_def)
  obtain us where ts: "?ts = t # us"
    using mutex_inv_facts(4) [OF inv w] F_Pop by auto
  then have s': "pc = F_Unlock t"
    "s' = s\<lparr>f_queue := (f_queue s)\<lparr>wq_tasks := us\<rparr>, f_started := f_started s @ [t]\<rparr>"
    using step F_Pop by (simp_all add: wq_Take_def)
  let ?s = "s'\<lparr>f_workers := (f_workers s)[w := pc]\<rparr>"
  have q: "f_started s @ t # us = f_submitted s"
    using mutex_inv_facts(2) [OF inv] ts hold'(2) by simp
  have "length (f_started s @ [t]) \<le> length (f_submitted s)" by (simp add: q [symmetric])
  moreover have "inside ?s h \<longleftrightarrow> f_mutex s = Some h" for h
  proof -
    have "inside ?s h = inside (s\<lparr>f_workers := (f_workers s)[w := pc]\<rparr>) h" by (simp add: inside_def s'(2))
    then show ?thesis
      using mutex_inv_facts(1) [OF inv, of h] hold'(1) w s'(1) by (auto simp: inside_worker)
  qed
  moreover have "worker_ok us ((f_workers s)[w := pc] ! v)" if v: "v < length (f_workers s)" for v
  proof (cases "v = w")
    case False
    have "\<not> worker_inside (f_workers s ! v)"
      using mutex_inv_facts(1) [OF inv, of "TWorker v"] hold'(1) v False by (auto simp: inside_def)
    with mutex_inv_facts(4) [OF inv v] False show ?thesis by (cases "f_workers s ! v") simp_all
  qed (use v s'(1) in simp)
  ultimately have "mutex_inv ?s"
    using hold' q s' by (simp add: mutex_inv_def pushed_def)
  then show ?thesis using s' by simp
qed

lemma worker_inv:
  assumes inv: "mutex_inv s" and w: "w < length (f_workers s)"
    and step: "worker_step w (f_workers s ! w) s = Some (pc, s')"
  shows "mutex_inv (s'\<lparr>f_workers := (f_workers s)[w := pc]\<rparr>) \<and>
    f_clients s' = f_clients s \<and> f_main_add s' = f_main_add s \<and> f_main s' = f_main s"
proof -
  let ?ts = "wq_tasks (f_queue s)" and ?pc = "f_workers s ! w"
  have ok: "worker_ok ?ts ?pc" by (rule mutex_inv_facts(4) [OF inv w])
  have hold: "f_mutex s = Some (TWorker w)" if "worker_inside ?pc"
    using that worker_inside_mutex [OF inv w] by simp
  have move: ?thesis if "s' = s\<lparr>f_mutex := m\<rparr>"
      "m = (if worker_inside pc then Some (TWorker w) else if worker_inside ?pc then None else f_mutex s)"
      "worker_inside pc \<Longrightarrow> f_mutex s = None \<or> f_mutex s = Some (TWorker w)" "worker_ok ?ts pc" for m
    using worker_move [OF inv w that(2-4)] that(1) by simp
  show ?thesis
  proof (cases ?pc)
    case (F_Pop t)
    with worker_pop [OF inv w _ step] show ?thesis by blast
  next
    case F_Start
    with step move [of "f_mutex s"] show ?thesis by simp
  next
    case F_Check
    with step move [of "f_mutex s"] show ?thesis by (simp split: if_splits)
  next
    case F_Lock
    with step move [of "Some (TWorker w)"] show ?thesis by (auto split: if_splits)
  next
    case F_Test
    with step move [of None] move [of "f_mutex s"] hold show ?thesis
      by (auto simp add: wq_HasWork_def split: if_splits)
  next
    case F_Relock
    with step move [of "Some (TWorker w)"] show ?thesis by (auto split: if_splits)
  next
    case F_Front
    with step ok obtain t us where "?ts = t # us" "pc = F_Pop t" "s' = s"
      by (cases ?ts) (simp_all add: wq_Take_def)
    with F_Front move [of "f_mutex s"] hold show ?thesis by simp
  next
    case (F_Unlock t)
    with step move [of None] show ?thesis by auto
  next
    case (F_Run t)
    with step move [of "f_mutex s"] show ?thesis by simp
  qed (use step in simp_all)
qed

section \<open>Every statement is a step of the pool or none\<close>

text \<open>The tasks of the abstract queue, when nobody has pushed and not notified.\<close>

lemma abs_tasks:
  assumes "mutex_inv s" "pushed s = []"
  shows "drop (length (f_started s)) (f_submitted s) = wq_tasks (f_queue s)"
proof -
  have "f_submitted s = f_started s @ wq_tasks (f_queue s)"
    using mutex_inv_facts(2) [OF assms(1)] assms(2) by simp
  then show ?thesis by simp
qed

lemma abs_work:
  assumes inv: "mutex_inv s" and w: "w < length (f_workers s)"
    and step: "worker_step w (f_workers s ! w) s = Some (pc, s')"
  defines "s2 \<equiv> s'\<lparr>f_workers := (f_workers s)[w := pc]\<rparr>"
  shows "fine_abs s2 = fine_abs s \<or> wp_work w (fine_abs s) = Some (fine_abs s2)"
proof -
  let ?pc = "f_workers s ! w"
  have ok: "worker_ok (wq_tasks (f_queue s)) ?pc" by (rule mutex_inv_facts(4) [OF inv w])
  have free: "pushed s = []" if "worker_inside ?pc"
  proof -
    have "inside s (TWorker w)" using that w by (auto simp: inside_def)
    then have "f_mutex s = Some (TWorker w)" using mutex_inv_facts(1) [OF inv] by blast
    then show ?thesis by (simp add: pushed_def)
  qed
  have same: "(map abs_worker (f_workers s))[w := abs_worker pc] = map abs_worker (f_workers s)"
    if "abs_worker pc = abs_worker ?pc"
    using that w by (simp add: list_update_same_conv)
  show ?thesis
  proof (cases ?pc)
    case F_Start
    then show ?thesis using step w by (auto simp: s2_def wp_work_def fine_abs_def map_update)
  next
    case F_Check
    then show ?thesis using step w by (auto simp: s2_def wp_work_def fine_abs_def map_update)
  next
    case F_Lock
    then show ?thesis using step same by (auto simp: s2_def fine_abs_def map_update split: if_splits)
  next
    case F_Test
    show ?thesis
    proof (cases "wq_tasks (f_queue s)")
      case Nil
      with F_Test abs_tasks [OF inv free] step w show ?thesis
        by (auto simp: s2_def wp_work_def fine_abs_def map_update wq_HasWork_def wq_Take_def)
    next
      case (Cons t us)
      with F_Test step same show ?thesis
        by (auto simp: s2_def fine_abs_def map_update wq_HasWork_def)
    qed
  next
    case F_Relock
    then show ?thesis using step same by (auto simp: s2_def fine_abs_def map_update split: if_splits)
  next
    case F_Front
    with step ok same show ?thesis
      by (auto simp: s2_def fine_abs_def map_update wq_Take_def neq_Nil_conv)
  next
    case (F_Pop t)
    then obtain us where ts: "wq_tasks (f_queue s) = t # us" using ok by auto
    with F_Pop abs_tasks [OF inv free] have d: "drop (length (f_started s)) (f_submitted s) = t # us" by simp
    then have "drop (Suc (length (f_started s))) (f_submitted s) = us"
      by (simp add: drop_Suc tl_drop [symmetric])
    with F_Pop ts d step w show ?thesis
      by (auto simp: s2_def wp_work_def fine_abs_def map_update wq_Take_def)
  next
    case (F_Unlock t)
    with step same show ?thesis by (auto simp: s2_def fine_abs_def map_update)
  next
    case (F_Run t)
    then show ?thesis using step w by (auto simp: s2_def wp_work_def fine_abs_def map_update)
  qed (use step in simp_all)
qed

text \<open>A statement of \<open>Add\<close>: its notification is the abstract \<open>Submit\<close>.\<close>

lemma abs_submit:
  assumes inv: "mutex_inv s" and ws: "fine_notify w (f_workers s) = Some ws"
    and pushed: "pushed s = [t]"
  shows "wp_Submit w t (fine_abs s) = Some ((fine_abs s)
    \<lparr>wp_queue := \<lparr>wq_tasks = drop (length (f_started s)) (f_submitted s @ [t])\<rparr>,
      wp_threads := map abs_worker ws, wp_submitted := f_submitted s @ [t]\<rparr>)"
  using abs_notify [OF ws] mutex_inv_facts(3) [OF inv]
  by (simp add: wp_Submit_def fine_abs_def wq_Add_def)

lemma carries_step:
  "add_step h w pc s = Some (pc', s') \<Longrightarrow> carries P pc \<Longrightarrow> carries P pc'"
  by (cases pc) (auto split: if_splits)

lemma abs_client: "fine_abs (add_put (TClient c) pc s) = fine_abs s"
  by (simp add: fine_abs_def)

lemma client_sim:
  assumes inv: "fine_inv s" and c: "c < length (f_clients s)"
    and step: "add_step (TClient c) w (f_clients s ! c) s = Some (pc, s')"
  defines "s2 \<equiv> s'\<lparr>f_clients := (f_clients s)[c := pc]\<rparr>"
  shows "fine_inv s2 \<and> (fine_abs s2 = fine_abs s \<or> (\<exists>b. wp_act b (fine_abs s) = Some (fine_abs s2)))"
proof -
  have m: "mutex_inv s" and carry: "carries (\<lambda>t. t \<noteq> None) (f_clients s ! c)"
    using inv c by (simp_all add: fine_inv_def)
  have h: "adder s (TClient c)" "add_at s (TClient c) = f_clients s ! c"
    using c by (simp_all add: adder_def)
  note add = add_inv [OF m h(1), unfolded h(2), OF step]
  then have s2: "s2 = add_put (TClient c) pc s'" by (simp add: s2_def)
  have len: "length (f_workers s') = length (f_workers s)"
    using add notify_others(1) by (auto split: if_splits)
  have "set (f_clients s2) \<subseteq> insert pc (set (f_clients s))"
    by (simp add: s2_def set_update_subset_insert)
  then have "fine_inv s2"
    using inv add carries_step [OF step carry] len unfolding s2
    by (auto simp: fine_inv_def)
  moreover have "fine_abs s' = fine_abs s \<or> (\<exists>b. wp_act b (fine_abs s) = Some (fine_abs s'))"
  proof (cases "\<exists>t. f_clients s ! c = Add_Notify t")
    case True
    then obtain t ws where t: "f_clients s ! c = Add_Notify t" "fine_notify w (f_workers s) = Some ws"
      "s' = s\<lparr>f_workers := ws, f_submitted := f_submitted s @ [t]\<rparr>" using add by auto
    then obtain u where u: "t = Some u" using carry by auto
    have "pushed s = [t]" using holder_pushed(2) [OF m, of "TClient c"] h(2) t(1) by simp
    from abs_submit [OF m t(2) this] have "wp_act (Submit w u) (fine_abs s) = Some (fine_abs s')"
      by (simp add: u fine_abs_def t(3))
    then show ?thesis by blast
  next
    case False
    with add show ?thesis by (simp add: fine_abs_def)
  qed
  ultimately show ?thesis by (simp only: s2 abs_client)
qed

lemma worker_sim:
  assumes inv: "fine_inv s" and w: "w < length (f_workers s)"
    and step: "worker_step w (f_workers s ! w) s = Some (pc, s')"
  defines "s2 \<equiv> s'\<lparr>f_workers := (f_workers s)[w := pc]\<rparr>"
  shows "fine_inv s2 \<and> (fine_abs s2 = fine_abs s \<or> (\<exists>b. wp_act b (fine_abs s) = Some (fine_abs s2)))"
proof -
  have m: "mutex_inv s" using inv by (simp add: fine_inv_def)
  have "fine_inv s2" using inv worker_inv [OF m w step] by (simp add: fine_inv_def s2_def)
  moreover have "fine_abs s2 = fine_abs s \<or> wp_act (Work w) (fine_abs s) = Some (fine_abs s2)"
    using abs_work [OF m w step] by (simp add: s2_def)
  ultimately show ?thesis by blast
qed

lemma main_sim:
  assumes inv: "fine_inv s" and step: "main_step w s = Some s'"
  shows "fine_inv s' \<and> (fine_abs s' = fine_abs s \<or> (\<exists>b. wp_act b (fine_abs s) = Some (fine_abs s')))"
proof (cases "f_main_add s = Add_Out")
  case True
  have m: "mutex_inv s" using inv by (simp add: fine_inv_def)
  have h: "adder s TMain" by (simp add: adder_def)
  have lock: "mutex_inv (s\<lparr>f_main_add := Add_Lock None\<rparr>)"
    using add_move [OF m h, of "Add_Lock None" "f_mutex s"] True by simp
  have exit: "abs_worker (f_workers s ! i) = W_Exit" if "f_workers s ! i = F_Exit" for i
    using that by simp
  show ?thesis
    using step True inv lock
    by (auto simp: main_step_def fine_inv_def fine_abs_def wp_main_def exit
        intro!: exI [of _ "Main w"] split: shutdown.splits if_splits)
next
  case False
  with inv obtain i where i: "f_main s = S_Add i" "i < length (f_workers s)" by (auto simp: fine_inv_def)
  have m: "mutex_inv s" and carry: "carries (\<lambda>t. t = None) (f_main_add s)" using inv by (simp_all add: fine_inv_def)
  have h: "adder s TMain" "add_at s TMain = f_main_add s" by (simp_all add: adder_def)
  obtain pc s1 where s1: "add_step TMain w (f_main_add s) s = Some (pc, s1)"
    "s' = s1\<lparr>f_main_add := pc, f_main := (case (f_main_add s, f_main s) of (Add_Unlock, S_Add i) \<Rightarrow> S_Add (Suc i) | (_, m) \<Rightarrow> m)\<rparr>"
    using step False by (auto simp: main_step_def split: add_pc.splits option.splits prod.splits)
  note add = add_inv [OF m h(1), unfolded h(2), OF s1(1)]
  have len: "length (f_workers s1) = length (f_workers s)"
    using add notify_others(1) by (auto split: if_splits)
  have "mutex_inv (s1\<lparr>f_main_add := pc\<rparr>)" using add by simp
  then have "mutex_inv s'" by (simp add: s1(2))
  moreover have "pc = Add_Out" if "f_main_add s = Add_Unlock" using s1(1) that by simp
  ultimately have "fine_inv s'"
    using inv add carries_step [OF s1(1) carry] len i
    by (auto simp: fine_inv_def s1(2) split: add_pc.splits)
  moreover have "fine_abs s' = fine_abs s \<or> wp_act (Main w) (fine_abs s) = Some (fine_abs s')"
  proof (cases "f_main_add s")
    case (Add_Notify t)
    then obtain ws where ws: "fine_notify w (f_workers s) = Some ws" "pc = Add_Unlock"
      "s1 = s\<lparr>f_workers := ws, f_submitted := f_submitted s @ [t]\<rparr>" using add by auto
    have t: "t = None" using carry Add_Notify by simp
    have "pushed s = [t]" using holder_pushed(2) [OF m, of TMain] Add_Notify by simp
    from abs_submit [OF m ws(1) this] show ?thesis
      using i by (simp add: wp_main_def fine_abs_def s1(2) ws(2,3) Add_Notify t)
  qed (use False s1 i in \<open>auto simp: fine_abs_def split: if_splits\<close>)
  ultimately show ?thesis by blast
qed

lemma fine_sim:
  assumes inv: "fine_inv s" and act: "fine_act a s = Some s'"
  shows "fine_inv s' \<and> (fine_abs s' = fine_abs s \<or> (\<exists>b. wp_act b (fine_abs s) = Some (fine_abs s')))"
proof (cases a)
  case (Call c t)
  then have c: "c < length (f_clients s)" "f_clients s ! c = Add_Out"
    "s' = add_put (TClient c) (Add_Lock (Some t)) s" using act by (auto split: if_splits)
  have m: "mutex_inv s" using inv by (simp add: fine_inv_def)
  have h: "adder s (TClient c)" using c(1) by (simp add: adder_def)
  have "mutex_inv s'" using add_move [OF m h, of "Add_Lock (Some t)" "f_mutex s"] c by simp
  moreover have "set (f_clients s') \<subseteq> insert (Add_Lock (Some t)) (set (f_clients s))"
    by (simp add: c(3) set_update_subset_insert)
  ultimately have "fine_inv s'" using inv by (auto simp: fine_inv_def c(3))
  then show ?thesis unfolding c(3) abs_client by blast
next
  case (Client c w)
  then show ?thesis using act client_sim [OF inv] by (auto split: if_splits)
next
  case (Worker w)
  then show ?thesis using act worker_sim [OF inv] by (auto split: if_splits)
next
  case (Wakeup w)
  then have w: "w < length (f_workers s)" "f_workers s ! w = F_Wait"
    "s' = s\<lparr>f_workers := (f_workers s)[w := F_Relock]\<rparr>" using act by (auto split: if_splits)
  have m: "mutex_inv s" using inv by (simp add: fine_inv_def)
  have "\<not> inside s (TWorker w)" using w by (simp add: inside_def)
  then have "inside s' h \<longleftrightarrow> f_mutex s = Some h" for h
    using mutex_inv_facts(1) [OF m, of h] w by (auto simp: inside_worker)
  moreover have "pushed s' = pushed s" by (simp add: pushed_def w(3) split: option.splits)
  moreover have "worker_ok (wq_tasks (f_queue s)) ((f_workers s)[w := F_Relock] ! v)"
    if "v < length (f_workers s)" for v
    using mutex_inv_facts(4) [OF m that] that by (cases "v = w") simp_all
  ultimately have "mutex_inv s'" using m by (simp add: mutex_inv_def w(3))
  then have "fine_inv s'" using inv by (simp add: fine_inv_def w(3))
  moreover have "wp_act (Wake w) (fine_abs s) = Some (fine_abs s')"
    using w by (simp add: fine_abs_def map_update)
  ultimately show ?thesis by blast
next
  case (Main_Step w)
  then show ?thesis using act main_sim [OF inv] by simp
qed

lemma fine_reachable_sim:
  "fine_reachable n c s \<Longrightarrow> fine_inv s \<and> wp_reachable n (fine_abs s)"
proof (induction rule: fine_reachable.induct)
  case fine_begin
  show ?case by (simp add: fine_inv_new fine_abs_new wp_reachable.wp_start)
next
  case (fine_do s a s')
  with fine_sim [of s a s'] show ?case by (auto intro: wp_reachable.wp_step)
qed

section \<open>Properties\<close>

text \<open>The thread an action belongs to; none if it starts a call or wakes a thread.\<close>

fun own_step :: "'a fine_action \<Rightarrow> thread_id option" where
  "own_step (Client c w) = Some (TClient c)"
| "own_step (Worker w) = Some (TWorker w)"
| "own_step (Main_Step w) = Some TMain"
| "own_step _ = None"

text \<open>The thread that \<open>notify_one\<close> wakes can be chosen.\<close>

lemma notify_possible: "\<exists>w ws'. fine_notify w ws = Some ws'"
  by (cases "F_Wait \<in> set ws") (auto simp: fine_notify_def in_set_conv_nth)

lemma add_possible:
  assumes "add_inside pc \<or> pc = Add_Lock t \<and> f_mutex s = None"
  shows "\<exists>w r. add_step h w pc s = Some r"
  using assms notify_possible [of "f_workers s"] by (cases pc) auto

lemma main_possible:
  assumes "add_inside (f_main_add s) \<or> f_main_add s = Add_Lock t \<and> f_mutex s = None"
  shows "\<exists>w s'. main_step w s = Some s'"
proof -
  obtain w r where "add_step TMain w (f_main_add s) s = Some r" using add_possible [OF assms] by blast
  moreover have "f_main_add s \<noteq> Add_Out" using assms by auto
  ultimately have "main_step w s \<noteq> None" by (auto simp: main_step_def split: add_pc.splits option.splits)
  then show ?thesis by blast
qed

lemma holder_moves:
  assumes inv: "mutex_inv s" and h: "f_mutex s = Some h"
  shows "\<exists>a s'. own_step a = Some h \<and> fine_act a s = Some s'"
proof -
  have ins: "inside s h" using mutex_inv_facts(1) [OF inv, of h] h by simp
  show ?thesis
  proof (cases h)
    case (TWorker w)
    then have w: "w < length (f_workers s)" "worker_inside (f_workers s ! w)"
      using ins by (auto simp: inside_def)
    then have "fine_act (Worker w) s \<noteq> None" by (cases "f_workers s ! w") auto
    then show ?thesis using TWorker by (metis not_None_eq own_step.simps(2))
  next
    case (TClient c)
    then have c: "c < length (f_clients s)" "add_inside (f_clients s ! c)"
      using ins by (auto simp: inside_def split: if_splits)
    with add_possible obtain w r where "add_step (TClient c) w (f_clients s ! c) s = Some r" by blast
    then have "fine_act (Client c w) s \<noteq> None" using c(1) by simp
    then show ?thesis using TClient by (metis not_None_eq own_step.simps(1))
  next
    case TMain
    then have "add_inside (f_main_add s)" using ins by (simp add: inside_def)
    with main_possible show ?thesis using TMain by (metis fine_act.simps(5) own_step.simps(3))
  qed
qed

text \<open>C6: the worker pool with its locking done statement by statement is refined correctly by the
  machine with one step for each method: every state that the threads can reach, whatever way
  their statements interleave, stands for a reachable state of that machine, with the same tasks
  submitted and started. No two threads are between the locking and the unlocking of the mutex,
  and no worker reads the front of an empty queue.\<close>

theorem worker_pool_statements:
  assumes "fine_reachable n clients s"
  shows "wp_reachable n (fine_abs s) \<and> wp_submitted (fine_abs s) = f_submitted s \<and>
    wp_started (fine_abs s) = f_started s \<and>
    (\<forall>g h. inside s g \<and> inside s h \<longrightarrow> g = h) \<and> F_Undefined \<notin> set (f_workers s)"
proof -
  from fine_reachable_sim [OF assms] have inv: "mutex_inv s" and reach: "wp_reachable n (fine_abs s)"
    by (simp_all add: fine_inv_def)
  have "F_Undefined \<notin> set (f_workers s)"
    using mutex_inv_facts(4) [OF inv] by (metis in_set_conv_nth worker_ok.simps(3))
  with reach mutex_inv_facts(1) [OF inv] show ?thesis by (auto simp: fine_abs_def)
qed

text \<open>A client submits a task while the one worker waits.\<close>

definition fine_sample :: "nat fine_action list" where
  "fine_sample = replicate 4 (Worker 0) @ [Call 0 7] @ replicate 4 (Client 0 0) @ replicate 3 (Worker 0)"

lemma fine_sample_run:
  "fine_exec fine_sample (fine_new 1 1) \<noteq> None"
  "f_workers (the (fine_exec fine_sample (fine_new 1 1))) = [F_Pop (Some 7)]"
  "f_mutex (the (fine_exec fine_sample (fine_new 1 1))) = Some (TWorker 0)"
  "f_submitted (the (fine_exec fine_sample (fine_new 1 1))) = [Some 7]"
  by code_simp+

lemma fine_sample_reachable: "fine_reachable 1 1 (the (fine_exec fine_sample (fine_new 1 1)))"
  using fine_sample_run(1) fine_exec_reachable [OF fine_reachable.fine_begin, of fine_sample 1 1] by auto

theorem worker_pool_statements_witness:
  "\<exists>p. wp_reachable 1 p \<and> wp_submitted p = [Some (7 :: nat)] \<and> wp_threads p = [W_Take]"
proof -
  have threads: "wp_threads (fine_abs s) = map abs_worker (f_workers s)" for s :: "nat fine_pool"
    by (simp add: fine_abs_def)
  have "wp_threads (fine_abs (the (fine_exec fine_sample (fine_new 1 1)))) = [W_Take]"
    unfolding threads fine_sample_run(2) by simp
  then show ?thesis
    using worker_pool_statements [OF fine_sample_reachable] fine_sample_run(4) by metis
qed

text \<open>C21: the locking does not block the pool: whenever the machine with one step for each method
  lets a worker or the thread in \<open>Shutdown\<close> make a step, some thread can make a statement of its
  own, and a thread that has the mutex can always go on.\<close>

theorem worker_pool_locks_progress:
  assumes "fine_reachable n clients s"
    "(\<exists>w. wp_act (Work w) (fine_abs s) \<noteq> None \<or> wp_act (Main w) (fine_abs s) \<noteq> None) \<or> f_mutex s = Some h"
  shows "\<exists>a s' g. own_step a = Some g \<and> fine_act a s = Some s' \<and> (f_mutex s = None \<or> f_mutex s = Some g)"
proof (cases "f_mutex s")
  case None
  from fine_reachable_sim [OF assms(1)] have inv: "fine_inv s" and m: "mutex_inv s" by (simp_all add: fine_inv_def)
  have out: "\<not> inside s g" for g using mutex_inv_facts(1) [OF m, of g] None by simp
  from assms(2) None obtain w where "wp_act (Work w) (fine_abs s) \<noteq> None \<or> wp_act (Main w) (fine_abs s) \<noteq> None"
    by auto
  then show ?thesis
  proof
    assume work: "wp_act (Work w) (fine_abs s) \<noteq> None"
    then have w: "w < length (f_workers s)" by (auto simp: wp_work_def fine_abs_def split: if_splits)
    then have "\<not> worker_inside (f_workers s ! w)" using out [of "TWorker w"] by (auto simp: inside_def)
    then have "fine_act (Worker w) s \<noteq> None"
      using work w None by (cases "f_workers s ! w") (simp_all add: wp_work_def fine_abs_def)
    then obtain s' where "fine_act (Worker w) s = Some s'" by blast
    then show ?thesis using None by (metis own_step.simps(2))
  next
    assume main: "wp_act (Main w) (fine_abs s) \<noteq> None"
    have "\<exists>v s'. main_step v s = Some s'"
    proof (cases "f_main_add s")
      case Add_Out
      have "f_workers s ! i \<noteq> F_Undefined" if "i < length (f_workers s)" for i
        using mutex_inv_facts(4) [OF m that] by auto
      then have "abs_worker (f_workers s ! i) = W_Exit \<longleftrightarrow> f_workers s ! i = F_Exit" if "i < length (f_workers s)" for i
        using that by (cases "f_workers s ! i") auto
      with main Add_Out show ?thesis
        by (auto simp: wp_main_def main_step_def fine_abs_def split: shutdown.splits if_splits worker.splits)
    next
      case (Add_Lock t)
      with main_possible [of s t] None show ?thesis by simp
    qed (use out [of TMain] in \<open>simp_all add: inside_def\<close>)
    then obtain v s' where "fine_act (Main_Step v) s = Some s'" by auto
    then show ?thesis using None by (metis own_step.simps(3))
  qed
next
  case (Some g)
  from fine_reachable_sim [OF assms(1)] have "mutex_inv s" by (simp add: fine_inv_def)
  from holder_moves [OF this Some] Some show ?thesis by blast
qed

theorem worker_pool_locks_progress_witness:
  "\<exists>a s'. own_step a = Some (TWorker 0) \<and>
     fine_act a (the (fine_exec fine_sample (fine_new 1 1))) = Some s'"
  using worker_pool_locks_progress [OF fine_sample_reachable, of "TWorker 0"] fine_sample_run(3) by auto

end
