(* ===== verification/Topology.thy ===== *)
theory Topology
  imports OrderedSet "HOL-Library.Word"
begin

text \<open>
  The classes \<open>Core\<close> of \<open>src/Core.h\<close> and \<open>NUMANode\<close> of \<open>src/NUMANode.h\<close>. Sets of them are
  ordered by their operators \<open><\<close>. The order of cores is linear, so \<open>core\<close> is an instance of
  the class of linear orders; the order of nodes is not, since it looks at the identifiers only.
\<close>

section \<open>Core\<close>

datatype core = Core (GetID: "32 word")

definition core_eq :: "core \<Rightarrow> core \<Rightarrow> bool" where
  "core_eq c d \<longleftrightarrow> GetID c = GetID d"

definition core_less :: "core \<Rightarrow> core \<Rightarrow> bool" where
  "core_less c d \<longleftrightarrow> GetID c < GetID d"

instantiation core :: linorder
begin

definition less_core :: "core \<Rightarrow> core \<Rightarrow> bool" where
  "less_core = core_less"

definition less_eq_core :: "core \<Rightarrow> core \<Rightarrow> bool" where
  "less_eq_core c d \<longleftrightarrow> GetID c \<le> GetID d"

instance
  by standard (auto simp: less_core_def core_less_def less_eq_core_def core.expand)

end

lemma less_core_iff: "c < d \<longleftrightarrow> GetID c < GetID d"
  by (simp add: less_core_def core_less_def)

lemma core_eq_iff: "core_eq c d \<longleftrightarrow> c = d"
  by (cases c; cases d) (simp add: core_eq_def)

interpretation core_order: strict_weak_order "(<) :: core \<Rightarrow> core \<Rightarrow> bool"
  by unfold_locales auto

lemma core_same [simp]: "core_order.same c d \<longleftrightarrow> c = d"
  by (auto simp: core_order.same_def)

abbreviation core_insert :: "core \<Rightarrow> core list \<Rightarrow> core list" where
  "core_insert \<equiv> set_insert (<)"

abbreviation core_set :: "core list \<Rightarrow> bool" where
  "core_set \<equiv> sorted_wrt (<)"

lemma set_core_insert [simp]:
  "core_set cs \<Longrightarrow> set (core_insert c cs) = insert c (set cs)"
  by (auto simp: core_order.insert_set)

section \<open>NUMANode\<close>

record numa_node =
  nn_cores :: "core list"
  nn_id :: "32 word"
  nn_empty :: bool

definition NUMANode_default :: numa_node where
  "NUMANode_default = \<lparr>nn_cores = [], nn_id = 0, nn_empty = True\<rparr>"

definition NUMANode :: "32 word \<Rightarrow> core list \<Rightarrow> numa_node" where
  "NUMANode nodeID cpuCores = \<lparr>nn_cores = cpuCores, nn_id = nodeID, nn_empty = False\<rparr>"

definition nn_Empty :: "numa_node \<Rightarrow> bool" where
  "nn_Empty n = nn_empty n"

definition nn_GetID :: "numa_node \<Rightarrow> 32 word" where
  "nn_GetID n = nn_id n"

definition nn_SetID :: "32 word \<Rightarrow> numa_node \<Rightarrow> numa_node" where
  "nn_SetID nodeID n = n\<lparr>nn_id := nodeID\<rparr>"

definition nn_Cores :: "numa_node \<Rightarrow> core list" where
  "nn_Cores n = nn_cores n"

text \<open>Two sets are equal if they have the same number of elements, equal in order.\<close>

definition nn_eq :: "numa_node \<Rightarrow> numa_node \<Rightarrow> bool" where
  "nn_eq m n \<longleftrightarrow> nn_id m = nn_id n \<and> list_all2 core_eq (nn_cores m) (nn_cores n)"

definition nn_less :: "numa_node \<Rightarrow> numa_node \<Rightarrow> bool" where
  "nn_less m n \<longleftrightarrow> nn_id m < nn_id n"

interpretation node_order: strict_weak_order nn_less
  by unfold_locales (auto simp: nn_less_def)

lemma node_same [simp]: "node_order.same m n \<longleftrightarrow> nn_id m = nn_id n"
  by (auto simp: node_order.same_def nn_less_def)

lemma nn_eq_iff: "nn_eq m n \<longleftrightarrow> nn_id m = nn_id n \<and> nn_cores m = nn_cores n"
proof -
  have "core_eq = (=)" by (simp add: fun_eq_iff core_eq_iff)
  then show ?thesis by (simp add: nn_eq_def list.rel_eq)
qed

text \<open>The comparison of nodes is not the one of their documentation: nodes with the same
  identifier and other cores are not equal, although neither is less than the other, so that a
  set of nodes holds at most one of them: the one that was inserted first.\<close>

lemma numa_node_order:
  "(nn_eq (NUMANode i cs) (NUMANode j ds) \<longleftrightarrow> i = j \<and> cs = ds) \<and>
   (cs \<noteq> ds \<longrightarrow> \<not> nn_eq (NUMANode i cs) (NUMANode i ds) \<and>
      \<not> nn_less (NUMANode i cs) (NUMANode i ds) \<and> \<not> nn_less (NUMANode i ds) (NUMANode i cs) \<and>
      set_insert nn_less (NUMANode i ds) [NUMANode i cs] = [NUMANode i cs])"
  by (simp add: nn_eq_iff nn_less_def NUMANode_def)

end
