(* ===== verification/Processor.thy ===== *)
theory Processor
  imports Topology
begin

text \<open>
  The class \<open>ProcessorLinux\<close> and the file \<open>src/Processor.h\<close>.
  A \<open>cpu_set_t\<close> is a word of 1024 bits. The calls into the operating system are a parameter,
  the record \<open>os\<close> of functions on a state of type \<open>'s\<close>; what their manual pages say of them
  is the predicate \<open>os_ok\<close>.
\<close>

section \<open>The operating system\<close>

type_synonym cpu_set = "1024 word"

text \<open>\<open>os_getcpu\<close> gives the processor and the node the thread runs on.\<close>

record 's os =
  os_getaffinity :: "'s \<Rightarrow> cpu_set option"
  os_setaffinity :: "cpu_set \<Rightarrow> 's \<Rightarrow> bool \<times> 's"
  os_getcpu :: "'s \<Rightarrow> (32 word \<times> 32 word) option"

section \<open>ProcessorLinux\<close>

definition CPU_ZERO :: cpu_set where
  "CPU_ZERO = 0"

definition CPU_SET :: "32 word \<Rightarrow> cpu_set \<Rightarrow> cpu_set" where
  "CPU_SET cpu cpus = (if unat cpu < 1024 then Bit_Operations.set_bit (unat cpu) cpus else cpus)"

definition CPU_ISSET :: "32 word \<Rightarrow> cpu_set \<Rightarrow> bool" where
  "CPU_ISSET cpu cpus \<longleftrightarrow> unat cpu < 1024 \<and> bit cpus (unat cpu)"

definition MaxCoreCount :: nat where
  "MaxCoreCount = 2 ^ 10"

definition getCurrentThreadCoresAffinityMask :: "'s os \<Rightarrow> 's \<Rightarrow> cpu_set" where
  "getCurrentThreadCoresAffinityMask env s =
     (case os_getaffinity env s of Some cpus \<Rightarrow> cpus | None \<Rightarrow> CPU_ZERO)"

text \<open>The mask is read once, before the first call of the function.\<close>

definition ForEachCPUSet :: "'s os \<Rightarrow> 's \<Rightarrow> (32 word \<Rightarrow> 'b \<Rightarrow> 'b) \<Rightarrow> 'b \<Rightarrow> 'b" where
  "ForEachCPUSet env s cpuIDFn =
     (let cpuSetMask = getCurrentThreadCoresAffinityMask env s in
      fold (\<lambda>i x. if CPU_ISSET (of_nat i) cpuSetMask then cpuIDFn (of_nat i) x else x)
        [0..<MaxCoreCount])"

definition FindAvailableCores :: "'s os \<Rightarrow> 's \<Rightarrow> core list" where
  "FindAvailableCores env s = ForEachCPUSet env s (\<lambda>coreID. core_insert (Core coreID)) []"

type_synonym node_map = "(32 word \<times> core list) list"

definition collectNUMANodes :: "'s os \<Rightarrow> 32 word \<Rightarrow> node_map \<times> 's \<Rightarrow> node_map \<times> 's" where
  "collectNUMANodes env coreID =
     (\<lambda>(nodeCoreMap, s).
        (case os_setaffinity env (CPU_SET coreID CPU_ZERO) s of
           (False, s') \<Rightarrow> (nodeCoreMap, s')
         | (True, s') \<Rightarrow>
             (case os_getcpu env s' of
                None \<Rightarrow> (nodeCoreMap, s')
              | Some (currentCoreID, numaNodeID) \<Rightarrow>
                  (map_update (<) numaNodeID [] (core_insert (Core currentCoreID)) nodeCoreMap, s'))))"

definition FindAvailableNumaNodes :: "'s os \<Rightarrow> 's \<Rightarrow> numa_node list \<times> 's" where
  "FindAvailableNumaNodes env s =
     (let originalCPUSetMask = getCurrentThreadCoresAffinityMask env s;
          (nodeCoreMap, s1) = ForEachCPUSet env s (collectNUMANodes env) ([], s);
          nodes = fold (\<lambda>(k, v) nodes. set_insert nn_less (NUMANode k v) nodes) nodeCoreMap [];
          (_, s2) = os_setaffinity env originalCPUSetMask s1
      in (nodes, s2))"

definition SetThreadAffinity :: "'s os \<Rightarrow> core list \<Rightarrow> 's \<Rightarrow> bool \<times> 's" where
  "SetThreadAffinity env cores s =
     os_setaffinity env (fold (\<lambda>core cpus. CPU_SET (GetID core) cpus) cores CPU_ZERO) s"

definition GetAllAvailableCores :: "'s os \<Rightarrow> 's \<Rightarrow> core list" where
  "GetAllAvailableCores env s = FindAvailableCores env s"

section \<open>The exception of other platforms\<close>

text \<open>\<open>src/ProcessorUnsupported.h\<close> opens a namespace that it does not close, so there is no program
  with its class; its exception is what a method of a processor may throw.\<close>

datatype platform_error = PlatformUnsupportedError string

section \<open>What the manual pages say\<close>

text \<open>
  \<open>aff s\<close> is the affinity of the calling thread in \<open>s\<close>, \<open>online\<close> the processors it may run on,
  \<open>node\<close> the node of each processor. \<open>sched_setaffinity(2)\<close>: the call fails if the mask has
  no processor the thread may run on; else the affinity becomes the processors of the mask the
  thread may run on. \<open>sched_getaffinity(2)\<close>: the affinity is read. \<open>getcpu(2)\<close>: the result is
  the processor the thread runs on, one of its affinity, and its node.
\<close>

definition os_ok :: "'s os \<Rightarrow> ('s \<Rightarrow> cpu_set) \<Rightarrow> cpu_set \<Rightarrow> (32 word \<Rightarrow> 32 word) \<Rightarrow> bool" where
  "os_ok env aff online node \<longleftrightarrow>
     (\<forall>s. aff s \<noteq> 0 \<and> and (aff s) online = aff s \<and> os_getaffinity env s = Some (aff s) \<and>
       (\<forall>cpus. case os_setaffinity env cpus s of (ok, s') \<Rightarrow>
          (if and cpus online = 0 then \<not> ok \<and> aff s' = aff s
           else ok \<and> aff s' = and cpus online)) \<and>
       (\<exists>cpu. os_getcpu env s = Some (cpu, node cpu) \<and> CPU_ISSET cpu (aff s)))"

text \<open>The cores of a mask.\<close>

definition cores_of :: "cpu_set \<Rightarrow> core set" where
  "cores_of cpus = {c. CPU_ISSET (GetID c) cpus}"

section \<open>Masks\<close>

lemma isset_and [simp]: "CPU_ISSET c (and m n) \<longleftrightarrow> CPU_ISSET c m \<and> CPU_ISSET c n"
  by (auto simp: CPU_ISSET_def bit_and_iff)

lemma isset_zero [simp]: "\<not> CPU_ISSET c CPU_ZERO" "\<not> CPU_ISSET c 0"
  by (simp_all add: CPU_ISSET_def CPU_ZERO_def)

lemma isset_set [simp]: "CPU_ISSET d (CPU_SET c m) \<longleftrightarrow> CPU_ISSET d m \<or> c = d \<and> unat c < 1024"
  using word_unat_eq_iff [of c d] by (auto simp: CPU_ISSET_def CPU_SET_def bit_set_bit_iff)

lemma isset_fold [simp]:
  "CPU_ISSET d (fold (\<lambda>core cpus. CPU_SET (GetID core) cpus) cs m) \<longleftrightarrow>
     CPU_ISSET d m \<or> Core d \<in> set cs \<and> unat d < 1024"
proof (induction cs arbitrary: m)
  case (Cons c cs)
  then show ?case by (cases c) auto
qed simp

lemma mask_eqI:
  assumes "\<And>c. CPU_ISSET c m \<longleftrightarrow> CPU_ISSET c n"
  shows "m = n"
proof (rule bit_eqI)
  fix i assume "possible_bit TYPE(1024 word) i"
  then have "i < 1024" by simp
  then have "unat (of_nat i :: 32 word) = i" by (simp add: unat_of_nat)
  with assms [of "of_nat i"] \<open>i < 1024\<close> show "bit m i = bit n i"
    by (simp add: CPU_ISSET_def)
qed

lemma mask_zero_iff: "m = 0 \<longleftrightarrow> (\<forall>c. \<not> CPU_ISSET c m)"
  using mask_eqI [of m 0] by auto

end
