(* ===== verification/Processor_Correct.thy ===== *)
theory Processor_Correct
  imports Processor
begin

text \<open>
  What \<open>ProcessorLinux\<close> reports and sets, given the manual pages: the cores found are the
  affinity of the thread, the nodes found are its partition by node and the affinity is restored
  after the search, and a thread is pinned to exactly the cores asked for.
\<close>

section \<open>The loop over a mask\<close>

definition cpu_list :: "cpu_set \<Rightarrow> 32 word list" where
  "cpu_list cpus = filter (\<lambda>c. CPU_ISSET c cpus) (map of_nat [0..<MaxCoreCount])"

lemma for_each_list:
  "ForEachCPUSet env s f x = fold f (cpu_list (getCurrentThreadCoresAffinityMask env s)) x"
proof -
  have "fold (\<lambda>i x. if P (of_nat i) then f (of_nat i) x else x) ns y =
      fold f (filter P (map of_nat ns)) y" for P ns y
    by (induction ns arbitrary: y) simp_all
  then show ?thesis by (simp add: ForEachCPUSet_def cpu_list_def Let_def)
qed

lemma set_cpu_list [simp]: "set (cpu_list cpus) = {c. CPU_ISSET c cpus}"
proof -
  have "c \<in> of_nat ` {0..<MaxCoreCount}" if "CPU_ISSET c cpus" for c :: "32 word"
    using that by (intro image_eqI [of _ _ "unat c"]) (simp_all add: CPU_ISSET_def MaxCoreCount_def)
  then show ?thesis by (auto simp: cpu_list_def)
qed

lemma cpu_list_zero [simp]: "cpu_list CPU_ZERO = []"
  unfolding set_empty [symmetric] by simp

lemma fold_core_insert:
  "core_set cs \<Longrightarrow> core_set (fold (\<lambda>c. core_insert (Core c)) ids cs) \<and>
     set (fold (\<lambda>c. core_insert (Core c)) ids cs) = Core ` set ids \<union> set cs"
  by (induction ids arbitrary: cs) (auto simp: core_order.insert_sorted)

lemma find_cores:
  "core_set (FindAvailableCores env s)"
  "set (FindAvailableCores env s) = cores_of (getCurrentThreadCoresAffinityMask env s)"
proof -
  let ?ids = "cpu_list (getCurrentThreadCoresAffinityMask env s)"
  show "core_set (FindAvailableCores env s)"
    using fold_core_insert [of "[]" ?ids] by (simp add: FindAvailableCores_def for_each_list)
  have "Core ` {c. CPU_ISSET c m} = cores_of m" for m
    by (auto simp: cores_of_def image_iff) (metis core.collapse)
  then show "set (FindAvailableCores env s) = cores_of (getCurrentThreadCoresAffinityMask env s)"
    using fold_core_insert [of "[]" ?ids] by (simp add: FindAvailableCores_def for_each_list)
qed

lemma cores_image: "cores_of cpus = Core ` {c. CPU_ISSET c cpus}"
  by (auto simp: cores_of_def image_iff) (metis core.collapse)

lemma sorted_cpu_list: "sorted_wrt (<) (cpu_list cpus)"
proof -
  have "sorted_wrt (\<lambda>i j. (of_nat i :: 32 word) < of_nat j) [0..<MaxCoreCount]"
    by (rule sorted_wrt_mono_rel [of _ "(<)"])
      (simp_all add: MaxCoreCount_def word_less_nat_alt unat_of_nat take_bit_nat_eq_self)
  then show ?thesis unfolding cpu_list_def by (intro sorted_wrt_filter) (simp add: sorted_wrt_map)
qed

lemma find_cores_list: "FindAvailableCores env s = map Core (cpu_list (getCurrentThreadCoresAffinityMask env s))"
proof (rule core_order.sorted_unique [OF find_cores(1)])
  show "core_set (map Core (cpu_list (getCurrentThreadCoresAffinityMask env s)))"
    using sorted_cpu_list by (simp add: sorted_wrt_map less_core_iff)
  show "set (FindAvailableCores env s) = set (map Core (cpu_list (getCurrentThreadCoresAffinityMask env s)))"
    by (simp add: find_cores(2) cores_image)
qed

section \<open>Facts of the operating system\<close>

lemma isset_bound: "CPU_ISSET c cpus \<Longrightarrow> unat c < 1024"
  by (simp add: CPU_ISSET_def)

lemma os_mask: "os_ok env aff online node \<Longrightarrow> getCurrentThreadCoresAffinityMask env s = aff s"
  by (simp add: os_ok_def getCurrentThreadCoresAffinityMask_def)

lemma os_aff: "os_ok env aff online node \<Longrightarrow> aff s \<noteq> 0 \<and> and (aff s) online = aff s"
  by (simp add: os_ok_def)

lemma os_set:
  assumes "os_ok env aff online node" "os_setaffinity env cpus s = (ok, s')"
  shows "ok \<longleftrightarrow> and cpus online \<noteq> 0" "aff s' = (if ok then and cpus online else aff s)"
proof -
  have "case os_setaffinity env cpus s of (ok, s') \<Rightarrow>
      (if and cpus online = 0 then \<not> ok \<and> aff s' = aff s else ok \<and> aff s' = and cpus online)"
    using assms(1) by (simp add: os_ok_def)
  then show "ok \<longleftrightarrow> and cpus online \<noteq> 0" "aff s' = (if ok then and cpus online else aff s)"
    using assms(2) by (auto split: if_splits)
qed

lemma os_getcpu:
  assumes "os_ok env aff online node"
  obtains c where "os_getcpu env s = Some (c, node c)" "CPU_ISSET c (aff s)"
  using assms by (auto simp: os_ok_def)

lemma aff_online: "os_ok env aff online node \<Longrightarrow> CPU_ISSET c (aff s) \<Longrightarrow> CPU_ISSET c online"
  using os_aff [of env aff online node s] isset_and [of c "aff s" online] by simp

section \<open>The map of the nodes\<close>

lemma map_of_update:
  fixes k :: "'k::linorder"
  shows "sorted_wrt (<) (map fst es) \<Longrightarrow>
    map_of (map_update (<) k d f es) = (map_of es)(k \<mapsto> f (case map_of es k of None \<Rightarrow> d | Some v \<Rightarrow> v))"
proof (induction es)
  case (Cons e es)
  obtain l v where e: "e = (l, v)" by (cases e)
  have "map_of es k = None" if "k < l"
    using Cons.prems that by (auto simp: e map_of_eq_None_iff)
  with Cons show ?case by (auto simp: e fun_eq_iff)
qed simp

interpretation id_order: strict_weak_order "(<) :: 32 word \<Rightarrow> 32 word \<Rightarrow> bool"
  by unfold_locales auto

text \<open>The map holds exactly the cores of \<open>A\<close>, a set of cores with their nodes.\<close>

definition recorded :: "(32 word \<times> 32 word) set \<Rightarrow> node_map \<Rightarrow> bool" where
  "recorded A nm \<longleftrightarrow> sorted_wrt (<) (map fst nm) \<and>
     (\<forall>n. case map_of nm n of
        None \<Rightarrow> \<forall>c. (c, n) \<notin> A
      | Some cs \<Rightarrow> core_set cs \<and> set cs = Core ` {c. (c, n) \<in> A} \<and> cs \<noteq> [])"

lemma recorded_at:
  "recorded A nm \<Longrightarrow> case map_of nm n of None \<Rightarrow> \<forall>c. (c, n) \<notin> A
      | Some cs \<Rightarrow> core_set cs \<and> set cs = Core ` {c. (c, n) \<in> A} \<and> cs \<noteq> []"
  by (simp add: recorded_def)

lemma recorded_sorted: "recorded A nm \<Longrightarrow> sorted_wrt (<) (map fst nm)"
  by (simp add: recorded_def)

lemma recorded_empty: "recorded {} []"
  by (simp add: recorded_def)

lemma recorded_insert:
  assumes "recorded A nm"
  shows "recorded (insert (c, k) A) (map_update (<) k [] (core_insert (Core c)) nm)"
proof -
  let ?nm = "map_update (<) k [] (core_insert (Core c)) nm"
  let ?cs = "case map_of nm k of None \<Rightarrow> [] | Some cs \<Rightarrow> cs"
  note sorted = recorded_sorted [OF assms] and at = recorded_at [OF assms]
  have cs: "core_set ?cs" "set ?cs = Core ` {d. (d, k) \<in> A}"
    using at [of k] by (auto split: option.splits)
  have new: "core_set (core_insert (Core c) ?cs)"
    "set (core_insert (Core c) ?cs) = Core ` {d. (d, k) \<in> insert (c, k) A}"
    using cs by (auto simp: core_order.insert_sorted)
  have ne: "core_insert (Core c) ?cs \<noteq> []" by (cases ?cs) simp_all
  have "sorted_wrt (<) (map fst ?nm)"
    using id_order.insert_sorted [OF sorted] by (simp add: id_order.map_keys)
  moreover have "case map_of ?nm n of None \<Rightarrow> \<forall>d. (d, n) \<notin> insert (c, k) A
      | Some cs \<Rightarrow> core_set cs \<and> set cs = Core ` {d. (d, n) \<in> insert (c, k) A} \<and> cs \<noteq> []" for n
  proof (cases "n = k")
    case True
    then show ?thesis using new ne by (simp add: map_of_update [OF sorted])
  next
    case False
    then have "{d. (d, n) \<in> insert (c, k) A} = {d. (d, n) \<in> A}" by auto
    then show ?thesis using at [of n] False
      by (simp add: map_of_update [OF sorted] split: option.splits)
  qed
  ultimately show ?thesis by (simp add: recorded_def)
qed

text \<open>The nodes that are made of it.\<close>

lemma recorded_node:
  assumes "recorded A nm" "(k, v) \<in> set nm"
  shows "core_set v \<and> v \<noteq> [] \<and> set v = Core ` {c. (c, k) \<in> A}"
proof -
  have "map_of nm k = Some v"
    using assms(2) id_order.sorted_distinct [OF recorded_sorted [OF assms(1)]] by simp
  with recorded_at [OF assms(1), of k] show ?thesis by simp
qed

lemma recorded_ids:
  assumes "recorded A nm"
  shows "fst ` set nm = snd ` A"
proof -
  have "k \<in> fst ` set nm \<longleftrightarrow> k \<in> snd ` A" for k
  proof (cases "map_of nm k")
    case None
    then have "\<forall>c. (c, k) \<notin> A" using recorded_at [OF assms, of k] by simp
    with None show ?thesis by (auto simp: map_of_eq_None_iff)
  next
    case (Some v)
    then have "v \<noteq> []" "set v = Core ` {c. (c, k) \<in> A}" using recorded_at [OF assms, of k] by simp_all
    then have "{c. (c, k) \<in> A} \<noteq> {}" by (metis image_empty set_empty)
    moreover have "k \<in> fst ` set nm" using Some by (metis map_of_eq_None_iff option.distinct(1))
    ultimately show ?thesis by force
  qed
  then show ?thesis by blast
qed

text \<open>What a search finds in a mask: the cores asked for, on the nodes they belong to.\<close>

abbreviation on_nodes :: "(32 word \<Rightarrow> 32 word) \<Rightarrow> 32 word set \<Rightarrow> (32 word \<times> 32 word) set" where
  "on_nodes node A \<equiv> (\<lambda>c. (c, node c)) ` A"

lemma collect_step:
  assumes ok: "os_ok env aff online node" and c: "CPU_ISSET c online"
  shows "\<exists>s'. collectNUMANodes env c (nm, s) =
    (map_update (<) (node c) [] (core_insert (Core c)) nm, s')"
proof -
  obtain r s' where set: "os_setaffinity env (CPU_SET c CPU_ZERO) s = (r, s')"
    by (cases "os_setaffinity env (CPU_SET c CPU_ZERO) s")
  have only: "CPU_ISSET d (and (CPU_SET c CPU_ZERO) online) \<longleftrightarrow> d = c" for d
    using c by (auto simp: CPU_ISSET_def [of c online])
  then have "and (CPU_SET c CPU_ZERO) online \<noteq> 0"
    by (auto simp: mask_zero_iff)
  with os_set [OF ok set] have r: "r" "aff s' = and (CPU_SET c CPU_ZERO) online" by simp_all
  obtain d where "os_getcpu env s' = Some (d, node d)" "CPU_ISSET d (aff s')"
    using os_getcpu [OF ok] by blast
  then have "os_getcpu env s' = Some (c, node c)" using only [of d] by (simp add: r(2))
  then show ?thesis using set r(1) by (simp add: collectNUMANodes_def)
qed

lemma collect_all:
  assumes ok: "os_ok env aff online node"
  shows "(\<forall>c \<in> set ids. CPU_ISSET c online) \<Longrightarrow> recorded A nm \<Longrightarrow>
    (\<exists>nm' s'. fold (collectNUMANodes env) ids (nm, s) = (nm', s') \<and>
      recorded (A \<union> on_nodes node (set ids)) nm')"
proof (induction ids arbitrary: A nm s)
  case (Cons c ids)
  have "CPU_ISSET c online" using Cons.prems(1) by simp
  from collect_step [OF ok this] obtain s1 where
    s1: "collectNUMANodes env c (nm, s) = (map_update (<) (node c) [] (core_insert (Core c)) nm, s1)"
    by blast
  show ?case
    using Cons.IH [OF _ recorded_insert [OF Cons.prems(2), of c "node c"], where s = s1] Cons.prems(1)
    by (simp add: s1)
qed simp

section \<open>The set of the nodes\<close>

lemma insert_last: "\<forall>y \<in> set xs. nn_less y x \<Longrightarrow> set_insert nn_less x xs = xs @ [x]"
  by (induction xs) (auto simp: nn_less_def)

lemma nodes_of_map:
  "sorted_wrt (<) (map fst nm) \<Longrightarrow> \<forall>(k, v) \<in> set nm. \<forall>y \<in> set ns. nn_id y < k \<Longrightarrow>
     fold (\<lambda>(k, v) ns. set_insert nn_less (NUMANode k v) ns) nm ns = ns @ map (\<lambda>(k, v). NUMANode k v) nm"
proof (induction nm arbitrary: ns)
  case (Cons e nm)
  obtain k v where e: "e = (k, v)" by (cases e)
  have "set_insert nn_less (NUMANode k v) ns = ns @ [NUMANode k v]"
    using Cons.prems(2) by (intro insert_last) (auto simp: e nn_less_def NUMANode_def)
  moreover have "\<forall>(k', v') \<in> set nm. \<forall>y \<in> set (ns @ [NUMANode k v]). nn_id y < k'"
    using Cons.prems by (auto simp: e NUMANode_def)
  ultimately show ?case using Cons.IH [of "ns @ [NUMANode k v]"] Cons.prems(1) by (simp add: e)
qed simp

lemma nodes_sorted:
  "sorted_wrt (<) (map fst nm) \<Longrightarrow> sorted_wrt nn_less (map (\<lambda>(k, v). NUMANode k v) nm)"
  by (induction nm) (auto simp: nn_less_def NUMANode_def)

section \<open>The search for nodes, and pinning\<close>

text \<open>What the operating system answers when a thread is moved to each of the cores \<open>ids\<close>: the cores
  and nodes it reports, without those where a call failed, and its state after the last move.\<close>

fun cpu_answers :: "'s os \<Rightarrow> 32 word list \<Rightarrow> 's \<Rightarrow> (32 word \<times> 32 word) list \<times> 's" where
  "cpu_answers env [] s = ([], s)"
| "cpu_answers env (c # ids) s =
     (case os_setaffinity env (CPU_SET c CPU_ZERO) s of (moved, s1) \<Rightarrow>
      case cpu_answers env ids s1 of (answers, s2) \<Rightarrow>
        ((if moved then (case os_getcpu env s1 of None \<Rightarrow> [] | Some answer \<Rightarrow> [answer]) else []) @ answers,
         s2))"

lemma collect_answers:
  "recorded A nm \<Longrightarrow> cpu_answers env ids s = (answers, s1) \<Longrightarrow>
    \<exists>nm'. fold (collectNUMANodes env) ids (nm, s) = (nm', s1) \<and> recorded (A \<union> set answers) nm'"
proof (induction ids arbitrary: A nm s answers)
  case (Cons c ids)
  obtain moved s0 where set: "os_setaffinity env (CPU_SET c CPU_ZERO) s = (moved, s0)"
    by (cases "os_setaffinity env (CPU_SET c CPU_ZERO) s")
  obtain rest where rest: "cpu_answers env ids s0 = (rest, s1)"
    using Cons.prems(2) by (auto simp: set split: prod.splits)
  consider "\<not> moved \<or> os_getcpu env s0 = None" | d k where "moved" "os_getcpu env s0 = Some (d, k)"
    by (cases moved; cases "os_getcpu env s0") auto
  then show ?case
  proof cases
    case 1
    then have "collectNUMANodes env c (nm, s) = (nm, s0)" "answers = rest"
      using Cons.prems(2) by (auto simp: collectNUMANodes_def set rest split: bool.splits)
    then show ?thesis using Cons.IH [OF Cons.prems(1) rest] by simp
  next
    case 2
    then have "collectNUMANodes env c (nm, s) = (map_update (<) k [] (core_insert (Core d)) nm, s0)"
      "answers = (d, k) # rest"
      using Cons.prems(2) by (auto simp: collectNUMANodes_def set rest)
    then show ?thesis using Cons.IH [OF recorded_insert [OF Cons.prems(1), of d k] rest] by simp
  qed
qed simp

lemma search:
  assumes ok: "os_ok env aff online node" and find: "FindAvailableNumaNodes env s = (nodes, s')"
  obtains nm where "recorded (on_nodes node {c. CPU_ISSET c (aff s)}) nm"
    "sorted_wrt (<) (map fst nm)" "nodes = map (\<lambda>(k, v). NUMANode k v) nm" "aff s' = aff s"
proof -
  note aff = os_mask [OF ok, of s]
  have "\<forall>c \<in> set (cpu_list (aff s)). CPU_ISSET c online"
    using aff_online [OF ok] by auto
  from collect_all [OF ok this recorded_empty, of s] obtain nm s1 where
    fold: "fold (collectNUMANodes env) (cpu_list (aff s)) ([], s) = (nm, s1)" and
    rec: "recorded (on_nodes node {c. CPU_ISSET c (aff s)}) nm" by auto
  note sorted = recorded_sorted [OF rec]
  obtain r s2 where set: "os_setaffinity env (aff s) s1 = (r, s2)"
    by (cases "os_setaffinity env (aff s) s1")
  have "nodes = map (\<lambda>(k, v). NUMANode k v) nm" and s': "s' = s2"
    using find nodes_of_map [OF sorted, of "[]"]
    by (simp_all add: FindAvailableNumaNodes_def for_each_list aff fold set)
  moreover have "aff s' = aff s"
    using os_set [OF ok set] os_aff [OF ok, of s] by (simp add: s')
  ultimately show thesis using that rec sorted by blast
qed

lemmas node_simps = NUMANode_def nn_Empty_def nn_Cores_def nn_GetID_def

lemma node_facts:
  assumes "os_ok env aff online node" "FindAvailableNumaNodes env s = (nodes, s')" "n \<in> set nodes"
  shows "\<not> nn_Empty n" "core_set (nn_Cores n)" "nn_Cores n \<noteq> []"
    "set (nn_Cores n) = {c \<in> cores_of (aff s). node (GetID c) = nn_GetID n}"
proof -
  from search [OF assms(1,2)] obtain nm where
    rec: "recorded (on_nodes node {c. CPU_ISSET c (aff s)}) nm" and
    nodes: "nodes = map (\<lambda>(k, v). NUMANode k v) nm" by blast
  obtain k v where kv: "(k, v) \<in> set nm" "n = NUMANode k v"
    using assms(3) by (auto simp: nodes)
  from recorded_node [OF rec kv(1)] show "\<not> nn_Empty n" "core_set (nn_Cores n)" "nn_Cores n \<noteq> []"
    "set (nn_Cores n) = {c \<in> cores_of (aff s). node (GetID c) = nn_GetID n}"
    by (auto simp: kv(2) cores_image node_simps)
qed

lemma found_ids:
  assumes "os_ok env aff online node" "FindAvailableNumaNodes env s = (nodes, s')"
  shows "nn_GetID ` set nodes = (\<lambda>c. node (GetID c)) ` cores_of (aff s)"
proof -
  from search [OF assms] obtain nm where
    rec: "recorded (on_nodes node {c. CPU_ISSET c (aff s)}) nm" and
    nodes: "nodes = map (\<lambda>(k, v). NUMANode k v) nm" by blast
  have "nn_GetID ` set nodes = fst ` set nm"
    unfolding nodes by (force simp: node_simps)
  with recorded_ids [OF rec] show ?thesis by (simp add: cores_image image_image)
qed

lemma affinity_set:
  assumes "os_ok env aff online node" "SetThreadAffinity env cores s = (ok, s')"
  shows "ok \<longleftrightarrow> set cores \<inter> cores_of online \<noteq> {}"
    "cores_of (aff s') = (if ok then set cores \<inter> cores_of online else cores_of (aff s))"
proof -
  let ?m = "fold (\<lambda>core cpus. CPU_SET (GetID core) cpus) cores CPU_ZERO"
  have isset: "CPU_ISSET d (and ?m online) \<longleftrightarrow> Core d \<in> set cores \<and> CPU_ISSET d online"
    for d using isset_bound [of d online] by auto
  have cores: "cores_of (and ?m online) = set cores \<inter> cores_of online"
    using isset_bound by (auto simp: cores_of_def isset)
  have zero: "and ?m online = 0 \<longleftrightarrow> cores_of (and ?m online) = {}"
    by (auto simp: mask_zero_iff cores_of_def) (metis core.sel)
  note set = os_set [OF assms(1), of ?m s ok s']
  show "ok \<longleftrightarrow> set cores \<inter> cores_of online \<noteq> {}"
    using set(1) assms(2) zero cores by (simp add: SetThreadAffinity_def)
  show "cores_of (aff s') = (if ok then set cores \<inter> cores_of online else cores_of (aff s))"
    using set(2) assms(2) cores by (simp add: SetThreadAffinity_def)
qed

lemma pinned:
  assumes ok: "os_ok env aff online node" and set: "SetThreadAffinity env cores s = (r, s')"
    and cores: "core_set cores" "cores \<noteq> []" "set cores \<subseteq> cores_of online"
  shows "r" "FindAvailableCores env s' = cores"
proof -
  have "set cores \<inter> cores_of online = set cores" using cores(3) by blast
  with affinity_set [OF ok set] cores(2) have r: "r" "cores_of (aff s') = set cores" by simp_all
  then show "r" by simp
  have "set (FindAvailableCores env s') = set cores"
    using r(2) find_cores(2) [of env s'] os_mask [OF ok, of s'] by simp
  then show "FindAvailableCores env s' = cores"
    by (rule core_order.sorted_unique [OF find_cores(1) cores(1)])
qed

section \<open>Properties\<close>

text \<open>C29: what is found, whatever the operating system answers, be it wrong. The cores are those of
  the mask that was read, or none if it could not be read. The search for nodes moves the thread to
  each of them in turn: the nodes are exactly those that were reported, each with exactly the cores
  that were reported on it, and where a call failed the core is left out; sets are in the order of
  their operators \<open><\<close>, and no node is empty. The last call of the search asks for the mask
  that was read at its start.\<close>

theorem found_as_answered:
  "case (getCurrentThreadCoresAffinityMask env s, FindAvailableNumaNodes env s) of (cpus, nodes, s') \<Rightarrow>
     (os_getaffinity env s = None \<longrightarrow> FindAvailableCores env s = []) \<and>
     core_set (FindAvailableCores env s) \<and>
     set (FindAvailableCores env s) = {c. CPU_ISSET (GetID c) cpus} \<and>
     (case cpu_answers env (map GetID (FindAvailableCores env s)) s of (answers, s1) \<Rightarrow>
        s' = snd (os_setaffinity env cpus s1) \<and> sorted_wrt nn_less nodes \<and>
        nn_GetID ` set nodes = snd ` set answers \<and>
        (\<forall>n \<in> set nodes. \<not> nn_Empty n \<and> nn_Cores n \<noteq> [] \<and> core_set (nn_Cores n) \<and>
           set (nn_Cores n) = Core ` {c. (c, nn_GetID n) \<in> set answers}))"
proof -
  let ?m = "getCurrentThreadCoresAffinityMask env s"
  have ids: "map GetID (FindAvailableCores env s) = cpu_list ?m"
    by (simp add: find_cores_list comp_def)
  obtain answers s1 where answers: "cpu_answers env (cpu_list ?m) s = (answers, s1)"
    by (cases "cpu_answers env (cpu_list ?m) s")
  from collect_answers [OF recorded_empty this] obtain nm where
    nm: "fold (collectNUMANodes env) (cpu_list ?m) ([], s) = (nm, s1)" and rec: "recorded (set answers) nm"
    by auto
  note sorted = recorded_sorted [OF rec]
  have found: "FindAvailableNumaNodes env s =
      (map (\<lambda>(k, v). NUMANode k v) nm, snd (os_setaffinity env ?m s1))"
    using nodes_of_map [OF sorted, of "[]"]
    by (simp add: FindAvailableNumaNodes_def for_each_list nm split: prod.splits)
  have "fst ` set nm = nn_GetID ` set (map (\<lambda>(k, v). NUMANode k v) nm)"
    by (force simp: node_simps)
  with recorded_ids [OF rec] have "nn_GetID ` set (map (\<lambda>(k, v). NUMANode k v) nm) = snd ` set answers" by simp
  moreover have "\<not> nn_Empty n \<and> nn_Cores n \<noteq> [] \<and> core_set (nn_Cores n) \<and>
      set (nn_Cores n) = Core ` {c. (c, nn_GetID n) \<in> set answers}"
    if "n \<in> set (map (\<lambda>(k, v). NUMANode k v) nm)" for n
    using that recorded_node [OF rec] by (auto simp: node_simps)
  moreover have "FindAvailableCores env s = []" if "os_getaffinity env s = None"
    using that by (simp add: find_cores_list getCurrentThreadCoresAffinityMask_def)
  ultimately show ?thesis
    using find_cores [of env s] nodes_sorted [OF sorted]
    by (simp add: found ids answers cores_of_def del: set_map)
qed

text \<open>The cores found are exactly the affinity of the calling thread, each once and in order.\<close>

lemma find_available_cores:
  assumes "os_ok env aff online node"
  shows "core_set (GetAllAvailableCores env s) \<and> distinct (GetAllAvailableCores env s) \<and>
    set (GetAllAvailableCores env s) = cores_of (aff s)"
  using find_cores [of env s] os_mask [OF assms] core_order.sorted_distinct
  by (simp add: GetAllAvailableCores_def)

text \<open>C27: the nodes found are the nodes of the cores in the affinity of the thread, each once and
  in order; each has exactly the cores of the affinity that belong to it; and the affinity, which
  the search changes for each core, is at the end what it was.\<close>

theorem find_numa_nodes:
  assumes "os_ok env aff online node" "FindAvailableNumaNodes env s = (nodes, s')"
  shows "sorted_wrt nn_less nodes \<and> aff s' = aff s \<and>
    nn_GetID ` set nodes = (\<lambda>c. node (GetID c)) ` cores_of (aff s) \<and>
    (\<forall>n \<in> set nodes. \<not> nn_Empty n \<and> core_set (nn_Cores n) \<and> nn_Cores n \<noteq> [] \<and>
       set (nn_Cores n) = {c \<in> cores_of (aff s). node (GetID c) = nn_GetID n})"
proof -
  from search [OF assms] obtain nm where "sorted_wrt (<) (map fst nm)"
    "nodes = map (\<lambda>(k, v). NUMANode k v) nm" "aff s' = aff s" .
  then show ?thesis
    using found_ids [OF assms] node_facts [OF assms] nodes_sorted by simp
qed

text \<open>A thread can be pinned exactly if one of the cores asked for is one it may run on; then
  it runs on those of them it may run on, and a set of cores it may run on is afterwards found
  again. Else nothing changes.\<close>

lemma set_thread_affinity:
  assumes "os_ok env aff online node" "SetThreadAffinity env cores s = (ok, s')"
  shows "(ok \<longleftrightarrow> set cores \<inter> cores_of online \<noteq> {}) \<and>
    cores_of (aff s') = (if ok then set cores \<inter> cores_of online else cores_of (aff s)) \<and>
    (core_set cores \<and> cores \<noteq> [] \<and> set cores \<subseteq> cores_of online \<longrightarrow>
       ok \<and> FindAvailableCores env s' = cores)"
  using affinity_set [OF assms] pinned [OF assms] by blast

text \<open>If the affinity of the thread cannot be read, no core and no node is found, and the
  search for nodes asks for no core at all in the end.\<close>

lemma affinity_unreadable:
  assumes "os_getaffinity env s = None"
  shows "FindAvailableCores env s = [] \<and>
    FindAvailableNumaNodes env s = ([], snd (os_setaffinity env CPU_ZERO s))"
  using assms
  by (simp add: FindAvailableCores_def FindAvailableNumaNodes_def for_each_list
      getCurrentThreadCoresAffinityMask_def split: prod.splits)

section \<open>A machine with two cores\<close>

text \<open>The cores 0 and 2, each a node of its own; a state is the affinity asked for last.\<close>

definition sim_online :: cpu_set where
  "sim_online = CPU_SET 0 (CPU_SET 2 CPU_ZERO)"

definition sim_aff :: "cpu_set \<Rightarrow> cpu_set" where
  "sim_aff s = (if and s sim_online = 0 then sim_online else and s sim_online)"

definition sim_os :: "cpu_set os" where
  "sim_os = \<lparr>os_getaffinity = (\<lambda>s. Some (sim_aff s)),
     os_setaffinity = (\<lambda>m s. if and m sim_online = 0 then (False, s) else (True, m)),
     os_getcpu = (\<lambda>s. if CPU_ISSET 0 (sim_aff s) then Some (0, 0) else Some (2, 2))\<rparr>"

lemma sim_isset [simp]: "CPU_ISSET c sim_online \<longleftrightarrow> c = 0 \<or> c = 2"
  by (auto simp: sim_online_def)

lemma sim_os_ok: "os_ok sim_os sim_aff sim_online id"
proof -
  have ne: "sim_online \<noteq> 0" by (auto simp: mask_zero_iff)
  have two: "CPU_ISSET 2 (sim_aff s)" if "\<not> CPU_ISSET 0 (sim_aff s)" for s
  proof -
    have "sim_aff s \<noteq> 0" using ne by (simp add: sim_aff_def)
    then obtain c where c: "CPU_ISSET c (sim_aff s)" by (auto simp: mask_zero_iff)
    then have "CPU_ISSET c sim_online" by (auto simp: sim_aff_def split: if_splits)
    with c that show ?thesis by auto
  qed
  have aff: "sim_aff s \<noteq> 0" "and (sim_aff s) sim_online = sim_aff s" for s
    using ne by (simp_all add: sim_aff_def and.assoc)
  have set: "sim_aff m = and m sim_online" if "and m sim_online \<noteq> 0" for m
    using that by (simp add: sim_aff_def)
  show ?thesis using aff two set by (auto simp: os_ok_def sim_os_def)
qed

lemma sim_cores: "cores_of sim_online = {Core 0, Core 2}"
  by (auto simp: cores_of_def) (metis core.collapse)+

lemma sim_start: "sim_aff 0 = sim_online"
  by (simp add: sim_aff_def)

theorem find_numa_nodes_witness:
  "nn_GetID ` set (fst (FindAvailableNumaNodes sim_os 0)) = {0, 2}"
proof (cases "FindAvailableNumaNodes sim_os 0")
  case (Pair nodes s')
  from find_numa_nodes [OF sim_os_ok this] show ?thesis
    by (simp add: Pair sim_start sim_cores)
qed

text \<open>A system that moves the thread but always says that it runs on core 7 of node 3.\<close>

definition liar_os :: "cpu_set os" where
  "liar_os = sim_os\<lparr>os_getcpu := \<lambda>s. Some (7, 3)\<rparr>"

theorem found_as_answered_witness:
  "nn_GetID ` set (fst (FindAvailableNumaNodes liar_os 0)) = {3} \<and>
   (set \<circ> nn_Cores) ` set (fst (FindAvailableNumaNodes liar_os 0)) = {{Core 7}}"
proof -
  obtain nodes s' where nodes: "FindAvailableNumaNodes liar_os 0 = (nodes, s')"
    by (cases "FindAvailableNumaNodes liar_os 0")
  have mask: "getCurrentThreadCoresAffinityMask liar_os 0 = sim_online"
    by (simp add: getCurrentThreadCoresAffinityMask_def liar_os_def sim_os_def sim_start)
  have "set (FindAvailableCores liar_os 0) = {Core 0, Core 2}"
    using find_cores(2) [of liar_os 0] by (simp add: mask sim_cores)
  then have cores: "FindAvailableCores liar_os 0 = [Core 0, Core 2]"
    by (intro core_order.sorted_unique [OF find_cores(1)]) (auto simp: less_core_iff)
  have moved: "and (CPU_SET c CPU_ZERO) sim_online \<noteq> 0" if "c = 0 \<or> c = 2" for c
    using that by (auto simp: mask_zero_iff)
  obtain s1 where "cpu_answers liar_os [0, 2] 0 = ([(7, 3), (7, 3)], s1)"
    using moved by (simp add: liar_os_def sim_os_def)
  with found_as_answered [of liar_os 0] have ids: "nn_GetID ` set nodes = {3}" and
    "\<forall>n \<in> set nodes. set (nn_Cores n) = Core ` {c. (c, nn_GetID n) \<in> set [(7, 3), (7, 3)]}"
    by (simp_all add: nodes cores)
  moreover have "nn_GetID n = 3" if "n \<in> set nodes" for n using ids that by blast
  ultimately have "(set \<circ> nn_Cores) n = {Core 7}" if "n \<in> set nodes" for n using that by auto
  moreover have "nodes \<noteq> []" using ids by auto
  ultimately show ?thesis using ids by (auto simp: nodes)
qed

end
