(* ===== verification/ProcessorOperator.thy ===== *)
theory ProcessorOperator
  imports Processor_Correct
begin

text \<open>
  The interface \<open>ProcessorOperator\<close> of \<open>src/ProcessorOperator.h\<close> as the record of its virtual
  methods, and the class that implements it on Linux. What a program may expect of an implementation
  on a platform that is supported is the locale \<open>processor_contract\<close>.
\<close>

section \<open>The interface\<close>

text \<open>A method may throw. \<open>'s\<close> is the state of the operating system as the calling thread sees it.
  Looking for the nodes moves the thread from core to core, so it gives the state after it.\<close>

record 's processor_operator =
  po_FindAvailableCores :: "'s \<Rightarrow> platform_error + core list"
  po_FindAvailableNumaNodes :: "'s \<Rightarrow> platform_error + numa_node list \<times> 's"
  po_SetThreadAffinity :: "core list \<Rightarrow> 's \<Rightarrow> platform_error + bool \<times> 's"

definition ProcessorLinux :: "'s os \<Rightarrow> 's processor_operator" where
  "ProcessorLinux env =
     \<lparr>po_FindAvailableCores = (\<lambda>s. Inr (FindAvailableCores env s)),
      po_FindAvailableNumaNodes = (\<lambda>s. Inr (FindAvailableNumaNodes env s)),
      po_SetThreadAffinity = (\<lambda>cores s. Inr (SetThreadAffinity env cores s))\<rparr>"

section \<open>The contract\<close>

text \<open>\<open>'m\<close> is what there is to know of a machine: \<open>usable m s\<close> are the cores the thread may run on
  in \<open>s\<close>, \<open>online m\<close> all the cores there are and \<open>node m\<close> the node of each.\<close>

locale processor_contract =
  fixes operator :: "'m \<Rightarrow> 's processor_operator"
    and valid :: "'m \<Rightarrow> bool"
    and usable :: "'m \<Rightarrow> 's \<Rightarrow> core set"
    and online :: "'m \<Rightarrow> core set"
    and node :: "'m \<Rightarrow> core \<Rightarrow> 32 word"
  assumes usable_online: "valid m \<Longrightarrow> usable m s \<noteq> {} \<and> usable m s \<subseteq> online m"
    and cores_found: "valid m \<Longrightarrow> \<exists>cs. po_FindAvailableCores (operator m) s = Inr cs \<and>
      core_set cs \<and> set cs = usable m s"
    and nodes_found: "valid m \<Longrightarrow> \<exists>ns s'. po_FindAvailableNumaNodes (operator m) s = Inr (ns, s') \<and>
      usable m s' = usable m s \<and> sorted_wrt nn_less ns \<and>
      nn_GetID ` set ns = node m ` usable m s \<and> (\<forall>n \<in> set ns. n = NUMANode (nn_GetID n) (nn_Cores n) \<and>
        core_set (nn_Cores n) \<and> nn_Cores n \<noteq> [] \<and>
        set (nn_Cores n) = {c \<in> usable m s. node m c = nn_GetID n})"
    and affinity: "valid m \<Longrightarrow> set cs \<inter> online m \<noteq> {} \<Longrightarrow>
      \<exists>s'. po_SetThreadAffinity (operator m) cs s = Inr (True, s') \<and> usable m s' = set cs \<inter> online m"
begin

text \<open>A thread pins itself to a core of the machine.\<close>

lemma pins:
  assumes "valid m" "c \<in> online m"
  shows "\<exists>s'. po_SetThreadAffinity (operator m) [c] s = Inr (True, s') \<and> usable m s' = {c}"
  using affinity [OF assms(1), of "[c]" s] assms(2) by auto

text \<open>It then finds its core, and the node of its core.\<close>

lemma finds_core:
  assumes "valid m" "usable m s = {c}"
  shows "po_FindAvailableCores (operator m) s = Inr [c]"
proof -
  obtain cs where cs: "po_FindAvailableCores (operator m) s = Inr cs" "core_set cs" "set cs = {c}"
    using cores_found [OF assms(1), of s] assms(2) by blast
  from cs(3) obtain d ds where d: "cs = d # ds" "d = c" "set ds \<subseteq> {c}" by (cases cs) auto
  then have "ds = []" using cs(2) by (cases ds) auto
  with cs(1) d show ?thesis by simp
qed

lemma finds_node:
  assumes "valid m" "usable m s = {c}"
  obtains n ns s' where "po_FindAvailableNumaNodes (operator m) s = Inr (n # ns, s')"
    "nn_GetID n = node m c" "usable m s' = {c}"
proof -
  obtain ns s' where ns: "po_FindAvailableNumaNodes (operator m) s = Inr (ns, s')"
      "usable m s' = {c}" "nn_GetID ` set ns = {node m c}"
    using nodes_found [OF assms(1), of s] assms(2) by auto
  from ns(3) obtain n ns' where "ns = n # ns'" by (cases ns) auto
  with that ns show thesis by simp
qed

end

section \<open>The class for Linux keeps it\<close>

interpretation linux: processor_contract
  "\<lambda>(env, aff, online, node). ProcessorLinux env"
  "\<lambda>(env, aff, online, node). os_ok env aff online node"
  "\<lambda>(env, aff, online, node) s. cores_of (aff s)"
  "\<lambda>(env, aff, online, node). cores_of online"
  "\<lambda>(env, aff, online, node) c. node (GetID c)"
proof (unfold_locales; clarsimp simp: ProcessorLinux_def)
  fix env :: "'s os" and aff :: "'s \<Rightarrow> cpu_set" and online :: cpu_set and node :: "32 word \<Rightarrow> 32 word" and s
  assume ok: "os_ok env aff online node"
  have "aff s \<noteq> 0" using os_aff [OF ok] by blast
  then obtain c where "CPU_ISSET c (aff s)" using mask_zero_iff by blast
  then have "Core c \<in> cores_of (aff s)" by (simp add: cores_of_def)
  then show "cores_of (aff s) \<noteq> {} \<and> cores_of (aff s) \<subseteq> cores_of online"
    using aff_online [OF ok] unfolding cores_of_def by blast
next
  fix env :: "'s os" and aff :: "'s \<Rightarrow> cpu_set" and online :: cpu_set and node :: "32 word \<Rightarrow> 32 word" and s
  assume ok: "os_ok env aff online node"
  show "core_set (FindAvailableCores env s) \<and> set (FindAvailableCores env s) = cores_of (aff s)"
    using find_cores [of env s] os_mask [OF ok] by simp
next
  fix env :: "'s os" and aff :: "'s \<Rightarrow> cpu_set" and online :: cpu_set and node :: "32 word \<Rightarrow> 32 word" and s
  assume ok: "os_ok env aff online node"
  obtain ns s' where ns: "FindAvailableNumaNodes env s = (ns, s')" by force
  from search [OF ok ns] obtain nm where nm: "sorted_wrt (<) (map fst nm)"
    "ns = map (\<lambda>(k, v). NUMANode k v) nm" "aff s' = aff s" by blast
  have "sorted_wrt nn_less ns" unfolding nm(2) by (rule nodes_sorted [OF nm(1)])
  moreover have "n = NUMANode (nn_GetID n) (nn_Cores n)" if "n \<in> set ns" for n
    using node_facts(1) [OF ok ns that] by (simp add: NUMANode_def nn_GetID_def nn_Cores_def nn_Empty_def)
  ultimately show "\<exists>ns s'. FindAvailableNumaNodes env s = (ns, s') \<and> cores_of (aff s') = cores_of (aff s) \<and>
      sorted_wrt nn_less ns \<and> nn_GetID ` set ns = (\<lambda>c. node (GetID c)) ` cores_of (aff s) \<and>
      (\<forall>n \<in> set ns. n = NUMANode (nn_GetID n) (nn_Cores n) \<and> core_set (nn_Cores n) \<and>
        nn_Cores n \<noteq> [] \<and> set (nn_Cores n) = {c \<in> cores_of (aff s). node (GetID c) = nn_GetID n})"
    using ns node_facts(2-4) [OF ok ns] found_ids [OF ok ns] nm(3) by auto
next
  fix env :: "'s os" and aff :: "'s \<Rightarrow> cpu_set" and online :: cpu_set and node :: "32 word \<Rightarrow> 32 word"
    and cs s
  assume ok: "os_ok env aff online node" and cs: "set cs \<inter> cores_of online \<noteq> {}"
  obtain r s' where s': "SetThreadAffinity env cs s = (r, s')" by force
  from affinity_set [OF ok s'] cs
  show "\<exists>s'. SetThreadAffinity env cs s = (True, s') \<and> cores_of (aff s') = set cs \<inter> cores_of online"
    by (auto simp: s')
qed

end
