(* ===== verification/WorkerPool_Properties.thy ===== *)
theory WorkerPool_Properties
  imports WorkerPool
begin

text \<open>
  What the worker pool promises: tasks start in the order they were submitted, no wakeup is
  lost, and \<open>Shutdown\<close> always comes to its end; and what it does not promise: that the tasks
  pending at \<open>Shutdown\<close> are run.
\<close>

section \<open>No wakeup is lost\<close>

fun taking :: "'a worker \<Rightarrow> bool" where
  "taking W_Take = True"
| "taking _ = False"

definition awake_inv :: "'a worker_pool \<Rightarrow> bool" where
  "awake_inv p \<longleftrightarrow> (0 < count_if asleep (wp_threads p) \<longrightarrow>
     length (wq_tasks (wp_queue p)) \<le> count_if taking (wp_threads p))"

lemma awake_thread:
  assumes "awake_inv p" "w < length (wp_threads p)"
    "taking (wp_threads p ! w) \<longrightarrow> taking x" "asleep x \<longrightarrow> asleep (wp_threads p ! w)"
  shows "awake_inv (p\<lparr>wp_threads := (wp_threads p)[w := x]\<rparr>)"
  using assms(1,3,4) count_update [OF assms(2), of taking x] count_update [OF assms(2), of asleep x]
  by (auto simp: awake_inv_def split: if_splits)

lemma awake_submit:
  assumes inv: "awake_inv p" and sub: "wp_Submit w t p = Some p'"
  shows "awake_inv p'"
proof -
  from sub obtain ws where ws: "notify_one w (wp_threads p) = Some ws" and
    p': "p' = p\<lparr>wp_queue := wq_Add t (wp_queue p), wp_threads := ws,
      wp_submitted := wp_submitted p @ [t]\<rparr>"
    by (auto simp: wp_Submit_def split: option.splits)
  from ws show ?thesis
  proof (cases rule: notify_cases)
    case nobody
    then show ?thesis by (simp add: p' awake_inv_def)
  next
    case woken
    show ?thesis
      using inv woken count_update [OF woken(1), of taking W_Take]
        count_update [OF woken(1), of asleep W_Take] count_pos [OF woken(1), of asleep]
      by (simp add: p' awake_inv_def wq_Add_def)
  qed
qed

lemma awake_work:
  assumes inv: "awake_inv p" and step: "wp_work w p = Some p'"
  shows "awake_inv p'"
proof -
  have w: "w < length (wp_threads p)"
    using step by (auto simp: wp_work_def split: if_splits)
  show ?thesis
  proof (cases "wp_threads p ! w")
    case W_Take
    show ?thesis
    proof (cases "wq_tasks (wp_queue p)")
      case Nil
      then show ?thesis using step w W_Take by (auto simp: wp_work_def wq_Take_def awake_inv_def)
    next
      case (Cons t ts)
      then show ?thesis
        using inv step w W_Take count_update [OF w, of taking "W_Run t"]
          count_update [OF w, of asleep "W_Run t"]
        by (auto simp: wp_work_def wq_Take_def awake_inv_def)
    qed
  qed (use step w awake_thread [OF inv w] in \<open>auto simp: wp_work_def\<close>)
qed

lemma awake_main:
  assumes inv: "awake_inv p" and step: "wp_main w p = Some p'"
  shows "awake_inv p'"
proof (cases "\<exists>q. wp_Submit w None p = Some q \<and> p' = q\<lparr>wp_shutdown := wp_shutdown p'\<rparr>")
  case True
  then obtain q where q: "wp_Submit w None p = Some q" "p' = q\<lparr>wp_shutdown := wp_shutdown p'\<rparr>"
    by blast
  have "awake_inv (q\<lparr>wp_shutdown := wp_shutdown p'\<rparr>)"
    using awake_submit [OF inv q(1)] by (simp add: awake_inv_def)
  then show ?thesis using q(2) by metis
next
  case False
  then show ?thesis
    using inv step
    by (auto simp: wp_main_def awake_inv_def split: shutdown.splits if_splits option.splits worker.splits)
qed

lemma awake_act:
  assumes inv: "awake_inv p" and step: "wp_act a p = Some p'"
  shows "awake_inv p'"
proof (cases a)
  case (Wake w)
  then show ?thesis
    using step awake_thread [OF inv, of w W_Take] by (auto split: if_splits worker.splits)
qed (use step awake_submit [OF inv] awake_work [OF inv] awake_main [OF inv] in auto)

lemma awake_reachable: "wp_reachable n p \<Longrightarrow> awake_inv p"
  by (induction rule: wp_reachable.induct)
    (simp_all add: awake_act, simp add: awake_inv_def WorkerPool_new_def WorkQueue_new_def)

section \<open>The end of Shutdown\<close>

text \<open>How many steps a worker, and the thread in \<open>Shutdown\<close>, have left once all the empty
  tasks are submitted.\<close>

fun worker_left :: "'a worker \<Rightarrow> nat" where
  "worker_left W_Exit = 0"
| "worker_left W_Check = 1"
| "worker_left W_Start = 2"
| "worker_left (W_Run _) = 2"
| "worker_left W_Take = 3"
| "worker_left W_Wait = 4"

fun main_left :: "nat \<Rightarrow> shutdown \<Rightarrow> nat" where
  "main_left n (S_Join i) = Suc n - i"
| "main_left n _ = 0"

definition steps_left :: "'a worker_pool \<Rightarrow> nat" where
  "steps_left p = sum_list (map worker_left (wp_threads p)) +
     main_left (length (wp_threads p)) (wp_shutdown p)"

fun joining :: "shutdown \<Rightarrow> bool" where
  "joining (S_Join i) = True"
| "joining S_Done = True"
| "joining _ = False"

lemma joining_posted: "joining sh \<Longrightarrow> posted n sh = n \<and> sh \<noteq> S_Idle"
  by (cases sh) auto

lemma joining_awake:
  assumes "wp_inv n p" "joining (wp_shutdown p)"
  shows "\<not> wp_alive p" "count_if asleep (wp_threads p) = 0"
    "w < length (wp_threads p) \<Longrightarrow> wp_threads p ! w \<noteq> W_Wait"
proof -
  show alive: "\<not> wp_alive p" and none: "count_if asleep (wp_threads p) = 0"
    using assms joining_posted [OF assms(2), of n] by (simp_all add: wp_inv_def)
  show "wp_threads p ! w \<noteq> W_Wait" if "w < length (wp_threads p)"
    using none count_pos [OF that, of asleep] by auto
qed

lemma joining_queue:
  assumes inv: "wp_inv n p" and "joining (wp_shutdown p)"
    and w: "w < length (wp_threads p)" "wp_threads p ! w = W_Take"
  shows "wq_tasks (wp_queue p) \<noteq> []"
proof -
  have "count_if past_take (wp_threads p) < length (wp_threads p)"
    using not_past_take [OF w(1)] w(2) by simp
  then show ?thesis
    using inv joining_posted [OF assms(2), of n] by (auto simp: wp_inv_def)
qed

lemma left_work:
  assumes inv: "wp_inv n p" and join: "joining (wp_shutdown p)"
    and w: "w < length (wp_threads p)" "wp_threads p ! w \<noteq> W_Exit"
  obtains p' where "wp_work w p = Some p'" "Suc (steps_left p') = steps_left p"
    "wp_shutdown p' = wp_shutdown p"
proof -
  note alive = joining_awake [OF inv join]
  have "\<exists>x. \<exists>p'. wp_work w p = Some p' \<and> wp_shutdown p' = wp_shutdown p \<and>
      wp_threads p' = (wp_threads p)[w := x] \<and> Suc (worker_left x) = worker_left (wp_threads p ! w)"
  proof (cases "wp_threads p ! w")
    case W_Take
    then obtain t ts where "wq_tasks (wp_queue p) = t # ts"
      using joining_queue [OF inv join w(1)] by (cases "wq_tasks (wp_queue p)") auto
    then show ?thesis
      using w W_Take by (intro exI [of _ "W_Run t"]) (simp add: wp_work_def wq_Take_def)
  next
    case W_Check
    then show ?thesis using alive w by (intro exI [of _ W_Exit]) (simp add: wp_work_def)
  next
    case W_Wait
    then show ?thesis using alive w by simp
  qed (use w in \<open>simp_all add: wp_work_def exI [of _ W_Check]\<close>)
  then obtain x p' where p': "wp_work w p = Some p'" "wp_shutdown p' = wp_shutdown p"
    "wp_threads p' = (wp_threads p)[w := x]" "Suc (worker_left x) = worker_left (wp_threads p ! w)"
    by blast
  have "Suc (steps_left p') = steps_left p"
    using sum_list_map_update [OF w(1), of worker_left x] p' by (simp add: steps_left_def)
  with p' that show thesis by blast
qed

lemma left_main:
  assumes inv: "wp_inv n p" and join: "joining (wp_shutdown p)" and step: "wp_main w p = Some p'"
  shows "joining (wp_shutdown p')" "steps_left p' < steps_left p"
proof -
  obtain i where i: "wp_shutdown p = S_Join i"
    using join step by (cases "wp_shutdown p") (auto simp: wp_main_def)
  then have "i \<le> length (wp_threads p)"
    using inv by (simp add: wp_inv_def)
  then show "joining (wp_shutdown p')" "steps_left p' < steps_left p"
    using i step by (auto simp: wp_main_def steps_left_def split: if_splits worker.splits)
qed

lemma left_submit:
  assumes inv: "wp_inv n p" and join: "joining (wp_shutdown p)" and step: "wp_Submit w t p = Some p'"
  shows "wp_shutdown p' = wp_shutdown p" "steps_left p' = steps_left p"
proof -
  from step obtain ws where ws: "notify_one w (wp_threads p) = Some ws" and
    p': "p' = p\<lparr>wp_queue := wq_Add t (wp_queue p), wp_threads := ws,
      wp_submitted := wp_submitted p @ [t]\<rparr>"
    by (auto simp: wp_Submit_def split: option.splits)
  from ws have "ws = wp_threads p"
    using joining_awake(3) [OF inv join] by (cases rule: notify_cases) auto
  then show "wp_shutdown p' = wp_shutdown p" "steps_left p' = steps_left p"
    by (simp_all add: p' steps_left_def)
qed

text \<open>The actions that are a step of the pool, and not the arrival of a task or a wakeup.\<close>

fun own_step :: "'a wp_action \<Rightarrow> bool" where
  "own_step (Work _) = True"
| "own_step (Main _) = True"
| "own_step _ = False"

lemma left_act:
  assumes inv: "wp_inv n p" and join: "joining (wp_shutdown p)" and step: "wp_act a p = Some p'"
  shows "joining (wp_shutdown p') \<and>
    (if own_step a then steps_left p' < steps_left p else steps_left p' \<le> steps_left p)"
proof (cases a)
  case (Submit w t)
  then show ?thesis using left_submit [OF inv join] step join by simp
next
  case (Work w)
  then have w: "w < length (wp_threads p)" "wp_threads p ! w \<noteq> W_Exit"
    using step by (auto simp: wp_work_def split: if_splits worker.splits)
  from left_work [OF inv join w] Work step join show ?thesis
    by simp (metis lessI option.inject)
next
  case (Wake w)
  then show ?thesis
    using step joining_awake(3) [OF inv join] by (auto split: if_splits worker.splits)
next
  case (Main w)
  then show ?thesis using left_main [OF inv join] step by simp
qed

lemma left_zero:
  assumes "wp_inv n p" "joining (wp_shutdown p)"
  shows "steps_left p = 0 \<longleftrightarrow> wp_shutdown p = S_Done"
proof
  assume "wp_shutdown p = S_Done"
  then have "\<forall>x \<in> set (wp_threads p). worker_left x = 0"
    using assms(1) by (auto simp: wp_inv_def in_set_conv_nth)
  then show "steps_left p = 0"
    using \<open>wp_shutdown p = S_Done\<close> by (simp add: steps_left_def)
next
  assume "steps_left p = 0"
  then show "wp_shutdown p = S_Done"
    using assms by (cases "wp_shutdown p") (auto simp: steps_left_def wp_inv_def)
qed

lemma left_bound: "sum_list (map worker_left ws) \<le> 4 * length ws"
proof (induction ws)
  case (Cons x ws)
  then show ?case by (cases x) simp_all
qed simp

text \<open>Until \<open>Shutdown\<close> has returned, some thread can go on.\<close>

lemma joining_enabled:
  assumes inv: "wp_inv n p" and join: "joining (wp_shutdown p)" "wp_shutdown p \<noteq> S_Done"
  shows "\<exists>a p'. own_step a \<and> wp_act a p = Some p'"
proof (cases "\<exists>w < length (wp_threads p). wp_threads p ! w \<noteq> W_Exit")
  case True
  then obtain w where w: "w < length (wp_threads p)" "wp_threads p ! w \<noteq> W_Exit" by blast
  obtain p' where "wp_work w p = Some p'"
    using left_work [OF inv join(1) w] by blast
  then show ?thesis by (intro exI [of _ "Work w"] exI [of _ p']) simp
next
  case False
  from join obtain i where "wp_shutdown p = S_Join i" by (cases "wp_shutdown p") auto
  with False have "\<exists>p'. wp_main 0 p = Some p'" by (auto simp: wp_main_def split: worker.splits)
  then show ?thesis using own_step.simps(2) wp_act.simps(4) by metis
qed

lemma joining_finishes:
  assumes "wp_inv n p" "joining (wp_shutdown p)"
  shows "\<exists>as p'. wp_exec as p = Some p' \<and> list_all own_step as \<and> wp_shutdown p' = S_Done"
  using assms
proof (induction "steps_left p" arbitrary: p rule: less_induct)
  case less
  show ?case
  proof (cases "wp_shutdown p = S_Done")
    case True
    then show ?thesis by (intro exI [of _ "[]"] exI [of _ p]) simp
  next
    case False
    then obtain a q where a: "own_step a" "wp_act a p = Some q"
      using joining_enabled [OF less.prems] by blast
    have q: "joining (wp_shutdown q)" "steps_left q < steps_left p"
      using left_act [OF less.prems a(2)] a(1) by simp_all
    obtain as p' where "wp_exec as q = Some p'" "list_all own_step as" "wp_shutdown p' = S_Done"
      using less.hyps [OF q(2) inv_act [OF less.prems(1) a(2)] q(1)] by blast
    then show ?thesis using a by (intro exI [of _ "a # as"] exI [of _ p']) simp
  qed
qed

text \<open>The loop that submits the empty tasks never waits.\<close>

lemma notify_some: "\<exists>w ws'. notify_one w ws = Some ws'"
proof (cases "W_Wait \<in> set ws")
  case True
  then obtain w where "w < length ws" "ws ! w = W_Wait" by (auto simp: in_set_conv_nth)
  then show ?thesis by (intro exI [of _ w]) (simp add: notify_one_def)
next
  case False
  then have "list_all (\<lambda>x. case x of W_Wait \<Rightarrow> False | _ \<Rightarrow> True) ws"
    by (auto simp: list_all_iff split: worker.splits)
  then show ?thesis by (simp add: notify_one_def)
qed

lemma adding_step:
  assumes "wp_shutdown p = S_Add i" "i < length (wp_threads p)"
  shows "\<exists>w p'. wp_main w p = Some p' \<and> wp_shutdown p' = S_Add (Suc i)"
proof -
  obtain w ws where "notify_one w (wp_threads p) = Some ws"
    using notify_some by blast
  with assms show ?thesis by (intro exI [of _ w]) (simp add: wp_main_def wp_Submit_def)
qed

lemma adding_finishes:
  assumes "wp_inv n p" "wp_shutdown p = S_Add i"
  shows "\<exists>as p'. wp_exec as p = Some p' \<and> list_all own_step as \<and> wp_inv n p' \<and> wp_shutdown p' = S_Join 0"
  using assms
proof (induction "n - i" arbitrary: p i)
  case 0
  then have "\<not> i < length (wp_threads p)" by (simp add: wp_inv_def)
  with 0 have "wp_act (Main 0) p = Some (p\<lparr>wp_shutdown := S_Join 0\<rparr>)"
    by (simp add: wp_main_def)
  with inv_act [OF 0(2) this] show ?case
    by (intro exI [of _ "[Main 0]"] exI [of _ "p\<lparr>wp_shutdown := S_Join 0\<rparr>"]) simp
next
  case (Suc m)
  then have "i < length (wp_threads p)" by (simp add: wp_inv_def)
  then obtain w q where q: "wp_act (Main w) p = Some q" "wp_shutdown q = S_Add (Suc i)"
    using adding_step [OF Suc.prems(2)] by auto
  have "m = n - Suc i" using Suc.hyps(2) by simp
  from Suc.hyps(1) [OF this inv_act [OF Suc.prems(1) q(1)] q(2)]
  obtain as p' where "wp_exec as q = Some p'" "list_all own_step as" "wp_inv n p'" "wp_shutdown p' = S_Join 0" by blast
  with q(1) show ?case by (intro exI [of _ "Main w # as"] exI [of _ p']) simp
qed

lemma wp_exec_append:
  "wp_exec (as @ bs) p = (case wp_exec as p of None \<Rightarrow> None | Some q \<Rightarrow> wp_exec bs q)"
  by (induction as arbitrary: p) (auto split: option.splits)

lemma shutdown_finishes:
  assumes inv: "wp_inv n p"
  shows "\<exists>as p'. wp_exec as p = Some p' \<and> list_all own_step as \<and> wp_shutdown p' = S_Done"
proof -
  have add: "\<exists>as p'. wp_exec as q = Some p' \<and> list_all own_step as \<and> wp_shutdown p' = S_Done"
    if q: "wp_inv n q" "wp_shutdown q = S_Add i" for q i
  proof -
    obtain as r where r: "wp_exec as q = Some r" "list_all own_step as" "wp_inv n r" "wp_shutdown r = S_Join 0"
      using adding_finishes [OF q] by blast
    obtain bs p' where "wp_exec bs r = Some p'" "list_all own_step bs" "wp_shutdown p' = S_Done"
      using joining_finishes [OF r(3)] r(4) by auto
    with r(1,2) show ?thesis
      by (intro exI [of _ "as @ bs"] exI [of _ p']) (simp add: wp_exec_append)
  qed
  show ?thesis
  proof (cases "wp_shutdown p")
    case S_Idle
    then obtain q where q: "wp_act (Main 0) p = Some q" "wp_shutdown q = S_Add 0"
      by (simp add: wp_main_def)
    obtain as p' where "wp_exec as q = Some p'" "list_all own_step as" "wp_shutdown p' = S_Done"
      using add [OF inv_act [OF inv q(1)] q(2)] by blast
    with q(1) show ?thesis by (intro exI [of _ "Main 0 # as"] exI [of _ p']) simp
  next
    case (S_Add i)
    then show ?thesis by (rule add [OF inv])
  qed (use joining_finishes [OF inv] in auto)
qed

text \<open>After \<open>Shutdown\<close> nothing is started.\<close>

lemma stopped_act:
  assumes inv: "wp_inv n p" and done': "wp_shutdown p = S_Done" and step: "wp_act a p = Some p'"
  shows "wp_started p' = wp_started p \<and> wp_shutdown p' = S_Done"
proof -
  have exited: "wp_threads p ! w = W_Exit" if "w < length (wp_threads p)" for w
    using inv done' that by (simp add: wp_inv_def)
  show ?thesis
  proof (cases a)
    case (Submit w t)
    then show ?thesis using step done' by (auto simp: wp_Submit_def split: option.splits)
  qed (use step done' exited in \<open>auto simp: wp_work_def wp_main_def split: if_splits\<close>)
qed

lemma stopped:
  "wp_inv n p \<Longrightarrow> wp_shutdown p = S_Done \<Longrightarrow> wp_exec as p = Some p' \<Longrightarrow>
     wp_started p' = wp_started p \<and> wp_shutdown p' = S_Done"
proof (induction as arbitrary: p)
  case (Cons a as)
  then obtain r where r: "wp_act a p = Some r" "wp_exec as r = Some p'"
    by (auto split: option.splits)
  from stopped_act [OF Cons.prems(1,2) r(1)] Cons.IH [OF inv_act [OF Cons.prems(1) r(1)] _ r(2)]
  show ?case by simp
qed simp

section \<open>Tasks are run\<close>

text \<open>What the workers have left to do until they all look at an empty queue.\<close>

fun to_take :: "'a worker \<Rightarrow> nat" where
  "to_take W_Check = 1"
| "to_take W_Start = 2"
| "to_take (W_Run _) = 2"
| "to_take _ = 0"

definition work_left :: "'a worker_pool \<Rightarrow> nat" where
  "work_left p = sum_list (map to_take (wp_threads p)) + 3 * length (wq_tasks (wp_queue p))"

lemma work_left_step:
  assumes inv: "wp_inv n p" "awake_inv p" and alive: "wp_alive p" "0 < n" and left: "0 < work_left p"
  shows "\<exists>w p'. wp_work w p = Some p' \<and> work_left p' < work_left p \<and> wp_alive p'"
proof (cases "\<exists>w < length (wp_threads p). 0 < to_take (wp_threads p ! w)")
  case True
  then obtain w where w: "w < length (wp_threads p)" "0 < to_take (wp_threads p ! w)" by blast
  then show ?thesis
    using alive(1) sum_list_map_update [OF w(1), of to_take W_Check] sum_list_map_update [OF w(1), of to_take W_Take]
    by (intro exI [of _ w]) (cases "wp_threads p ! w", auto simp: wp_work_def work_left_def)
next
  case False
  then have idle: "\<forall>x \<in> set (wp_threads p). to_take x = 0" by (auto simp: in_set_conv_nth)
  then have "sum_list (map to_take (wp_threads p)) = 0" by (simp add: sum_list_eq_0_iff)
  with left have queue: "wq_tasks (wp_queue p) \<noteq> []" unfolding work_left_def by simp
  have exit: "W_Exit \<notin> set (wp_threads p)" using inv(1) alive(1) by (simp add: wp_inv_def)
  have "W_Take \<in> set (wp_threads p)"
  proof (rule ccontr)
    assume none: "W_Take \<notin> set (wp_threads p)"
    have "x = W_Wait" if "x \<in> set (wp_threads p)" for x
      using bspec [OF idle that] exit none that by (cases x) auto
    then have wait: "\<forall>x \<in> set (wp_threads p). x = W_Wait" by blast
    moreover have "wp_threads p \<noteq> []" using inv(1) alive(2) by (auto simp: wp_inv_def)
    ultimately have "W_Wait \<in> set (wp_threads p)" by (cases "wp_threads p") auto
    then have "0 < count_if asleep (wp_threads p)"
      by (auto simp: count_if_def filter_empty_conv intro!: bexI [of _ W_Wait])
    moreover have "count_if taking (wp_threads p) = 0"
      using wait by (auto simp: count_if_def filter_empty_conv)
    ultimately show False using inv(2) queue by (simp add: awake_inv_def)
  qed
  then obtain w where w: "w < length (wp_threads p)" "wp_threads p ! w = W_Take"
    by (auto simp: in_set_conv_nth)
  from queue obtain t ts where "wq_tasks (wp_queue p) = t # ts" by (cases "wq_tasks (wp_queue p)") auto
  then show ?thesis
    using w alive(1) sum_list_map_update [OF w(1), of to_take "W_Run t"]
    by (intro exI [of _ w]) (auto simp: wp_work_def wq_Take_def work_left_def)
qed

lemma work_drains:
  assumes "wp_inv n p" "awake_inv p" "wp_alive p" "0 < n"
  shows "\<exists>ws p'. wp_exec (map Work ws) p = Some p' \<and> work_left p' = 0"
  using assms
proof (induction "work_left p" arbitrary: p rule: less_induct)
  case less
  show ?case
  proof (cases "work_left p = 0")
    case True
    then show ?thesis by (intro exI [of _ "[]"] exI [of _ p]) simp
  next
    case False
    then obtain w q where q: "wp_work w p = Some q" "work_left q < work_left p" "wp_alive q"
      using work_left_step [OF less.prems(1-4)] by blast
    have "wp_inv n q" "awake_inv q"
      using inv_work [OF less.prems(1) q(1)] awake_work [OF less.prems(2) q(1)] .
    from less.hyps [OF q(2) this q(3) less.prems(4)] obtain ws p' where
      "wp_exec (map Work ws) q = Some p'" "work_left p' = 0" by blast
    with q(1) show ?thesis by (intro exI [of _ "w # ws"] exI [of _ p']) simp
  qed
qed

lemma work_left_zero:
  assumes "work_left p = 0"
  shows "wq_tasks (wp_queue p) = []" "\<forall>t. W_Run t \<notin> set (wp_threads p)"
  using assms by (auto simp: work_left_def dest: bspec)

section \<open>Properties\<close>

text \<open>C12: in any execution, with any number of threads that submit, the workers start the tasks
  in the order they were submitted, each at most once, and a task that is not started is still
  in the queue.\<close>

theorem worker_pool_order:
  assumes "wp_reachable n p"
  shows "wp_started p @ wq_tasks (wp_queue p) = wp_submitted p \<and>
    wp_started p = take (length (wp_started p)) (wp_submitted p) \<and>
    (wp_HasWork p \<longleftrightarrow> wp_started p \<noteq> wp_submitted p) \<and> wp_Size p = n"
proof -
  have all: "wp_started p @ wq_tasks (wp_queue p) = wp_submitted p" and n: "wp_Size p = n"
    using inv_reachable [OF assms] by (simp_all add: wp_inv_def wp_Size_def)
  have "wp_started p = take (length (wp_started p)) (wp_submitted p)"
    by (simp add: all [symmetric])
  moreover have "wp_HasWork p \<longleftrightarrow> wp_started p \<noteq> wp_submitted p"
    by (simp add: all [symmetric] wp_HasWork_def wq_HasWork_def)
  ultimately show ?thesis using all n by simp
qed

text \<open>A run of one worker: it takes a task, another is submitted while the first runs, and
  the pool is shut down.\<close>

definition drop_run :: "nat wp_action list" where
  "drop_run = [Work 0, Work 0, Submit 0 7, Work 0, Submit 0 8, Main 0, Main 0, Main 0,
     Work 0, Work 0, Main 0, Main 0]"

definition drop_mid :: "nat worker_pool" where
  "drop_mid = \<lparr>wp_queue = \<lparr>wq_tasks = [Some 8, None]\<rparr>, wp_alive = False,
     wp_threads = [W_Run (Some 7)], wp_shutdown = S_Join 0,
     wp_submitted = [Some 7, Some 8, None], wp_started = [Some 7]\<rparr>"

lemma drop_mid_run: "wp_exec (take 8 drop_run) (WorkerPool_new 1) = Some drop_mid"
  by code_simp

lemma drop_mid_reachable: "wp_reachable 1 drop_mid"
  by (rule wp_exec_reachable [OF wp_reachable.wp_start drop_mid_run])

theorem worker_pool_order_witness:
  "wp_started drop_mid @ wq_tasks (wp_queue drop_mid) = wp_submitted drop_mid"
  by (rule worker_pool_order [OF drop_mid_reachable, THEN conjunct1])

text \<open>C20: no wakeup is lost: as long as a worker waits, every pending task has a worker that is
  awake and about to look at the queue; so a pool with a task pending never has all of its
  workers waiting.\<close>

theorem worker_pool_no_lost_wakeup:
  assumes "wp_reachable n p" "W_Wait \<in> set (wp_threads p)"
  shows "length (wq_tasks (wp_queue p)) \<le> length (filter taking (wp_threads p))"
proof -
  from assms(2) have "0 < count_if asleep (wp_threads p)"
    by (auto simp: count_if_def filter_empty_conv intro!: bexI [of _ W_Wait])
  with awake_reachable [OF assms(1)] show ?thesis by (simp add: awake_inv_def count_if_def)
qed

definition wake_mid :: "nat worker_pool" where
  "wake_mid = \<lparr>wp_queue = \<lparr>wq_tasks = [Some 7]\<rparr>, wp_alive = True,
     wp_threads = [W_Wait, W_Take], wp_shutdown = S_Idle,
     wp_submitted = [Some 7], wp_started = []\<rparr>"

lemma wake_mid_run:
  "wp_exec [Work 0, Work 0, Work 0, Work 1, Work 1, Work 1, Submit 1 7] (WorkerPool_new 2) =
    Some wake_mid"
  by code_simp

theorem worker_pool_no_lost_wakeup_witness:
  "length (wq_tasks (wp_queue wake_mid)) \<le> length (filter taking (wp_threads wake_mid))"
  by (rule worker_pool_no_lost_wakeup
    [OF wp_exec_reachable [OF wp_reachable.wp_start wake_mid_run]]) (simp add: wake_mid_def)

text \<open>C5: once \<open>Shutdown\<close> has submitted its empty tasks, every step of a worker and of
  \<open>Shutdown\<close> brings the end nearer, no arrival of a task and no wakeup moves it away, and
  until \<open>Shutdown\<close> has returned some thread can make such a step: it always returns.\<close>

theorem worker_pool_shutdown_progress:
  assumes "wp_reachable n p" "joining (wp_shutdown p)"
  shows "steps_left p \<le> 5 * n + 1 \<and>
    (wp_shutdown p \<noteq> S_Done \<longrightarrow> (\<exists>a p'. own_step a \<and> wp_act a p = Some p')) \<and>
    (\<forall>a p'. wp_act a p = Some p' \<longrightarrow> joining (wp_shutdown p') \<and>
      (if own_step a then steps_left p' < steps_left p else steps_left p' \<le> steps_left p))"
proof -
  note inv = inv_reachable [OF assms(1)]
  have "sum_list (map worker_left (wp_threads p)) \<le> 4 * n"
    using left_bound [of "wp_threads p"] inv by (simp add: wp_inv_def)
  moreover have "main_left n (wp_shutdown p) \<le> Suc n"
    by (cases "wp_shutdown p") simp_all
  moreover have "length (wp_threads p) = n" using inv by (simp add: wp_inv_def)
  ultimately have "steps_left p \<le> 5 * n + 1" by (simp add: steps_left_def)
  then show ?thesis
    using joining_enabled [OF inv assms(2)] left_act [OF inv assms(2)] by blast
qed

theorem worker_pool_shutdown_progress_witness:
  "steps_left drop_mid \<le> 6 \<and> (\<exists>a p'. own_step a \<and> wp_act a drop_mid = Some p')"
  using worker_pool_shutdown_progress [OF drop_mid_reachable] by (simp add: drop_mid_def)

text \<open>From every state of the pool \<open>Shutdown\<close> can come to its end, and when it has returned,
  all workers have ended, no task is running, and no task submitted later is ever run.\<close>

lemma worker_pool_shutdown_completes:
  assumes "wp_reachable n p"
  shows "(\<exists>as p'. wp_exec as p = Some p' \<and> wp_shutdown p' = S_Done) \<and>
    (wp_shutdown p = S_Done \<longrightarrow> wp_threads p = replicate n W_Exit \<and>
      (\<forall>as p'. wp_exec as p = Some p' \<longrightarrow> wp_started p' = wp_started p))"
proof -
  note inv = inv_reachable [OF assms]
  have "wp_started p' = wp_started p" if "wp_exec as p = Some p'" "wp_shutdown p = S_Done" for as p'
    using stopped [OF inv that(2,1)] by simp
  moreover have "wp_threads p = replicate n W_Exit" if "wp_shutdown p = S_Done"
    using inv that by (auto simp: wp_inv_def intro: nth_equalityI)
  ultimately show ?thesis using shutdown_finishes [OF inv] inv by blast
qed

text \<open>A task that is pending when \<open>Shutdown\<close> is called need not be run: the worker that
  runs the first task sees that the pool is not alive, ends, and \<open>Shutdown\<close> returns with the
  second task in the queue.\<close>

lemma worker_pool_shutdown_drops:
  "map_option (\<lambda>p. (wp_shutdown p, wp_threads p, wp_started p, wq_tasks (wp_queue p), wp_HasWork p))
     (wp_exec drop_run (WorkerPool_new 1)) =
   Some (S_Done, [W_Exit], [Some 7], [Some 8, None], True)"
  by code_simp

end
