(* ===== verification/Futures.thy ===== *)
theory Futures
  imports WorkerPool_Properties
begin

text \<open>
  Tasks with a result: the \<open>Submit\<close> of \<open>src/WorkerPool.h\<close> that makes a promise, gives its
  future to the caller and submits a task that computes the result and sets the promise. The
  tasks of the worker pool now have a body: a function on the state \<open>'e\<close> of the program,
  executed in one step. As in C++ a body may ask for the thread it runs in, so it also gets the
  number of the worker.
\<close>

section \<open>The model\<close>

text \<open>\<open>Compute k f\<close> is \<open>threadTask\<close> with its captures: promise \<open>k\<close> and the call of the
  task on its arguments.\<close>

datatype ('e, 'r) task = Effect "nat \<Rightarrow> 'e \<Rightarrow> 'e" | Compute nat "nat \<Rightarrow> 'e \<Rightarrow> 'r \<times> 'e"

text \<open>A promise is its shared state, in the order the promises were made; a future is the number of
  its promise. \<open>fu_thrown\<close> records that a promise was set twice, which throws. \<open>fu_finished\<close>
  is no part of the program: it lists the results in the order they were set. \<open>fu_start\<close> is what
  \<open>startThread\<close> does before its loop, for each worker.\<close>

record ('e, 'r) future_pool =
  fu_pool :: "('e, 'r) task worker_pool"
  fu_start :: "nat \<Rightarrow> 'e \<Rightarrow> 'e"
  fu_env :: 'e
  fu_promises :: "'r option list"
  fu_thrown :: bool
  fu_finished :: "(nat \<times> 'r) list"

definition fu_new :: "(nat \<Rightarrow> 'e \<Rightarrow> 'e) \<Rightarrow> nat \<Rightarrow> 'e \<Rightarrow> ('e, 'r) future_pool" where
  "fu_new start n e = \<lparr>fu_pool = WorkerPool_new n, fu_start = start, fu_env = e, fu_promises = [],
     fu_thrown = False, fu_finished = []\<rparr>"

definition make_promise :: "('e, 'r) future_pool \<Rightarrow> nat \<times> ('e, 'r) future_pool" where
  "make_promise s = (length (fu_promises s), s\<lparr>fu_promises := fu_promises s @ [None]\<rparr>)"

definition set_value :: "nat \<Rightarrow> 'r \<Rightarrow> ('e, 'r) future_pool \<Rightarrow> ('e, 'r) future_pool" where
  "set_value k r s =
     (if fu_promises s ! k = None
      then s\<lparr>fu_promises := (fu_promises s)[k := Some r], fu_finished := fu_finished s @ [(k, r)]\<rparr>
      else s\<lparr>fu_thrown := True\<rparr>)"

fun run_task :: "nat \<Rightarrow> ('e, 'r) task \<Rightarrow> ('e, 'r) future_pool \<Rightarrow> ('e, 'r) future_pool" where
  "run_task w (Effect f) s = s\<lparr>fu_env := f w (fu_env s)\<rparr>"
| "run_task w (Compute k f) s =
     (case f w (fu_env s) of (r, e) \<Rightarrow> set_value k r (s\<lparr>fu_env := e\<rparr>))"

definition fu_lift ::
    "(('e, 'r) task worker_pool \<Rightarrow> ('e, 'r) task worker_pool option) \<Rightarrow> ('e, 'r) future_pool \<Rightarrow>
     ('e, 'r) future_pool option" where
  "fu_lift step s = map_option (\<lambda>p. s\<lparr>fu_pool := p\<rparr>) (step (fu_pool s))"

definition Submit_result ::
    "nat \<Rightarrow> (nat \<Rightarrow> 'e \<Rightarrow> 'r \<times> 'e) \<Rightarrow> ('e, 'r) future_pool \<Rightarrow> ('e, 'r) future_pool option" where
  "Submit_result w f s =
     (case make_promise s of (k, s') \<Rightarrow> fu_lift (wp_Submit w (Some (Compute k f))) s')"

text \<open>What a worker does to the state of the program in its next step: it starts, or it is in a
  task that is not an empty one, or nothing.\<close>

definition worker_body :: "nat \<Rightarrow> ('e, 'r) future_pool \<Rightarrow> ('e, 'r) future_pool" where
  "worker_body w s =
     (if w < length (wp_threads (fu_pool s)) then
        (case wp_threads (fu_pool s) ! w of
           W_Start \<Rightarrow> s\<lparr>fu_env := fu_start s w (fu_env s)\<rparr>
         | W_Run (Some task) \<Rightarrow> run_task w task s
         | _ \<Rightarrow> s)
      else s)"

datatype ('e, 'r) fu_action =
    FSubmit nat "nat \<Rightarrow> 'e \<Rightarrow> 'e"
  | FSubmitResult nat "nat \<Rightarrow> 'e \<Rightarrow> 'r \<times> 'e"
  | FWork nat
  | FWake nat
  | FMain nat

fun fu_act :: "('e, 'r) fu_action \<Rightarrow> ('e, 'r) future_pool \<Rightarrow> ('e, 'r) future_pool option" where
  "fu_act (FSubmit w f) s = fu_lift (wp_act (Submit w (Effect f))) s"
| "fu_act (FSubmitResult w f) s = Submit_result w f s"
| "fu_act (FWork w) s = fu_lift (wp_act (Work w)) (worker_body w s)"
| "fu_act (FWake w) s = fu_lift (wp_act (Wake w)) s"
| "fu_act (FMain w) s = fu_lift (wp_act (Main w)) s"

fun fu_exec :: "('e, 'r) fu_action list \<Rightarrow> ('e, 'r) future_pool \<Rightarrow> ('e, 'r) future_pool option" where
  "fu_exec [] s = Some s"
| "fu_exec (a # as) s = (case fu_act a s of None \<Rightarrow> None | Some s' \<Rightarrow> fu_exec as s')"

text \<open>\<open>future.get()\<close>: \<open>None\<close> while it has to wait.\<close>

definition fu_get :: "nat \<Rightarrow> ('e, 'r) future_pool \<Rightarrow> 'r option" where
  "fu_get k s = (if k < length (fu_promises s) then fu_promises s ! k else None)"

inductive fu_reachable :: "(nat \<Rightarrow> 'e \<Rightarrow> 'e) \<Rightarrow> nat \<Rightarrow> 'e \<Rightarrow> ('e, 'r) future_pool \<Rightarrow> bool"
  for start :: "nat \<Rightarrow> 'e \<Rightarrow> 'e" and n :: nat and e :: 'e where
  fu_begin: "fu_reachable start n e (fu_new start n e)"
| fu_do: "fu_reachable start n e s \<Longrightarrow> fu_act a s = Some s' \<Longrightarrow> fu_reachable start n e s'"

lemma fu_exec_reachable:
  "fu_reachable start n e s \<Longrightarrow> fu_exec as s = Some s' \<Longrightarrow> fu_reachable start n e s'"
  by (induction as arbitrary: s) (auto split: option.splits intro: fu_reachable.fu_do)

text \<open>
  What \<open>get\<close> gives when the pool is destroyed, for each future: \<open>~WorkerPool\<close> calls
  \<open>Shutdown\<close>, and then the queue is destroyed with its tasks. A task has the last reference
  to its promise, whose destructor stores the error \<open>broken_promise\<close> in it if it was not set.
\<close>

datatype 'r outcome = Value 'r | BrokenPromise | Waiting

definition queued_promises :: "('e, 'r) future_pool \<Rightarrow> nat list" where
  "queued_promises s =
     concat (map (\<lambda>t. case t of Some (Compute k f) \<Rightarrow> [k] | _ \<Rightarrow> []) (wq_tasks (wp_queue (fu_pool s))))"

definition destroy_pool :: "('e, 'r) future_pool \<Rightarrow> 'r outcome list" where
  "destroy_pool s =
     map (\<lambda>k. case fu_promises s ! k of
            Some r \<Rightarrow> Value r
          | None \<Rightarrow> if k \<in> set (queued_promises s) then BrokenPromise else Waiting)
       [0..<length (fu_promises s)]"

section \<open>The pool below\<close>

text \<open>Without the bodies of the tasks this is the machine of the worker pool.\<close>

lemma run_task_pool [simp]: "fu_pool (run_task w t s) = fu_pool s"
  by (cases t) (auto simp: set_value_def split: prod.splits)

lemma worker_body_pool [simp]: "fu_pool (worker_body w s) = fu_pool s"
  by (auto simp: worker_body_def split: worker.splits option.splits)

lemma fu_lift_Some: "fu_lift step s = Some s' \<longleftrightarrow> (\<exists>p. step (fu_pool s) = Some p \<and> s' = s\<lparr>fu_pool := p\<rparr>)"
  by (auto simp: fu_lift_def)

fun fu_below :: "nat \<Rightarrow> ('e, 'r) fu_action \<Rightarrow> ('e, 'r) task wp_action" where
  "fu_below k (FSubmit w f) = Submit w (Effect f)"
| "fu_below k (FSubmitResult w f) = Submit w (Compute k f)"
| "fu_below k (FWork w) = Work w"
| "fu_below k (FWake w) = Wake w"
| "fu_below k (FMain w) = Main w"

lemma fu_act_below:
  "fu_act a s = Some s' \<Longrightarrow> wp_act (fu_below (length (fu_promises s)) a) (fu_pool s) = Some (fu_pool s')"
  by (cases a) (auto simp: fu_lift_Some Submit_result_def make_promise_def
      split: option.splits if_splits worker.splits)

lemma fu_pool_reachable: "fu_reachable start n e s \<Longrightarrow> wp_reachable n (fu_pool s)"
proof (induction rule: fu_reachable.induct)
  case fu_begin
  then show ?case by (simp add: fu_new_def wp_reachable.wp_start)
next
  case (fu_do s a s')
  then show ?case using fu_act_below wp_reachable.wp_step by blast
qed

section \<open>Which promises are set\<close>

text \<open>The numbers of the promises of tasks, in order, and of the tasks that are running.\<close>

fun promise_of :: "('e, 'r) task option \<Rightarrow> nat list" where
  "promise_of (Some (Compute k f)) = [k]"
| "promise_of _ = []"

fun promise_in :: "('e, 'r) task worker \<Rightarrow> nat list" where
  "promise_in (W_Run t) = promise_of t"
| "promise_in _ = []"

definition promises :: "('e, 'r) task option list \<Rightarrow> nat list" where
  "promises ts = concat (map promise_of ts)"

definition busy_promises :: "('e, 'r) task worker list \<Rightarrow> nat multiset" where
  "busy_promises ws = mset (concat (map promise_in ws))"

lemma promises_simps [simp]:
  "promises [] = []" "promises (ts @ us) = promises ts @ promises us" "promises [t] = promise_of t"
  by (simp_all add: promises_def)

lemma busy_promises_update:
  "w < length ws \<Longrightarrow> busy_promises (ws[w := x]) + mset (promise_in (ws ! w)) =
     busy_promises ws + mset (promise_in x)"
  unfolding busy_promises_def by (rule mset_concat_update)

definition fu_inv :: "('e, 'r) future_pool \<Rightarrow> bool" where
  "fu_inv s \<longleftrightarrow> \<not> fu_thrown s \<and>
     promises (wp_submitted (fu_pool s)) = [0..<length (fu_promises s)] \<and>
     mset (map fst (fu_finished s)) + busy_promises (wp_threads (fu_pool s)) =
       mset (promises (wp_started (fu_pool s))) \<and>
     (\<forall>k < length (fu_promises s). \<forall>r. fu_promises s ! k = Some r \<longleftrightarrow> (k, r) \<in> set (fu_finished s)) \<and>
     (\<forall>k r. (k, r) \<in> set (fu_finished s) \<longrightarrow>
        (\<exists>f w e. Some (Compute k f) \<in> set (wp_started (fu_pool s)) \<and> r = fst (f w e))) \<and>
     (\<forall>w \<in> set (wp_threads (fu_pool s)). \<forall>t. w = W_Run t \<longrightarrow> t \<in> set (wp_started (fu_pool s)))"

lemma fu_inv_promises: "fu_inv s \<Longrightarrow> promises (wp_submitted (fu_pool s)) = [0..<length (fu_promises s)]"
  and fu_inv_started: "fu_inv s \<Longrightarrow>
    mset (map fst (fu_finished s)) + busy_promises (wp_threads (fu_pool s)) =
      mset (promises (wp_started (fu_pool s)))"
  and fu_inv_finished: "fu_inv s \<Longrightarrow> (k, r) \<in> set (fu_finished s) \<Longrightarrow>
    \<exists>f w e. Some (Compute k f) \<in> set (wp_started (fu_pool s)) \<and> r = fst (f w e)"
  by (simp_all add: fu_inv_def)

text \<open>What a step of the pool does to tasks: nothing but submit, or a worker starts a task, or a
  worker ends one.\<close>

definition runs :: "'a worker list \<Rightarrow> 'a option set" where
  "runs ws = {t. W_Run t \<in> set ws}"

lemma runs_update: "runs (ws[w := x]) \<subseteq> runs ws \<union> {t. x = W_Run t}"
  using set_update_subset_insert [of ws w x] by (auto simp: runs_def)

definition quiet :: "('e, 'r) task worker_pool \<Rightarrow> ('e, 'r) task worker_pool \<Rightarrow> bool" where
  "quiet p p' \<longleftrightarrow> wp_started p' = wp_started p \<and>
     busy_promises (wp_threads p') = busy_promises (wp_threads p) \<and>
     runs (wp_threads p') \<subseteq> runs (wp_threads p)"

lemma quiet_update:
  assumes "w < length (wp_threads p)" "promise_in (wp_threads p ! w) = []" "promise_in x = []" "\<forall>t. x \<noteq> W_Run t"
  shows "quiet p (p\<lparr>wp_threads := (wp_threads p)[w := x]\<rparr>)"
  using busy_promises_update [OF assms(1), of x] runs_update [of "wp_threads p" w x] assms(2-4)
  by (auto simp: quiet_def)

lemma quiet_submit:
  assumes "wp_Submit w t p = Some p'"
  shows "quiet p p' \<and> wp_submitted p' = wp_submitted p @ [t]"
proof -
  from assms obtain ws where ws: "notify_one w (wp_threads p) = Some ws" and
    p': "p' = p\<lparr>wp_queue := wq_Add t (wp_queue p), wp_threads := ws,
      wp_submitted := wp_submitted p @ [t]\<rparr>"
    by (auto simp: wp_Submit_def split: option.splits)
  from ws show ?thesis
  proof (cases rule: notify_cases)
    case nobody
    then show ?thesis by (simp add: p' quiet_def)
  next
    case woken
    then show ?thesis using quiet_update [of w p W_Take] by (simp add: p' quiet_def)
  qed
qed

lemma quiet_main:
  assumes "wp_main w p = Some p'"
  shows "quiet p p' \<and> promises (wp_submitted p') = promises (wp_submitted p)"
proof (cases "\<exists>q sh. wp_Submit w None p = Some q \<and> p' = q\<lparr>wp_shutdown := sh\<rparr>")
  case True
  then obtain q sh where "wp_Submit w None p = Some q" "p' = q\<lparr>wp_shutdown := sh\<rparr>" by blast
  with quiet_submit [of w None p q] show ?thesis by (simp add: quiet_def)
next
  case False
  then show ?thesis
    using assms
    by (auto simp: wp_main_def quiet_def split: shutdown.splits if_splits option.splits worker.splits)
qed

lemma quiet_work:
  assumes "wp_work w p = Some p'"
  obtains (quiet) "quiet p p'" "wp_submitted p' = wp_submitted p" "\<forall>t. wp_threads p ! w \<noteq> W_Run t"
  | (start) t where "w < length (wp_threads p)" "wp_started p' = wp_started p @ [t]"
      "wp_submitted p' = wp_submitted p" "wp_threads p ! w = W_Take"
      "wp_threads p' = (wp_threads p)[w := W_Run t]"
  | (finish) t where "w < length (wp_threads p)" "wp_threads p ! w = W_Run t"
      "p' = p\<lparr>wp_threads := (wp_threads p)[w := W_Check]\<rparr>"
proof -
  have w: "w < length (wp_threads p)" using assms by (auto simp: wp_work_def split: if_splits)
  show thesis
  proof (cases "wp_threads p ! w")
    case W_Take
    show thesis
    proof (cases "wq_Take (wp_queue p)")
      case None
      with W_Take w assms quiet_update [of w p W_Wait] quiet show thesis
        by (auto simp: wp_work_def)
    next
      case (Some r)
      with W_Take w assms start show thesis by (cases r) (auto simp: wp_work_def)
    qed
  next
    case (W_Run t)
    with w assms finish show thesis by (auto simp: wp_work_def)
  qed (use w assms quiet quiet_update [of w p] in \<open>auto simp: wp_work_def\<close>)
qed

section \<open>The invariant is kept\<close>

lemma fu_inv_new: "fu_inv (fu_new start n e)"
proof -
  have "promise_in w = [] \<and> (\<forall>t. w \<noteq> W_Run t)" if "w \<in> set (replicate n W_Start)"
    for w :: "('e, 'r) task worker"
    using that by (auto simp: set_replicate_conv_if split: if_splits)
  then show ?thesis
    by (auto simp: fu_inv_def fu_new_def WorkerPool_new_def busy_promises_def)
qed

text \<open>The promise of a task that was started exists.\<close>

lemma started_bound:
  assumes inv: "fu_inv s" and wp: "wp_inv n (fu_pool s)"
    and t: "Some (Compute k f) \<in> set (wp_started (fu_pool s))"
  shows "k < length (fu_promises s)"
proof -
  have "set (wp_started (fu_pool s)) \<subseteq> set (wp_submitted (fu_pool s))"
    unfolding wp_inv_tasks [OF wp] by simp
  with t have "k \<in> set (promises (wp_submitted (fu_pool s)))"
    by (force simp: promises_def)
  with inv show ?thesis by (simp add: fu_inv_def)
qed

lemma finished_bound:
  assumes inv: "fu_inv s" and wp: "wp_inv n (fu_pool s)" and k: "(k, r) \<in> set (fu_finished s)"
  shows "k < length (fu_promises s)"
proof -
  obtain f e where "Some (Compute k f) \<in> set (wp_started (fu_pool s))"
    using fu_inv_finished [OF inv k] by blast
  then show ?thesis by (rule started_bound [OF inv wp])
qed

text \<open>A started task is running or finished, not both, and not twice.\<close>

lemma started_once:
  assumes inv: "fu_inv s" and wp: "wp_inv n (fu_pool s)"
  shows "count (mset (map fst (fu_finished s))) k + count (busy_promises (wp_threads (fu_pool s))) k \<le> 1"
proof -
  have "promises (wp_started (fu_pool s) @ wq_tasks (wp_queue (fu_pool s))) = [0..<length (fu_promises s)]"
    by (rule fu_inv_promises [OF inv, unfolded wp_inv_tasks [OF wp]])
  then have "distinct (promises (wp_started (fu_pool s)) @ promises (wq_tasks (wp_queue (fu_pool s))))"
    by (simp only: promises_simps distinct_upt)
  then have "distinct (promises (wp_started (fu_pool s)))" by (simp only: distinct_append)
  then have "count (mset (promises (wp_started (fu_pool s)))) k \<le> 1" by (rule count_distinct)
  then have "count (mset (map fst (fu_finished s)) + busy_promises (wp_threads (fu_pool s))) k \<le> 1"
    by (simp only: fu_inv_started [OF inv])
  then show ?thesis by (simp only: count_union)
qed

text \<open>A step of the pool below that does not touch the tasks of the workers, and the promises it
  makes.\<close>

lemma fu_inv_quiet:
  assumes inv: "fu_inv s" and wp: "wp_inv n (fu_pool s)" and q: "quiet (fu_pool s) p"
    and sub: "promises (wp_submitted p) = [0..<length (fu_promises s) + k]"
  shows "fu_inv (s\<lparr>fu_promises := fu_promises s @ replicate k None, fu_pool := p\<rparr>)"
proof -
  have "\<forall>w \<in> set (wp_threads p). \<forall>t. w = W_Run t \<longrightarrow> t \<in> set (wp_started p)"
    using inv q by (auto simp: fu_inv_def quiet_def runs_def)
  then show ?thesis
    using inv q sub finished_bound [OF inv wp] by (auto simp: fu_inv_def quiet_def nth_append)
qed

lemma fu_inv_start:
  assumes inv: "fu_inv s" and w: "w < length (wp_threads (fu_pool s))" "wp_threads (fu_pool s) ! w = W_Take"
    and p: "wp_started p = wp_started (fu_pool s) @ [t]" "wp_submitted p = wp_submitted (fu_pool s)"
      "wp_threads p = (wp_threads (fu_pool s))[w := W_Run t]"
  shows "fu_inv (s\<lparr>fu_pool := p\<rparr>)"
proof -
  let ?ws = "wp_threads (fu_pool s)"
  have busy: "busy_promises (?ws[w := W_Run t]) = busy_promises ?ws + mset (promise_of t)"
    using busy_promises_update [OF w(1), of "W_Run t"] w(2) by simp
  have "\<forall>x \<in> set (?ws[w := W_Run t]). \<forall>u. x = W_Run u \<longrightarrow> u \<in> set (wp_started p)"
    using inv set_update_subset_insert [of ?ws w "W_Run t"] by (auto simp: fu_inv_def p)
  moreover have "\<exists>f w e. Some (Compute k f) \<in> set (wp_started p) \<and> r = fst (f w e)"
    if "(k, r) \<in> set (fu_finished s)" for k r
    using inv [unfolded fu_inv_def] that unfolding p set_append by blast
  ultimately show ?thesis
    using inv by (simp add: fu_inv_def p busy add.assoc [symmetric])
qed

lemma fu_inv_env [simp]: "fu_inv (s\<lparr>fu_env := e\<rparr>) = fu_inv s"
  by (simp add: fu_inv_def)

text \<open>A worker ends a task: its promise is set, or there is none.\<close>

lemma fu_inv_finish:
  assumes inv: "fu_inv s" and wp: "wp_inv n (fu_pool s)"
    and w: "w < length (wp_threads (fu_pool s))" "wp_threads (fu_pool s) ! w = W_Run t"
    and s': "s' = (case t of None \<Rightarrow> s | Some task \<Rightarrow> run_task w task s)"
  shows "fu_inv (s'\<lparr>fu_pool := (fu_pool s)\<lparr>wp_threads := (wp_threads (fu_pool s))[w := W_Check]\<rparr>\<rparr>)"
proof -
  let ?ws = "wp_threads (fu_pool s)"
  have busy: "busy_promises (?ws[w := W_Check]) + mset (promise_of t) = busy_promises ?ws"
    using busy_promises_update [OF w(1), of W_Check] w(2) by simp
  have runs: "\<forall>x \<in> set (?ws[w := W_Check]). \<forall>u. x = W_Run u \<longrightarrow> u \<in> set (wp_started (fu_pool s))"
    using inv set_update_subset_insert [of ?ws w W_Check] by (auto simp: fu_inv_def)
  show ?thesis
  proof (cases "promise_of t")
    case Nil
    then have "s' = s \<or> (\<exists>e. s' = s\<lparr>fu_env := e\<rparr>)"
      by (cases "t" rule: promise_of.cases) (auto simp: s' split: option.splits)
    moreover have "fu_inv (s\<lparr>fu_pool := (fu_pool s)\<lparr>wp_threads := ?ws[w := W_Check]\<rparr>\<rparr>)"
      using inv busy runs Nil by (simp add: fu_inv_def)
    ultimately show ?thesis by (auto simp: fu_inv_def)
  next
    case (Cons k ks)
    then obtain f where t: "t = Some (Compute k f)" "ks = []"
      by (cases "t" rule: promise_of.cases) auto
    have started: "Some (Compute k f) \<in> set (wp_started (fu_pool s))"
      using inv w nth_mem [OF w(1)] by (auto simp: fu_inv_def t(1))
    have k: "k < length (fu_promises s)" by (rule started_bound [OF inv wp started])
    have "0 < count (busy_promises ?ws) k" by (simp add: busy [symmetric] t(1))
    with started_once [OF inv wp, of k] have "count (mset (map fst (fu_finished s))) k = 0" by linarith
    then have "k \<notin> fst ` set (fu_finished s)"
      by (simp only: count_eq_zero_iff set_mset_mset set_map) simp
    then have fresh: "(k, r) \<notin> set (fu_finished s)" for r by force
    with inv k have "fu_promises s ! k = None"
      by (cases "fu_promises s ! k") (auto simp: fu_inv_def)
    obtain r e where f: "f w (fu_env s) = (r, e)" by (cases "f w (fu_env s)")
    have s'_eq: "s' = s\<lparr>fu_env := e, fu_promises := (fu_promises s)[k := Some r],
        fu_finished := fu_finished s @ [(k, r)]\<rparr>"
      using \<open>fu_promises s ! k = None\<close> by (simp add: s' t(1) f set_value_def)
    have "mset (map fst (fu_finished s)) + busy_promises (?ws[w := W_Check]) + {#k#} =
        mset (promises (wp_started (fu_pool s)))"
      using inv unfolding fu_inv_def busy [symmetric] t(1) by simp
    moreover have "\<exists>g w e. Some (Compute k g) \<in> set (wp_started (fu_pool s)) \<and> r = fst (g w e)"
      using started f by (intro exI [of _ f] exI [of _ w] exI [of _ "fu_env s"]) simp
    moreover have "(fu_promises s)[k := Some r] ! j = Some v \<longleftrightarrow> (j, v) \<in> set (fu_finished s @ [(k, r)])"
      if "j < length (fu_promises s)" for j v
      using inv that fresh k by (auto simp: fu_inv_def nth_list_update)
    ultimately show ?thesis
      using inv runs unfolding s'_eq by (auto simp: fu_inv_def)
  qed
qed

lemma fu_inv_act:
  assumes inv: "fu_inv s" and wp: "wp_inv n (fu_pool s)" and act: "fu_act a s = Some s'"
  shows "fu_inv s'"
proof (cases a)
  case (FSubmit w f)
  then obtain p where p: "wp_Submit w (Some (Effect f)) (fu_pool s) = Some p" "s' = s\<lparr>fu_pool := p\<rparr>"
    using act by (auto simp: fu_lift_Some)
  from quiet_submit [OF p(1)] inv show ?thesis
    using fu_inv_quiet [OF inv wp, of p 0] by (simp add: p(2) fu_inv_def)
next
  case (FSubmitResult w f)
  then obtain p where p: "wp_Submit w (Some (Compute (length (fu_promises s)) f)) (fu_pool s) = Some p"
    "s' = s\<lparr>fu_promises := fu_promises s @ replicate 1 None, fu_pool := p\<rparr>"
    using act by (auto simp: fu_lift_Some Submit_result_def make_promise_def)
  from quiet_submit [OF p(1)] inv have "promises (wp_submitted p) = [0..<length (fu_promises s) + 1]"
    by (simp add: fu_inv_def)
  with quiet_submit [OF p(1)] show ?thesis
    using fu_inv_quiet [OF inv wp, of p 1] by (simp only: p(2))
next
  case (FWork w)
  then obtain p where p: "wp_work w (fu_pool s) = Some p" "s' = (worker_body w s)\<lparr>fu_pool := p\<rparr>"
    using act by (auto simp: fu_lift_Some)
  from p(1) show ?thesis
  proof (cases rule: quiet_work)
    case quiet
    then have "worker_body w s = s \<or> (\<exists>e. worker_body w s = s\<lparr>fu_env := e\<rparr>)"
      by (auto simp: worker_body_def split: worker.splits)
    moreover have "fu_inv (s\<lparr>fu_pool := p\<rparr>)"
      using fu_inv_quiet [OF inv wp quiet(1), of 0] inv quiet(2) by (simp add: fu_inv_def)
    ultimately show ?thesis by (auto simp: p(2) fu_inv_def)
  next
    case (start t)
    then have "worker_body w s = s" by (simp add: worker_body_def)
    then show ?thesis using fu_inv_start [OF inv start(1,4,2,3,5)] by (simp add: p(2))
  next
    case (finish t)
    then have "worker_body w s = (case t of None \<Rightarrow> s | Some task \<Rightarrow> run_task w task s)"
      by (simp add: worker_body_def)
    from fu_inv_finish [OF inv wp finish(1,2) this] finish(3) p(2) show ?thesis by simp
  qed
next
  case (FWake w)
  then obtain p where p: "wp_act (Wake w) (fu_pool s) = Some p" "s' = s\<lparr>fu_pool := p\<rparr>"
    using act by (auto simp: fu_lift_Some simp del: wp_act.simps)
  then have "quiet (fu_pool s) p \<and> wp_submitted p = wp_submitted (fu_pool s)"
    using quiet_update [of w "fu_pool s" W_Take] by (auto split: if_splits worker.splits)
  then show ?thesis
    using fu_inv_quiet [OF inv wp, of p 0] inv by (simp add: p(2) fu_inv_def)
next
  case (FMain w)
  then obtain p where p: "wp_main w (fu_pool s) = Some p" "s' = s\<lparr>fu_pool := p\<rparr>"
    using act by (auto simp: fu_lift_Some)
  from quiet_main [OF p(1)] inv show ?thesis
    using fu_inv_quiet [OF inv wp, of p 0] by (simp add: p(2) fu_inv_def)
qed

lemma fu_inv_reachable: "fu_reachable start n e s \<Longrightarrow> fu_inv s"
proof (induction rule: fu_reachable.induct)
  case (fu_do s a s')
  from inv_reachable [OF fu_pool_reachable [OF fu_do.hyps(1)]] show ?case
    by (rule fu_inv_act [OF fu_do.IH _ fu_do.hyps(2)])
qed (rule fu_inv_new)

section \<open>Two runs\<close>

text \<open>One worker. In both runs a task that adds 1 and 1 is submitted. In the first its worker runs
  it. In the second another task is running, and the pool is shut down.\<close>

definition add_task :: "nat \<Rightarrow> nat \<Rightarrow> nat \<times> nat" where
  "add_task w e = (1 + 1, e)"

definition ready_run :: "(nat, nat) fu_action list" where
  "ready_run = [FWork 0, FWork 0, FSubmitResult 0 add_task, FWork 0, FWork 0]"

definition lost_run :: "(nat, nat) fu_action list" where
  "lost_run = [FWork 0, FWork 0, FSubmit 0 (\<lambda>w e. e), FWork 0, FSubmitResult 0 add_task,
     FMain 0, FMain 0, FMain 0, FWork 0, FWork 0, FMain 0, FMain 0]"

lemma sample_reachable:
  assumes "fu_exec as (fu_new (\<lambda>w e. e) 1 (0 :: nat)) \<noteq> None"
  shows "fu_reachable (\<lambda>w e. e) 1 0 (the (fu_exec as (fu_new (\<lambda>w e. e) 1 0)))"
  using assms fu_exec_reachable [OF fu_reachable.fu_begin, of as "\<lambda>w e. e" 1 0] by auto

lemma sample_runs:
  "fu_exec ready_run (fu_new (\<lambda>w e. e) 1 0) \<noteq> None"
  "fu_exec lost_run (fu_new (\<lambda>w e. e) 1 0) \<noteq> None"
  "fu_get 0 (the (fu_exec ready_run (fu_new (\<lambda>w e. e) 1 0))) = Some 2"
  "wp_alive (fu_pool (the (fu_exec ready_run (fu_new (\<lambda>w e. e) 1 0))))"
  "wp_shutdown (fu_pool (the (fu_exec lost_run (fu_new (\<lambda>w e. e) 1 0)))) = S_Done"
  "fu_get 0 (the (fu_exec lost_run (fu_new (\<lambda>w e. e) 1 0))) = None"
  "length (fu_promises (the (fu_exec lost_run (fu_new (\<lambda>w e. e) 1 0)))) = 1"
  "length (fu_promises (the (fu_exec ready_run (fu_new (\<lambda>w e. e) 1 0)))) = 1"
  by code_simp+

section \<open>Properties\<close>

lemma get_finished:
  assumes inv: "fu_inv s" and wp: "wp_inv n (fu_pool s)"
  shows "fu_get k s = Some r \<longleftrightarrow> (k, r) \<in> set (fu_finished s)"
  using inv finished_bound [OF inv wp, of k r] by (auto simp: fu_get_def fu_inv_def)

text \<open>What holds of a pool in any state. It does not depend on the state of the program, so the
  rest of the program may change that.\<close>

definition pool_ok :: "nat \<Rightarrow> ('e, 'r) future_pool \<Rightarrow> bool" where
  "pool_ok n s \<longleftrightarrow> fu_inv s \<and> wp_inv n (fu_pool s) \<and> awake_inv (fu_pool s)"

lemma pool_ok_new: "pool_ok n (fu_new start n e)"
  by (simp add: pool_ok_def fu_inv_new)
    (simp add: fu_new_def inv_new awake_reachable [OF wp_reachable.wp_start])

lemma pool_ok_env [simp]: "pool_ok n (s\<lparr>fu_env := e\<rparr>) = pool_ok n s"
  by (simp add: pool_ok_def)

lemma pool_ok_act: "pool_ok n s \<Longrightarrow> fu_act a s = Some s' \<Longrightarrow> pool_ok n s'"
  using fu_inv_act [of s n a s'] inv_act [OF _ fu_act_below] awake_act [OF _ fu_act_below]
  by (auto simp: pool_ok_def)

lemma pool_ok_reachable: "fu_reachable start n e s \<Longrightarrow> pool_ok n s"
  by (induction rule: fu_reachable.induct) (auto simp: pool_ok_new intro: pool_ok_act)

lemma pool_ok_inv: "pool_ok n s \<Longrightarrow> fu_inv s" "pool_ok n s \<Longrightarrow> wp_inv n (fu_pool s)"
  by (simp_all add: pool_ok_def)

text \<open>Steps of the workers and of \<open>Shutdown\<close> in the pool below are steps here.\<close>

fun fu_own :: "('e, 'r) task wp_action \<Rightarrow> ('e, 'r) fu_action" where
  "fu_own (Work w) = FWork w"
| "fu_own (Main w) = FMain w"
| "fu_own (Submit w t) = FWork w"
| "fu_own (Wake w) = FWake w"

lemma worker_body_promises [simp]: "length (fu_promises (worker_body w s)) = length (fu_promises s)"
proof -
  have "length (fu_promises (run_task w t s)) = length (fu_promises s)" for t
    by (cases t) (auto simp: set_value_def split: prod.splits)
  then show ?thesis by (simp add: worker_body_def split: worker.splits option.splits)
qed

lemma own_lift:
  "wp_exec as (fu_pool s) = Some p \<Longrightarrow> list_all own_step as \<Longrightarrow>
     \<exists>s'. fu_exec (map fu_own as) s = Some s' \<and> fu_pool s' = p \<and>
       length (fu_promises s') = length (fu_promises s)"
proof (induction as arbitrary: s)
  case (Cons a as)
  then obtain q where q: "wp_act a (fu_pool s) = Some q" "wp_exec as q = Some p"
    by (auto split: option.splits)
  obtain r where r: "fu_act (fu_own a) s = Some r" "fu_pool r = q"
    "length (fu_promises r) = length (fu_promises s)"
    using q(1) Cons.prems(2) by (cases a) (auto simp: fu_lift_def)
  with Cons.IH [of r] q(2) Cons.prems(2) show ?case by simp
qed simp

text \<open>With no work left every promise is set.\<close>

lemma drained_ready:
  assumes ok: "pool_ok n s" and left: "work_left (fu_pool s) = 0"
    and k: "k < length (fu_promises s)"
  shows "fu_get k s \<noteq> None"
proof -
  note inv = pool_ok_inv(1) [OF ok] and wp = pool_ok_inv(2) [OF ok]
  have "promise_in w = []" if "w \<in> set (wp_threads (fu_pool s))" for w
    using work_left_zero(2) [OF left] that by (cases w) auto
  then have idle: "busy_promises (wp_threads (fu_pool s)) = {#}" by (simp add: busy_promises_def)
  have "promises (wp_started (fu_pool s)) = [0..<length (fu_promises s)]"
    using fu_inv_promises [OF inv] wp_inv_tasks [OF wp] work_left_zero(1) [OF left] by simp
  then have "mset (map fst (fu_finished s)) = mset [0..<length (fu_promises s)]"
    using fu_inv_started [OF inv] idle by simp
  then have "set (map fst (fu_finished s)) = set [0..<length (fu_promises s)]" by (rule mset_eq_setD)
  then have "fst ` set (fu_finished s) = {0..<length (fu_promises s)}" by simp
  with k have "k \<in> fst ` set (fu_finished s)" by simp
  then obtain r where "(k, r) \<in> set (fu_finished s)" by force
  then show ?thesis using get_finished [OF inv wp, of k r] by simp
qed

lemma workers_drain:
  assumes "pool_ok n s" "wp_alive (fu_pool s)" "0 < n"
  shows "\<exists>ws s'. fu_exec (map FWork ws) s = Some s' \<and> length (fu_promises s') = length (fu_promises s) \<and>
    work_left (fu_pool s') = 0"
proof -
  obtain ws p where p: "wp_exec (map Work ws) (fu_pool s) = Some p" "work_left p = 0"
    using assms work_drains unfolding pool_ok_def by blast
  have "list_all own_step (map Work ws)" by (simp add: list_all_iff)
  from own_lift [OF p(1) this] p(2) show ?thesis
    by (auto simp: comp_def intro!: exI [of _ ws])
qed

lemma fu_shutdown_finishes:
  assumes "pool_ok n s"
  shows "\<exists>as s'. fu_exec (map fu_own as) s = Some s' \<and> list_all own_step as \<and>
    wp_shutdown (fu_pool s') = S_Done"
proof -
  obtain as p where p: "wp_exec as (fu_pool s) = Some p" "list_all own_step as" "wp_shutdown p = S_Done"
    using shutdown_finishes [OF pool_ok_inv(2) [OF assms]] by blast
  from own_lift [OF p(1,2)] p(2,3) show ?thesis by blast
qed

lemma fu_exec_ok: "pool_ok n s \<Longrightarrow> fu_exec as s = Some s' \<Longrightarrow> pool_ok n s'"
  by (induction as arbitrary: s) (auto split: option.splits intro: pool_ok_act)

text \<open>C22: no promise is set twice; a future has a value exactly when its task was started and has
  ended, and the value is one the task gave; and the future of a task that was started and that
  no worker is in any more is ready.\<close>

theorem futures_exact:
  assumes "fu_reachable start n e s"
  shows "\<not> fu_thrown s \<and> distinct (map fst (fu_finished s)) \<and>
    (\<forall>k r. fu_get k s = Some r \<longrightarrow>
      (\<exists>f w e. Some (Compute k f) \<in> set (wp_started (fu_pool s)) \<and> r = fst (f w e))) \<and>
    (\<forall>k f. Some (Compute k f) \<in> set (wp_started (fu_pool s)) \<longrightarrow>
      (fu_get k s = None \<longleftrightarrow> k \<in># busy_promises (wp_threads (fu_pool s))))"
proof -
  note inv = fu_inv_reachable [OF assms]
  note wp = inv_reachable [OF fu_pool_reachable [OF assms]]
  note get = get_finished [OF inv wp]
  have once: "count (mset (map fst (fu_finished s))) k \<le> 1" for k
    using started_once [OF inv wp, of k] by linarith
  have "fu_get k s = None \<longleftrightarrow> k \<in># busy_promises (wp_threads (fu_pool s))"
    if k: "Some (Compute k f) \<in> set (wp_started (fu_pool s))" for k f
  proof -
    have "k \<in> set (promises (wp_started (fu_pool s)))" using k by (force simp: promises_def)
    then have "k \<in># mset (map fst (fu_finished s)) + busy_promises (wp_threads (fu_pool s))"
      unfolding fu_inv_started [OF inv] by simp
    then have "k \<in> fst ` set (fu_finished s) \<or> k \<in># busy_promises (wp_threads (fu_pool s))" by auto
    moreover have "\<not> (k \<in># mset (map fst (fu_finished s)) \<and> k \<in># busy_promises (wp_threads (fu_pool s)))"
      using started_once [OF inv wp, of k] by (auto simp only: count_greater_zero_iff [symmetric])
    moreover have "fu_get k s = None \<longleftrightarrow> k \<notin> fst ` set (fu_finished s)"
      using get [of k] by (cases "fu_get k s") force+
    ultimately show ?thesis by auto
  qed
  then show ?thesis
    using inv fu_inv_finished [OF inv] distinct_if_count [OF once] get by (simp add: fu_inv_def)
qed

theorem futures_exact_witness:
  "\<exists>f w e. Some (Compute 0 f) \<in> set (wp_started (fu_pool (the (fu_exec ready_run (fu_new (\<lambda>w e. e) 1 0))))) \<and>
     2 = fst (f w e)"
  using futures_exact [OF sample_reachable [OF sample_runs(1)]] sample_runs(3) by blast

text \<open>C23: as long as the pool is not shut down and has a worker, the workers alone can bring it to a
  state where every future that was handed out is ready.\<close>

theorem futures_become_ready:
  assumes "fu_reachable start n e s" "wp_alive (fu_pool s)" "0 < n"
  shows "\<exists>ws s'. fu_exec (map FWork ws) s = Some s' \<and> length (fu_promises s') = length (fu_promises s) \<and>
    (\<forall>k < length (fu_promises s'). fu_get k s' \<noteq> None)"
  using workers_drain [OF pool_ok_reachable [OF assms(1)] assms(2,3)] fu_exec_ok [OF pool_ok_reachable [OF assms(1)]]
    drained_ready by metis

theorem futures_become_ready_witness:
  "\<exists>ws s'. fu_exec (map FWork ws) (the (fu_exec ready_run (fu_new (\<lambda>w e. e) 1 0))) = Some s' \<and>
     fu_get 0 s' \<noteq> None"
  using futures_become_ready [OF sample_reachable [OF sample_runs(1)] sample_runs(4)] sample_runs(8)
  by force

text \<open>A step after \<open>Shutdown\<close> has returned sets no promise.\<close>

lemma finished_stays:
  assumes "fu_reachable start n e s" "wp_shutdown (fu_pool s) = S_Done" "fu_act a s = Some s'"
  shows "fu_finished s' = fu_finished s \<and> wp_shutdown (fu_pool s') = S_Done \<and>
    length (fu_promises s) \<le> length (fu_promises s')"
proof -
  note inv = inv_reachable [OF fu_pool_reachable [OF assms(1)]]
  have "worker_body w s = s" for w
    using inv assms(2) by (simp add: worker_body_def wp_inv_def)
  then show ?thesis
    using stopped_act [OF inv assms(2) fu_act_below [OF assms(3)]] assms(3)
    by (cases a) (auto simp: fu_lift_Some Submit_result_def make_promise_def)
qed

lemma finished_stays_run:
  assumes "fu_reachable start n e s" "wp_shutdown (fu_pool s) = S_Done" "fu_exec as s = Some s'"
  shows "fu_finished s' = fu_finished s \<and> wp_shutdown (fu_pool s') = S_Done \<and>
    length (fu_promises s) \<le> length (fu_promises s')"
  using assms
proof (induction as arbitrary: s)
  case (Cons a as)
  then obtain q where q: "fu_act a s = Some q" "fu_exec as q = Some s'" by (auto split: option.splits)
  with Cons.IH [OF fu_reachable.fu_do [OF Cons.prems(1) q(1)] _ q(2)] finished_stays [OF Cons.prems(1,2) q(1)]
  show ?case by simp
qed simp

lemma queued_promises_eq: "queued_promises s = promises (wq_tasks (wp_queue (fu_pool s)))"
proof -
  have "(\<lambda>t :: ('a, 'b) task option. case t of Some (Compute k f) \<Rightarrow> [k] | _ \<Rightarrow> []) = promise_of"
  proof
    fix t :: "('a, 'b) task option"
    show "(case t of Some (Compute k f) \<Rightarrow> [k] | _ \<Rightarrow> []) = promise_of t"
      by (cases t rule: promise_of.cases) auto
  qed
  then show ?thesis by (simp add: queued_promises_def promises_def)
qed

text \<open>When \<open>Shutdown\<close> has returned no worker is in a task: what is not set is in the queue.\<close>

lemma stopped_queued:
  assumes r: "fu_reachable start n e s" and stop: "wp_shutdown (fu_pool s) = S_Done"
    and k: "k < length (fu_promises s)" "fu_promises s ! k = None"
  shows "k \<in> set (queued_promises s)"
proof -
  note inv = fu_inv_reachable [OF r] and wp = inv_reachable [OF fu_pool_reachable [OF r]]
  have "promise_in w = []" if "w \<in> set (wp_threads (fu_pool s))" for w
    using wp stop that by (auto simp: wp_inv_def in_set_conv_nth)
  then have idle: "busy_promises (wp_threads (fu_pool s)) = {#}" by (simp add: busy_promises_def)
  have "set (promises (wp_started (fu_pool s))) = fst ` set (fu_finished s)"
    using mset_eq_setD [OF fu_inv_started [OF inv, unfolded idle add_0_right]] by simp
  moreover have "k \<notin> fst ` set (fu_finished s)"
    using get_finished [OF inv wp, of k] k by (auto simp: fu_get_def)
  moreover have "k \<in> set (promises (wp_started (fu_pool s) @ wq_tasks (wp_queue (fu_pool s))))"
    using fu_inv_promises [OF inv, unfolded wp_inv_tasks [OF wp]] k(1) by simp
  ultimately show ?thesis by (simp add: queued_promises_eq)
qed

text \<open>C40: the future of a task that was pending when \<open>Shutdown\<close> returned is never ready as long
  as the pool exists, whatever happens: a thread that waits for it waits. When the pool is
  destroyed then, \<open>get\<close> throws for that future, and every future gives a value or throws.\<close>

theorem future_lost_at_shutdown:
  assumes "fu_reachable start n e s" "wp_shutdown (fu_pool s) = S_Done" "fu_get k s = None"
    "k < length (fu_promises s)" "fu_exec as s = Some s'"
  shows "fu_get k s' = None \<and> destroy_pool s' ! k = BrokenPromise \<and> Waiting \<notin> set (destroy_pool s')"
proof -
  have r': "fu_reachable start n e s'" by (rule fu_exec_reachable [OF assms(1,5)])
  have get: "fu_get k r = Some v \<longleftrightarrow> (k, v) \<in> set (fu_finished r)" if "fu_reachable start n e r" for r v
    by (rule get_finished [OF fu_inv_reachable [OF that] inv_reachable [OF fu_pool_reachable [OF that]]])
  have none: "fu_get k s' = None"
    using get [OF assms(1)] get [OF r'] finished_stays_run [OF assms(1,2,5)] assms(3)
    by (cases "fu_get k s'") auto
  have "wp_shutdown (fu_pool s') = S_Done" using finished_stays_run [OF assms(1,2,5)] by blast
  from stopped_queued [OF r' this] have queued:
    "fu_promises s' ! j = None \<Longrightarrow> j < length (fu_promises s') \<Longrightarrow> j \<in> set (queued_promises s')" for j .
  then have "destroy_pool s' ! k = BrokenPromise"
    using none assms(4) finished_stays_run [OF assms(1,2,5)] by (simp add: destroy_pool_def fu_get_def)
  moreover have "Waiting \<notin> set (destroy_pool s')"
    using queued by (auto simp: destroy_pool_def split: option.splits)
  ultimately show ?thesis using none by blast
qed

theorem future_lost_at_shutdown_witness:
  "fu_get 0 (the (fu_exec lost_run (fu_new (\<lambda>w e. e) 1 0))) = None \<and>
   destroy_pool (the (fu_exec lost_run (fu_new (\<lambda>w e. e) 1 0))) ! 0 = BrokenPromise"
proof -
  have "0 < length (fu_promises (the (fu_exec lost_run (fu_new (\<lambda>w e. e) 1 0))))"
    unfolding sample_runs(7) by simp
  from future_lost_at_shutdown [OF sample_reachable [OF sample_runs(2)] sample_runs(5,6) this, of "[]"]
  show ?thesis by simp
qed

end
