(* ===== verification/PoolBuilder.thy ===== *)
theory PoolBuilder
  imports Topology WorkerPool_Properties
begin

text \<open>
  The class \<open>WorkerPoolBuilder\<close> of \<open>src/WorkerPool.h\<close> and the constructor of the pool it
  calls. An exception is a value \<open>Inl\<close>.
\<close>

section \<open>The constructor of the pool\<close>

text \<open>The cores of the threads, in the order the threads are started.\<close>

fun start_on_core :: "core \<Rightarrow> nat \<Rightarrow> nat \<Rightarrow> core list \<Rightarrow> core list" where
  "start_on_core core threadsPerCore 0 threads = threads"
| "start_on_core core threadsPerCore (Suc n) threads =
     start_on_core core threadsPerCore n (threads @ [core])"

definition buildWorkerPool :: "32 word \<Rightarrow> core list \<Rightarrow> core list" where
  "buildWorkerPool threadsPerCore cores =
     fold (\<lambda>core. start_on_core core (unat threadsPerCore) (unat threadsPerCore)) cores []"

text \<open>A pool is its threads and what \<open>WorkerPool\<close> models, with one worker for each thread.\<close>

type_synonym 'a built_pool = "core list \<times> 'a worker_pool"

definition WorkerPool_construct :: "32 word \<Rightarrow> core list \<Rightarrow> 'a built_pool" where
  "WorkerPool_construct threadsPerCore cores =
     (let threads = buildWorkerPool threadsPerCore cores in
      (threads, WorkerPool_new (length threads)))"

section \<open>The builder\<close>

datatype build_error = InvalidWorkerPoolBuilderArgumentsError string

record pool_builder =
  cpuCores :: "core list"
  numaNode :: numa_node
  threadsPerCore :: "32 word"

definition WorkerPoolBuilder :: pool_builder where
  "WorkerPoolBuilder = \<lparr>cpuCores = [], numaNode = NUMANode_default, threadsPerCore = 0\<rparr>"

definition WithThreadsPerCore :: "32 word \<Rightarrow> pool_builder \<Rightarrow> pool_builder" where
  "WithThreadsPerCore num b = b\<lparr>threadsPerCore := num\<rparr>"

definition OnCores :: "core list \<Rightarrow> pool_builder \<Rightarrow> pool_builder" where
  "OnCores cores b = b\<lparr>cpuCores := cores\<rparr>"

definition OnNUMANode :: "numa_node \<Rightarrow> pool_builder \<Rightarrow> pool_builder" where
  "OnNUMANode node b = b\<lparr>numaNode := node\<rparr>"

definition pb_ThreadsPerCore :: "pool_builder \<Rightarrow> 32 word" where
  "pb_ThreadsPerCore b = threadsPerCore b"

definition pb_Cores :: "pool_builder \<Rightarrow> core list" where
  "pb_Cores b = cpuCores b"

definition pb_TargetNUMANode :: "pool_builder \<Rightarrow> numa_node" where
  "pb_TargetNUMANode b = numaNode b"

definition Build :: "pool_builder \<Rightarrow> build_error + 'a built_pool" where
  "Build b =
     (if threadsPerCore b < 1 then
        Inl (InvalidWorkerPoolBuilderArgumentsError
          ''At least one thread per core needs to be specified'')
      else if cpuCores b = [] \<and> nn_Empty (numaNode b) then
        Inl (InvalidWorkerPoolBuilderArgumentsError
          ''At least one of cores or NUMA node must be specified'')
      else if cpuCores b \<noteq> [] \<and> \<not> nn_Empty (numaNode b) then
        Inl (InvalidWorkerPoolBuilderArgumentsError
          ''Only one of cores or NUMA can be specified'')
      else Inr (WorkerPool_construct (threadsPerCore b)
        (if cpuCores b \<noteq> [] then pb_Cores b else nn_Cores (numaNode b))))"

section \<open>Lemmas\<close>

lemma start_on_core_eq: "start_on_core c m n ts = ts @ replicate n c"
  by (induction n arbitrary: ts) (simp_all add: replicate_app_Cons_same)

lemma buildWorkerPool_eq:
  "buildWorkerPool tpc cores = concat (map (replicate (unat tpc)) cores)"
proof -
  have "fold (\<lambda>core. start_on_core core n n) cores ts = ts @ concat (map (replicate n) cores)" for n ts
    by (induction cores arbitrary: ts) (simp_all add: start_on_core_eq)
  then show ?thesis by (simp add: buildWorkerPool_def)
qed

lemma build_length: "length (buildWorkerPool tpc cores) = unat tpc * length cores"
  by (simp add: buildWorkerPool_eq length_concat comp_def sum_list_triv)

lemma count_replicates:
  "core_set cores \<Longrightarrow>
     count_list (concat (map (replicate n) cores)) c = (if c \<in> set cores then n else 0)"
proof (induction cores)
  case (Cons d cores)
  moreover have "count_list (replicate n d) c = (if d = c then n else 0)"
    for c d :: core and n by (induction n) auto
  ultimately show ?case by (auto simp: count_list_append)
qed simp

lemma build_count:
  "core_set cores \<Longrightarrow>
     count_list (buildWorkerPool tpc cores) c = (if c \<in> set cores then unat tpc else 0)"
  by (simp add: buildWorkerPool_eq count_replicates)

lemma build_ok:
  "(\<exists>r. Build b = Inr r) \<longleftrightarrow>
     threadsPerCore b \<noteq> 0 \<and> (cpuCores b = [] \<longleftrightarrow> \<not> nn_Empty (numaNode b))"
  by (auto simp: Build_def word_less_1)

section \<open>Properties\<close>

text \<open>C25: what \<open>Build\<close> does with each set of arguments: which exception it throws, and, if
  exactly one of cores and a node is given and at least one thread per core, a pool with so many
  threads for each of the cores and no other threads.\<close>

theorem build_correct:
  assumes "core_set (cpuCores b)" "core_set (nn_Cores (numaNode b))"
  shows "case Build b of
      Inl (InvalidWorkerPoolBuilderArgumentsError msg) \<Rightarrow>
        msg = (if threadsPerCore b = 0 then ''At least one thread per core needs to be specified''
          else if cpuCores b = [] then ''At least one of cores or NUMA node must be specified''
          else ''Only one of cores or NUMA can be specified'') \<and>
        (threadsPerCore b = 0 \<or> (cpuCores b = [] \<longleftrightarrow> nn_Empty (numaNode b)))
    | Inr (threads, p) \<Rightarrow>
        threadsPerCore b \<noteq> 0 \<and> (cpuCores b = [] \<longleftrightarrow> \<not> nn_Empty (numaNode b)) \<and>
        wp_Size p = length threads \<and>
        wp_Size p = unat (threadsPerCore b) *
          (if nn_Empty (numaNode b) then length (pb_Cores b)
           else length (nn_Cores (pb_TargetNUMANode b))) \<and>
        (\<forall>c. count_list threads c =
          (if c \<in> set (if nn_Empty (numaNode b) then pb_Cores b
             else nn_Cores (pb_TargetNUMANode b))
           then unat (pb_ThreadsPerCore b) else 0))"
  using assms
  by (auto simp: Build_def word_less_1 WorkerPool_construct_def wp_Size_def WorkerPool_new_def
      pb_Cores_def pb_TargetNUMANode_def pb_ThreadsPerCore_def build_length build_count Let_def)

definition two_core_builder :: pool_builder where
  "two_core_builder = WithThreadsPerCore 3 (OnCores [Core 0, Core 2] WorkerPoolBuilder)"

lemma two_core_simps:
  "threadsPerCore two_core_builder = 3" "cpuCores two_core_builder = [Core 0, Core 2]"
  "nn_Empty (numaNode two_core_builder)" "nn_Cores (numaNode two_core_builder) = []"
  by (simp_all add: two_core_builder_def WithThreadsPerCore_def OnCores_def WorkerPoolBuilder_def
      NUMANode_default_def nn_Empty_def nn_Cores_def)

theorem build_correct_witness:
  "case (Build two_core_builder :: build_error + nat built_pool) of Inl _ \<Rightarrow> False
   | Inr (threads, p) \<Rightarrow> wp_Size p = 6 \<and> count_list threads (Core 2) = 3"
proof (cases "Build two_core_builder :: build_error + nat built_pool")
  case (Inl e)
  with build_correct [of two_core_builder, where 'a = nat] show ?thesis
    by (cases e) (simp add: two_core_simps less_core_iff)
next
  case (Inr r)
  with build_correct [of two_core_builder, where 'a = nat] show ?thesis
    by (cases r) (simp add: two_core_simps less_core_iff pb_Cores_def pb_ThreadsPerCore_def)
qed

text \<open>A pool that was built works as the properties of the worker pool say, whatever its
  threads and the threads that submit do: tasks are started in order, and \<open>Shutdown\<close> comes to
  its end.\<close>

lemma built_pool_works:
  assumes "Build b = Inr (threads, p)" "wp_exec as p = Some p'"
  shows "wp_started p' @ wq_tasks (wp_queue p') = wp_submitted p' \<and> wp_Size p' = length threads \<and>
    (\<exists>bs p''. wp_exec bs p' = Some p'' \<and> wp_shutdown p'' = S_Done)"
proof -
  have "p = WorkerPool_new (length threads)"
    using assms(1) by (auto simp: Build_def WorkerPool_construct_def Let_def split: if_splits)
  then have "wp_reachable (length threads) p'"
    using wp_exec_reachable [OF _ assms(2)] wp_reachable.wp_start by blast
  note inv = inv_reachable [OF this]
  then show ?thesis
    using shutdown_finishes [OF inv] by (auto simp: wp_inv_def wp_Size_def)
qed

text \<open>A node that was given an identifier and no cores is accepted, and the pool then has no
  thread: it never starts a task.\<close>

lemma build_no_cores:
  assumes "tpc \<noteq> 0"
  shows "\<exists>p. Build (WithThreadsPerCore tpc (OnNUMANode (NUMANode i []) WorkerPoolBuilder)) = Inr ([], p) \<and>
    wp_Size p = 0 \<and> (\<forall>as p'. wp_exec as p = Some p' \<longrightarrow> wp_started p' = [])"
proof -
  let ?p = "WorkerPool_new 0 :: 'a worker_pool"
  have none: "wp_started p' = wp_started q" if "wp_exec as q = Some p'" "wp_threads q = []"
    for as and q p' :: "'a worker_pool"
    using that
  proof (induction as arbitrary: q)
    case (Cons a as)
    then obtain r where r: "wp_act a q = Some r" "wp_exec as r = Some p'"
      by (auto split: option.splits)
    have "wp_started r = wp_started q \<and> wp_threads r = []"
      using r(1) Cons.prems(2)
      by (cases a) (auto simp: wp_Submit_def notify_one_def wp_work_def wp_main_def
          split: option.splits shutdown.splits if_splits)
    with Cons.IH [OF r(2)] show ?case by simp
  qed simp
  have "Build (WithThreadsPerCore tpc (OnNUMANode (NUMANode i []) WorkerPoolBuilder)) = Inr ([], ?p)"
    using assms by (simp add: Build_def WithThreadsPerCore_def OnNUMANode_def WorkerPoolBuilder_def
        NUMANode_def nn_Empty_def nn_Cores_def WorkerPool_construct_def buildWorkerPool_def
        word_less_1 Let_def)
  then show ?thesis
    using none [of _ ?p] by (auto simp: wp_Size_def WorkerPool_new_def)
qed

end
