(* ===== verification/WorkerPoolApp.thy ===== *)
theory WorkerPoolApp
  imports ProcessorOperator Futures PoolBuilder
begin

text \<open>
  The example program \<open>examples/WorkerPoolApp.cpp\<close>: the main thread looks for the cores of the
  machine, builds a pool of threads pinned to them, submits tasks and prints; the tasks print
  where they run. The steps of the main thread and of the workers interleave. A line of output
  is printed in one piece, a task is one step.
\<close>

section \<open>The state\<close>

text \<open>What ends the program other than a return from \<open>main\<close>: an exception that nothing catches,
  or \<open>*s.begin()\<close> of an empty set.\<close>

datatype app_failure = Terminated platform_error | EmptySet

text \<open>The state that the threads share: the standard output, and what the operating system knows of
  the affinity of each worker.\<close>

record 's app_env =
  ev_threads :: "'s list"
  ev_out :: string
  ev_failed :: "app_failure option"

definition ev_print :: "string \<Rightarrow> 's app_env \<Rightarrow> 's app_env" where
  "ev_print line e = e\<lparr>ev_out := ev_out e @ line @ [CHR 0x0A]\<rparr>"

definition ev_fail :: "app_failure \<Rightarrow> 's app_env \<Rightarrow> 's app_env" where
  "ev_fail f e = e\<lparr>ev_failed := Some f\<rparr>"

text \<open>Where the main thread is: before each of its steps. Both functions it calls have a pool of
  their own; \<open>MC\<close> stands for \<open>runWithCoreAffinity\<close>, \<open>MN\<close> for \<open>runWithNUMAAffinity\<close>.\<close>

datatype main_pc =
    MC_Build | MC_Size | MC_Add | MC_Get nat | MC_Print | MC_Leave
  | MN_Build | MN_Size | MN_Print | MN_Leave
  | M_Return

text \<open>\<open>ap_pool\<close> is the pool of the function that runs, without threads before it is built and after
  it is destroyed.\<close>

record 's app =
  ap_pc :: main_pc
  ap_main :: 's
  ap_pool :: "('s app_env, int) future_pool"
  ap_err :: string

definition no_pool :: "'s app_env \<Rightarrow> ('s app_env, int) future_pool" where
  "no_pool e = fu_new (\<lambda>w e. e) 0 (e\<lparr>ev_threads := []\<rparr>)"

definition app_new :: "'s \<Rightarrow> 's app" where
  "app_new s =
     \<lparr>ap_pc = MC_Build, ap_main = s,
      ap_pool = no_pool \<lparr>ev_threads = [], ev_out = '''', ev_failed = None\<rparr>, ap_err = ''''\<rparr>"

section \<open>What the program prints\<close>

text \<open>Numbers as \<open>operator<<\<close> prints them.\<close>

fun decimal :: "nat \<Rightarrow> string" where
  "decimal n = (if n < 10 then [char_of (48 + n)] else decimal (n div 10) @ [char_of (48 + n mod 10)])"

declare decimal.simps [simp del]

definition decimal_int :: "int \<Rightarrow> string" where
  "decimal_int i = (if i < 0 then ''-'' @ decimal (nat (- i)) else decimal (nat i))"

definition size_line :: "nat \<Rightarrow> string" where
  "size_line n = ''number of worker threads in the pool: '' @ decimal n"

definition returned_line :: "int \<Rightarrow> string" where
  "returned_line i = ''task returned '' @ decimal_int i"

definition core_line :: "core \<Rightarrow> string" where
  "core_line c = ''task running on core '' @ decimal (unat (GetID c))"

definition node_line :: "32 word \<Rightarrow> core \<Rightarrow> string" where
  "node_line nodeID c = ''running on NUMA node '' @ decimal (unat nodeID) @
     '' core '' @ decimal (unat (GetID c))"

section \<open>The tasks\<close>

text \<open>What \<open>startThread\<close> does first, for the thread with number \<open>w\<close>; the result of the call is
  not looked at.\<close>

definition pin_thread :: "'s processor_operator \<Rightarrow> core list \<Rightarrow> nat \<Rightarrow> 's app_env \<Rightarrow> 's app_env" where
  "pin_thread P cores w e =
     (case po_SetThreadAffinity P [cores ! w] (ev_threads e ! w) of
        Inl err \<Rightarrow> ev_fail (Terminated err) e
      | Inr (_, s) \<Rightarrow> e\<lparr>ev_threads := (ev_threads e)[w := s]\<rparr>)"

definition taskWithResult :: "int \<Rightarrow> int \<Rightarrow> int" where
  "taskWithResult valueA valueB = valueA + valueB"

definition add_one_one :: "nat \<Rightarrow> 's app_env \<Rightarrow> int \<times> 's app_env" where
  "add_one_one w e = (taskWithResult 1 1, e)"

definition core_task :: "'s processor_operator \<Rightarrow> nat \<Rightarrow> 's app_env \<Rightarrow> 's app_env" where
  "core_task P w e =
     (case po_FindAvailableCores P (ev_threads e ! w) of
        Inl err \<Rightarrow> ev_fail (Terminated err) e
      | Inr [] \<Rightarrow> ev_fail EmptySet e
      | Inr (c # _) \<Rightarrow> ev_print (core_line c) e)"

definition node_task :: "'s processor_operator \<Rightarrow> nat \<Rightarrow> 's app_env \<Rightarrow> 's app_env" where
  "node_task P w e =
     (case po_FindAvailableCores P (ev_threads e ! w) of
        Inl err \<Rightarrow> ev_fail (Terminated err) e
      | Inr cores \<Rightarrow>
          (case po_FindAvailableNumaNodes P (ev_threads e ! w) of
             Inl err \<Rightarrow> ev_fail (Terminated err) e
           | Inr (nodes, s) \<Rightarrow>
               (let e' = e\<lparr>ev_threads := (ev_threads e)[w := s]\<rparr> in
                case (nodes, cores) of
                  (n # _, c # _) \<Rightarrow> ev_print (node_line (nn_GetID n) c) e'
                | _ \<Rightarrow> ev_fail EmptySet e')))"

section \<open>The main thread\<close>

definition ap_map_env :: "('s app_env \<Rightarrow> 's app_env) \<Rightarrow> 's app \<Rightarrow> 's app" where
  "ap_map_env f a = a\<lparr>ap_pool := (ap_pool a)\<lparr>fu_env := f (fu_env (ap_pool a))\<rparr>\<rparr>"

definition ap_goto :: "main_pc \<Rightarrow> 's app \<Rightarrow> 's app" where
  "ap_goto pc a = a\<lparr>ap_pc := pc\<rparr>"

text \<open>The threads of a pool that was built, on \<open>threads\<close>, are started: they inherit the affinity \<open>s\<close>
  of the thread that starts them.\<close>

definition start_pool ::
    "'s processor_operator \<Rightarrow> core list \<Rightarrow> ('s app_env, 'r) task worker_pool \<Rightarrow> 's \<Rightarrow> 's app_env \<Rightarrow>
     ('s app_env, 'r) future_pool" where
  "start_pool P threads p s e =
     (fu_new (pin_thread P threads) (length threads) (e\<lparr>ev_threads := replicate (length threads) s\<rparr>))
     \<lparr>fu_pool := p\<rparr>"

text \<open>The pool is built, or \<open>main\<close> catches the exception and returns.\<close>

definition open_pool :: "'s processor_operator \<Rightarrow> pool_builder \<Rightarrow> main_pc \<Rightarrow> 's app \<Rightarrow> 's app" where
  "open_pool P builder pc a =
     (case Build builder of
        Inl (InvalidWorkerPoolBuilderArgumentsError what) \<Rightarrow>
          ap_goto M_Return (a\<lparr>ap_err := ap_err a @ ''Error running examples: '' @ what @ [CHR 0x0A]\<rparr>)
      | Inr (threads, p) \<Rightarrow>
          ap_goto pc (a\<lparr>ap_pool := start_pool P threads p (ap_main a) (fu_env (ap_pool a))\<rparr>))"

text \<open>A step of \<open>~WorkerPool\<close>, or the function returns.\<close>

definition leave_pool :: "nat \<Rightarrow> main_pc \<Rightarrow> 's app \<Rightarrow> 's app option" where
  "leave_pool w pc a =
     (case wp_shutdown (fu_pool (ap_pool a)) of
        S_Done \<Rightarrow> Some (ap_goto pc (a\<lparr>ap_pool := no_pool (fu_env (ap_pool a))\<rparr>))
      | _ \<Rightarrow> map_option (\<lambda>p. a\<lparr>ap_pool := p\<rparr>) (fu_act (FMain w) (ap_pool a)))"

definition submit_task :: "nat \<Rightarrow> (nat \<Rightarrow> 's app_env \<Rightarrow> 's app_env) \<Rightarrow> main_pc \<Rightarrow> 's app \<Rightarrow> 's app option" where
  "submit_task w f pc a =
     map_option (\<lambda>p. ap_goto pc (a\<lparr>ap_pool := p\<rparr>)) (fu_act (FSubmit w f) (ap_pool a))"

definition print_size :: "main_pc \<Rightarrow> 's app \<Rightarrow> 's app" where
  "print_size pc a = ap_goto pc (ap_map_env (ev_print (size_line (wp_Size (fu_pool (ap_pool a))))) a)"

text \<open>A step of the main thread; \<open>w\<close> is the worker that a \<open>Submit\<close> wakes.\<close>

fun main_does :: "'s processor_operator \<Rightarrow> nat \<Rightarrow> main_pc \<Rightarrow> 's app \<Rightarrow> 's app option" where
  "main_does P w MC_Build a =
     (let a' = ap_map_env (ev_print ''-- executing tasks with core affinity'') a in
      case po_FindAvailableCores P (ap_main a') of
        Inl err \<Rightarrow> Some (ap_map_env (ev_fail (Terminated err)) a')
      | Inr cores \<Rightarrow>
          Some (open_pool P (WithThreadsPerCore 1 (OnCores cores WorkerPoolBuilder)) MC_Size a'))"
| "main_does P w MC_Size a = Some (print_size MC_Add a)"
| "main_does P w MC_Add a =
     map_option (\<lambda>p. ap_goto (MC_Get (length (fu_promises (ap_pool a)))) (a\<lparr>ap_pool := p\<rparr>))
       (fu_act (FSubmitResult w add_one_one) (ap_pool a))"
| "main_does P w (MC_Get k) a =
     map_option (\<lambda>r. ap_goto MC_Print (ap_map_env (ev_print (returned_line r)) a))
       (fu_get k (ap_pool a))"
| "main_does P w MC_Print a = submit_task w (core_task P) MC_Leave a"
| "main_does P w MC_Leave a = leave_pool w MN_Build a"
| "main_does P w MN_Build a =
     (let a' = ap_map_env (ev_print ''-- executing tasks with NUMA node affinity'')
        (ap_map_env (ev_print '''') a) in
      case po_FindAvailableNumaNodes P (ap_main a') of
        Inl err \<Rightarrow> Some (ap_map_env (ev_fail (Terminated err)) a')
      | Inr ([], s) \<Rightarrow> Some (ap_map_env (ev_fail EmptySet) (a'\<lparr>ap_main := s\<rparr>))
      | Inr (n # _, s) \<Rightarrow>
          Some (open_pool P (WithThreadsPerCore 1 (OnNUMANode n WorkerPoolBuilder)) MN_Size
            (a'\<lparr>ap_main := s\<rparr>)))"
| "main_does P w MN_Size a = Some (print_size MN_Print a)"
| "main_does P w MN_Print a = submit_task w (node_task P) MN_Leave a"
| "main_does P w MN_Leave a = leave_pool w M_Return a"
| "main_does P w M_Return a = None"

text \<open>A step of a thread. Nothing happens after a failure.\<close>

datatype app_action = Main_does nat | Worker_does nat | Worker_wakes nat

definition app_act :: "'s processor_operator \<Rightarrow> app_action \<Rightarrow> 's app \<Rightarrow> 's app option" where
  "app_act P x a =
     (if ev_failed (fu_env (ap_pool a)) \<noteq> None then None
      else
        (case x of
           Main_does w \<Rightarrow> main_does P w (ap_pc a) a
         | Worker_does w \<Rightarrow> map_option (\<lambda>p. a\<lparr>ap_pool := p\<rparr>) (fu_act (FWork w) (ap_pool a))
         | Worker_wakes w \<Rightarrow> map_option (\<lambda>p. a\<lparr>ap_pool := p\<rparr>) (fu_act (FWake w) (ap_pool a))))"

fun app_exec :: "'s processor_operator \<Rightarrow> app_action list \<Rightarrow> 's app \<Rightarrow> 's app option" where
  "app_exec P [] a = Some a"
| "app_exec P (x # xs) a = (case app_act P x a of None \<Rightarrow> None | Some a' \<Rightarrow> app_exec P xs a')"

inductive app_reachable :: "'s processor_operator \<Rightarrow> 's \<Rightarrow> 's app \<Rightarrow> bool"
  for P :: "'s processor_operator" and s :: 's where
  app_begin: "app_reachable P s (app_new s)"
| app_do: "app_reachable P s a \<Longrightarrow> app_act P x a = Some a' \<Longrightarrow> app_reachable P s a'"

lemma app_exec_reachable: "app_reachable P s a \<Longrightarrow> app_exec P xs a = Some a' \<Longrightarrow> app_reachable P s a'"
  by (induction xs arbitrary: a) (auto split: option.splits intro: app_reachable.app_do)

lemma app_exec_append:
  "app_exec P (xs @ ys) a = (case app_exec P xs a of None \<Rightarrow> None | Some b \<Rightarrow> app_exec P ys b)"
  by (induction xs arbitrary: a) (simp_all split: option.splits)

end
