(* ===== verification/WorkerPoolApp_Correct.thy ===== *)
theory WorkerPoolApp_Correct
  imports WorkerPoolApp
begin

text \<open>
  What the example program of the worker pool prints, in all interleavings and on every machine
  whose processor keeps its contract, and that it can always come to its end.
\<close>

section \<open>Output as lines\<close>

definition printed :: "string list \<Rightarrow> string" where
  "printed lines = concat (map (\<lambda>l. l @ [CHR 0x0A]) lines)"

lemma printed_simps [simp]:
  "printed [] = ''''" "printed (ls @ ms) = printed ls @ printed ms"
  "printed (l # ls) = l @ CHR 0x0A # printed ls"
  by (simp_all add: printed_def)

lemma ev_print_simps [simp]:
  "ev_out (ev_print l e) = ev_out e @ printed [l]" "ev_failed (ev_print l e) = ev_failed e"
  "ev_threads (ev_print l e) = ev_threads e"
  by (simp_all add: ev_print_def)

section \<open>A pool that is in use\<close>

text \<open>Of the tasks of the program those made by \<open>Effect\<close> print one line each, and those made by
  \<open>Compute\<close> change nothing.\<close>

fun is_effect :: "('e, 'r) task option \<Rightarrow> bool" where
  "is_effect (Some (Effect f)) = True"
| "is_effect _ = False"

fun in_effect :: "('e, 'r) task worker \<Rightarrow> bool" where
  "in_effect (W_Run t) = is_effect t"
| "in_effect _ = False"

definition real_tasks :: "'a worker_pool \<Rightarrow> 'a option list" where
  "real_tasks p = filter (\<lambda>t. case t of None \<Rightarrow> False | Some _ \<Rightarrow> True) (wp_submitted p)"

definition thread_on :: "('s \<Rightarrow> core set) \<Rightarrow> core list \<Rightarrow> nat \<Rightarrow> 's app_env \<Rightarrow> bool" where
  "thread_on usable cs w e \<longleftrightarrow> usable (ev_threads e ! w) = {cs ! w}"

fun task_ok :: "('s \<Rightarrow> core set) \<Rightarrow> core list \<Rightarrow> string set \<Rightarrow> ('s app_env, int) task option \<Rightarrow> bool" where
  "task_ok usable cs L (Some (Effect f)) \<longleftrightarrow>
     (\<forall>w < length cs. \<forall>e. thread_on usable cs w e \<longrightarrow>
        (\<exists>l \<in> L. \<exists>s. usable s = {cs ! w} \<and>
          f w e = ev_print l (e\<lparr>ev_threads := (ev_threads e)[w := s]\<rparr>)))"
| "task_ok usable cs L (Some (Compute k f)) \<longleftrightarrow> (\<forall>w e. snd (f w e) = e)"
| "task_ok usable cs L None \<longleftrightarrow> True"

text \<open>The pool has a thread for each of \<open>cs\<close>, every one that has started runs on its core only, the
  tasks \<open>ts\<close> were submitted, and every one that has printed was started and has ended.\<close>

definition pool_run ::
    "('s \<Rightarrow> core set) \<Rightarrow> 's processor_operator \<Rightarrow> core list \<Rightarrow> ('s app_env, int) task option list \<Rightarrow>
     string list \<Rightarrow> string set \<Rightarrow> ('s app_env, int) future_pool \<Rightarrow> bool" where
  "pool_run usable P cs ts before L p \<longleftrightarrow>
     pool_ok (length cs) p \<and> fu_start p = pin_thread P cs \<and> real_tasks (fu_pool p) = ts \<and>
     length (ev_threads (fu_env p)) = length cs \<and> ev_failed (fu_env p) = None \<and>
     (\<forall>w < length cs. wp_threads (fu_pool p) ! w = W_Start \<or> thread_on usable cs w (fu_env p)) \<and>
     (\<exists>lines. ev_out (fu_env p) = printed (before @ lines) \<and> set lines \<subseteq> L \<and>
        length lines + count_if in_effect (wp_threads (fu_pool p)) =
          length (filter is_effect (wp_started (fu_pool p))))"

lemma pool_run_D:
  assumes "pool_run usable P cs ts before L p"
  shows "pool_ok (length cs) p" "fu_start p = pin_thread P cs" "real_tasks (fu_pool p) = ts"
    "length (ev_threads (fu_env p)) = length cs" "ev_failed (fu_env p) = None"
    "w < length cs \<Longrightarrow> wp_threads (fu_pool p) ! w = W_Start \<or> thread_on usable cs w (fu_env p)"
    "length (wp_threads (fu_pool p)) = length cs"
  using assms by (auto simp: pool_run_def pool_ok_def wp_inv_def)

text \<open>A step after which worker \<open>w\<close> is at \<open>x\<close> and has printed \<open>ls\<close>.\<close>

lemma pool_run_step:
  assumes run: "pool_run usable P cs ts before L p"
    and p': "pool_ok (length cs) p'" "fu_start p' = fu_start p" "real_tasks (fu_pool p') = ts'"
    and w: "w < length cs" "x \<noteq> W_Start" "wp_threads (fu_pool p') = (wp_threads (fu_pool p))[w := x]"
    and e: "length (ev_threads (fu_env p')) = length cs" "ev_failed (fu_env p') = None"
      "thread_on usable cs w (fu_env p')"
      "\<And>v. v \<noteq> w \<Longrightarrow> ev_threads (fu_env p') ! v = ev_threads (fu_env p) ! v"
      "ev_out (fu_env p') = ev_out (fu_env p) @ printed ls" "set ls \<subseteq> L"
    and count: "wp_started (fu_pool p') = wp_started (fu_pool p) @ us"
      "length ls + (if in_effect x then 1 else 0) =
        length (filter is_effect us) + (if in_effect (wp_threads (fu_pool p) ! w) then 1 else 0)"
  shows "pool_run usable P cs ts' before L p'"
proof -
  from run obtain lines where lines: "ev_out (fu_env p) = printed (before @ lines)" "set lines \<subseteq> L"
    "length lines + count_if in_effect (wp_threads (fu_pool p)) =
      length (filter is_effect (wp_started (fu_pool p)))"
    unfolding pool_run_def by blast
  have "w < length (wp_threads (fu_pool p))" using w(1) pool_run_D(7) [OF run] by simp
  from count_update [OF this, of in_effect x] lines(3) count(2)
  have "length (lines @ ls) + count_if in_effect (wp_threads (fu_pool p')) =
      length (filter is_effect (wp_started (fu_pool p')))"
    by (simp add: w(3) count(1) split: if_splits)
  moreover have "ev_out (fu_env p') = printed (before @ lines @ ls)"
    by (simp add: e(5) lines(1))
  moreover have "set (lines @ ls) \<subseteq> L" using lines(2) e(6) by simp
  moreover have "wp_threads (fu_pool p') ! v = W_Start \<or> thread_on usable cs v (fu_env p')"
    if "v < length cs" for v
    using pool_run_D(6) [OF run that] e(3) e(4) [of v] by (cases "v = w") (auto simp: w(3) thread_on_def)
  ultimately show ?thesis
    using p' e(1,2) pool_run_D(2) [OF run] unfolding pool_run_def
    by (intro conjI exI [of _ "lines @ ls"]) simp_all
qed

text \<open>A step that changes no worker, or wakes one, and prints nothing.\<close>

lemma pool_run_quiet:
  assumes run: "pool_run usable P cs ts before L p"
    and p': "pool_ok (length cs) p'" "fu_start p' = fu_start p" "fu_env p' = fu_env p"
      "real_tasks (fu_pool p') = ts'" "wp_started (fu_pool p') = wp_started (fu_pool p)"
    and threads: "wp_threads (fu_pool p') = wp_threads (fu_pool p) \<or>
      (\<exists>w < length (wp_threads (fu_pool p)). wp_threads (fu_pool p) ! w = W_Wait \<and>
        wp_threads (fu_pool p') = (wp_threads (fu_pool p))[w := W_Take])"
  shows "pool_run usable P cs ts' before L p'"
  using threads
proof
  assume "wp_threads (fu_pool p') = wp_threads (fu_pool p)"
  then show ?thesis using run p' by (simp add: pool_run_def)
next
  assume "\<exists>w < length (wp_threads (fu_pool p)). wp_threads (fu_pool p) ! w = W_Wait \<and>
    wp_threads (fu_pool p') = (wp_threads (fu_pool p))[w := W_Take]"
  then obtain w where w: "w < length cs" "wp_threads (fu_pool p) ! w = W_Wait"
    "wp_threads (fu_pool p') = (wp_threads (fu_pool p))[w := W_Take]"
    using pool_run_D(7) [OF run] by auto
  show ?thesis
    by (rule pool_run_step [OF run p'(1,2,4) w(1) _ w(3), of "[]" "[]"])
      (use w pool_run_D(4,5) [OF run] pool_run_D(6) [OF run w(1)] p' in simp_all)
qed

section \<open>The steps of a pool\<close>

lemma real_tasks_same: "wp_submitted p' = wp_submitted p \<Longrightarrow> real_tasks p' = real_tasks p"
  by (simp add: real_tasks_def)

text \<open>A worker that is in a task is in one that was submitted.\<close>

lemma running_real:
  assumes run: "pool_run usable P cs ts before L p" and w: "w < length cs"
    "wp_threads (fu_pool p) ! w = W_Run (Some t)"
  shows "Some t \<in> set ts"
proof -
  note D = pool_run_D [OF run]
  have "Some t \<in> set (wp_started (fu_pool p))"
    using pool_ok_inv(1) [OF D(1)] nth_mem [of w "wp_threads (fu_pool p)"] w D(7)
    by (auto simp: fu_inv_def)
  then have "Some t \<in> set (wp_submitted (fu_pool p))"
    using wp_inv_tasks [OF pool_ok_inv(2) [OF D(1)]] by simp
  then show ?thesis unfolding D(3) [symmetric] by (simp add: real_tasks_def)
qed

definition woken :: "'a worker list \<Rightarrow> 'a worker list \<Rightarrow> bool" where
  "woken ws vs \<longleftrightarrow> vs = ws \<or> (\<exists>w < length ws. ws ! w = W_Wait \<and> vs = ws[w := W_Take])"

lemma submit_shape:
  assumes "wp_Submit w t p = Some q"
  shows "woken (wp_threads p) (wp_threads q)" "wp_started q = wp_started p" "wp_shutdown q = wp_shutdown p"
    "real_tasks q = real_tasks p @ (case t of None \<Rightarrow> [] | Some u \<Rightarrow> [Some u])"
proof -
  from assms obtain ws where ws: "notify_one w (wp_threads p) = Some ws"
    and q: "q = p\<lparr>wp_queue := wq_Add t (wp_queue p), wp_threads := ws,
      wp_submitted := wp_submitted p @ [t]\<rparr>"
    by (auto simp: wp_Submit_def split: option.splits)
  from ws have "woken (wp_threads p) ws" by (cases rule: notify_cases) (auto simp: woken_def)
  then show "woken (wp_threads p) (wp_threads q)" "wp_started q = wp_started p"
    "wp_shutdown q = wp_shutdown p"
    "real_tasks q = real_tasks p @ (case t of None \<Rightarrow> [] | Some u \<Rightarrow> [Some u])"
    by (simp_all add: q real_tasks_def split: option.split)
qed

lemma main_shape:
  assumes "wp_main w p = Some q"
  shows "woken (wp_threads p) (wp_threads q)" "wp_started q = wp_started p" "real_tasks q = real_tasks p"
proof -
  have "woken (wp_threads p) (wp_threads q) \<and> wp_started q = wp_started p \<and> real_tasks q = real_tasks p"
  proof (cases "\<exists>r sh. wp_Submit w None p = Some r \<and> q = r\<lparr>wp_shutdown := sh\<rparr>")
    case True
    then obtain r sh where "wp_Submit w None p = Some r" "q = r\<lparr>wp_shutdown := sh\<rparr>" by blast
    with submit_shape [OF this(1)] show ?thesis by (simp add: real_tasks_def)
  next
    case False
    then show ?thesis
      using assms by (auto simp: wp_main_def woken_def real_tasks_def
          split: shutdown.splits if_splits option.splits worker.splits)
  qed
  then show "woken (wp_threads p) (wp_threads q)" "wp_started q = wp_started p" "real_tasks q = real_tasks p"
    by simp_all
qed

lemma run_submit:
  assumes run: "pool_run usable P cs ts before L p"
    and ok: "pool_ok (length cs) p'" "fu_start p' = fu_start p" "fu_env p' = fu_env p"
    and sub: "wp_Submit w (Some u) (fu_pool p) = Some (fu_pool p')"
  shows "pool_run usable P cs (ts @ [Some u]) before L p' \<and> wp_shutdown (fu_pool p') = wp_shutdown (fu_pool p)"
  using pool_run_quiet [OF run ok] submit_shape [OF sub] pool_run_D(3) [OF run] by (simp add: woken_def)

lemma run_wake:
  assumes run: "pool_run usable P cs ts before L p" and act: "fu_act (FWake w) p = Some p'"
  shows "pool_run usable P cs ts before L p' \<and> wp_shutdown (fu_pool p') = wp_shutdown (fu_pool p)"
proof -
  from act have w: "w < length (wp_threads (fu_pool p))" "wp_threads (fu_pool p) ! w = W_Wait"
    and p': "p' = p\<lparr>fu_pool := (fu_pool p)\<lparr>wp_threads := (wp_threads (fu_pool p))[w := W_Take]\<rparr>\<rparr>"
    by (auto simp: fu_lift_Some split: if_splits worker.splits)
  from pool_run_quiet [OF run pool_ok_act [OF pool_run_D(1) [OF run] act], of ts] w
  show ?thesis using pool_run_D(3) [OF run] by (auto simp: p' real_tasks_def)
qed

lemma run_shutdown:
  assumes run: "pool_run usable P cs ts before L p" and act: "fu_act (FMain w) p = Some p'"
  shows "pool_run usable P cs ts before L p'"
proof -
  note ok = pool_ok_act [OF pool_run_D(1) [OF run] act]
  from act obtain q where q: "wp_main w (fu_pool p) = Some q" "p' = p\<lparr>fu_pool := q\<rparr>"
    by (auto simp: fu_lift_Some)
  from pool_run_quiet [OF run ok, of ts] main_shape [OF q(1)] pool_run_D(3) [OF run] q(2)
  show ?thesis by (simp add: woken_def)
qed

text \<open>A worker starts, looks at \<open>isAlive\<close>, takes a task or runs one.\<close>

context processor_contract
begin

text \<open>A worker ends a task: it has printed a line, or changed nothing.\<close>

lemma run_task_step:
  assumes tasks: "\<forall>t \<in> set ts. task_ok (usable m) cs L t"
    and run: "pool_run (usable m) (operator m) cs ts before L p"
    and ok: "pool_ok (length cs) p'" and real: "real_tasks (fu_pool p') = ts"
    and q: "wp_work w (fu_pool p) = Some q" "p' = (worker_body w p)\<lparr>fu_pool := q\<rparr>"
    and w: "w < length cs" "w < length (wp_threads (fu_pool p))"
    and W_Run: "wp_threads (fu_pool p) ! w = W_Run t"
  shows "pool_run (usable m) (operator m) cs ts before L p'"
proof -
  note D = pool_run_D [OF run]
  have on: "thread_on (usable m) cs w (fu_env p)" using D(6) [OF w(1)] W_Run by simp
  have q': "q = (fu_pool p)\<lparr>wp_threads := (wp_threads (fu_pool p))[w := W_Check]\<rparr>"
    using q(1) W_Run w(2) by (simp add: wp_work_def)
  consider (effect) f where "t = Some (Effect f)" | (empty) "t = None" | (compute) k f where "t = Some (Compute k f)"
    by (cases t rule: is_effect.cases) auto
  then show ?thesis
  proof cases
    case effect
    then have body: "worker_body w p = p\<lparr>fu_env := f w (fu_env p)\<rparr>"
      using W_Run w(2) by (simp add: worker_body_def)
    have "Some (Effect f) \<in> set ts" using running_real [OF run w(1)] W_Run effect by simp
    with tasks have "task_ok (usable m) cs L (Some (Effect f))" by blast
    from this [unfolded task_ok.simps, rule_format, OF w(1) on] obtain l s where
      l: "l \<in> L" "usable m s = {cs ! w}" "f w (fu_env p) =
        ev_print l ((fu_env p)\<lparr>ev_threads := (ev_threads (fu_env p))[w := s]\<rparr>)"
      by blast
    show ?thesis
      by (rule pool_run_step [OF run ok _ real w(1), of W_Check "[l]" "[]"])
        (use q(2) q' W_Run effect l D(4,5) w(1) in \<open>simp_all add: body thread_on_def\<close>)
  next
    case empty
    then have body: "worker_body w p = p" using W_Run by (simp add: worker_body_def)
    show ?thesis
      by (rule pool_run_step [OF run ok _ real w(1), of W_Check "[]" "[]"])
        (use q(2) q' W_Run empty on D(4,5) in \<open>simp_all add: body\<close>)
  next
    case compute
    then have "Some (Compute k f) \<in> set ts" using running_real [OF run w(1)] W_Run by simp
    with tasks have "task_ok (usable m) cs L (Some (Compute k f))" by blast
    then obtain r where "f w (fu_env p) = (r, fu_env p)" by (metis prod.collapse task_ok.simps(2))
    then have "fu_env (worker_body w p) = fu_env p" "fu_start (worker_body w p) = fu_start p"
      using W_Run w(2) compute by (simp_all add: worker_body_def set_value_def)
    then show ?thesis
      by (intro pool_run_step [OF run ok _ real w(1), of W_Check "[]" "[]"])
        (use q(2) q' W_Run compute on D(4,5) in \<open>simp_all\<close>)
  qed
qed

lemma run_work:
  assumes m: "valid m" "set cs \<subseteq> online m" and tasks: "\<forall>t \<in> set ts. task_ok (usable m) cs L t"
    and run: "pool_run (usable m) (operator m) cs ts before L p" and act: "fu_act (FWork w) p = Some p'"
  shows "pool_run (usable m) (operator m) cs ts before L p' \<and>
    wp_shutdown (fu_pool p') = wp_shutdown (fu_pool p)"
proof -
  note D = pool_run_D [OF run] and ok = pool_ok_act [OF pool_run_D(1) [OF run] act]
  from act obtain q where q: "wp_work w (fu_pool p) = Some q" "p' = (worker_body w p)\<lparr>fu_pool := q\<rparr>"
    by (auto simp: fu_lift_Some)
  have w: "w < length cs" "w < length (wp_threads (fu_pool p))"
    using q(1) D(7) by (auto simp: wp_work_def split: if_splits)
  have sub: "wp_submitted q = wp_submitted (fu_pool p)" "wp_shutdown q = wp_shutdown (fu_pool p)"
    using q(1) by (auto simp: wp_work_def split: if_splits worker.splits option.splits)
  have real: "real_tasks (fu_pool p') = ts" using D(3) real_tasks_same [OF sub(1)] q(2) by simp
  have "pool_run (usable m) (operator m) cs ts before L p'"
  proof (cases "wp_threads (fu_pool p) ! w")
    case W_Start
    have q': "q = (fu_pool p)\<lparr>wp_threads := (wp_threads (fu_pool p))[w := W_Check]\<rparr>"
      using q(1) W_Start w(2) by (simp add: wp_work_def)
    obtain s where
      s: "po_SetThreadAffinity (operator m) [cs ! w] (ev_threads (fu_env p) ! w) = Inr (True, s)"
      "usable m s = {cs ! w}" using pins [OF m(1), of "cs ! w"] m(2) w(1) nth_mem by blast
    let ?e = "(fu_env p)\<lparr>ev_threads := (ev_threads (fu_env p))[w := s]\<rparr>"
    have body: "worker_body w p = p\<lparr>fu_env := ?e\<rparr>"
      using W_Start w D(2) s(1) by (simp add: worker_body_def pin_thread_def)
    show ?thesis
      by (rule pool_run_step [OF run ok _ real w(1), of W_Check "[]" "[]"])
        (use W_Start q(2) q' w(1) D(4,5) s(2) in \<open>simp_all add: body thread_on_def\<close>)
  next
    case W_Check
    let ?x = "if wp_alive (fu_pool p) then W_Take else W_Exit"
    have q': "q = (fu_pool p)\<lparr>wp_threads := (wp_threads (fu_pool p))[w := ?x]\<rparr>"
      using q(1) W_Check w(2) by (simp add: wp_work_def)
    have body: "worker_body w p = p" using W_Check by (simp add: worker_body_def)
    show ?thesis
      by (rule pool_run_step [OF run ok _ real w(1), of ?x "[]" "[]"])
        (use W_Check q(2) q' D(4,5) D(6) [OF w(1)] in \<open>simp_all add: body\<close>)
  next
    case W_Take
    then have body: "worker_body w p = p" by (simp add: worker_body_def)
    show ?thesis
    proof (cases "wq_Take (wp_queue (fu_pool p))")
      case None
      have q': "q = (fu_pool p)\<lparr>wp_threads := (wp_threads (fu_pool p))[w := W_Wait]\<rparr>"
        using q(1) W_Take None w(2) by (simp add: wp_work_def)
      show ?thesis
        by (rule pool_run_step [OF run ok _ real w(1), of W_Wait "[]" "[]"])
          (use W_Take q(2) q' D(4,5) D(6) [OF w(1)] in \<open>simp_all add: body\<close>)
    next
      case (Some r)
      then obtain t u where r: "wq_Take (wp_queue (fu_pool p)) = Some (t, u)" by (cases r) simp
      have q': "q = (fu_pool p)\<lparr>wp_queue := u, wp_threads := (wp_threads (fu_pool p))[w := W_Run t],
          wp_started := wp_started (fu_pool p) @ [t]\<rparr>"
        using q(1) W_Take r w(2) by (simp add: wp_work_def)
      show ?thesis
        by (rule pool_run_step [OF run ok _ real w(1), of "W_Run t" "[]" "[t]"])
          (use W_Take q(2) q' D(4,5) D(6) [OF w(1)] in \<open>simp_all add: body\<close>)
    qed
  next
    case (W_Run t)
    show ?thesis by (rule run_task_step [OF tasks run ok real q w W_Run])
  qed (use q(1) w(2) in \<open>auto simp: wp_work_def\<close>)
  then show ?thesis using sub(2) q(2) by simp
qed

end

section \<open>The invariant of the program\<close>

definition no_threads :: "string list \<Rightarrow> ('s app_env, int) future_pool \<Rightarrow> bool" where
  "no_threads lines p \<longleftrightarrow> (\<exists>e. p = no_pool e \<and> ev_out e = printed lines \<and> ev_failed e = None)"

definition cores_pool ::
    "('s \<Rightarrow> core set) \<Rightarrow> 's processor_operator \<Rightarrow> core set \<Rightarrow> ('s app_env, int) task option list \<Rightarrow>
     string list \<Rightarrow> string set \<Rightarrow> ('s app_env, int) future_pool \<Rightarrow> bool" where
  "cores_pool usable P U ts before L p \<longleftrightarrow>
     (\<exists>cs. core_set cs \<and> set cs = U \<and> pool_run usable P cs ts before L p)"

definition going :: "('e, 'r) future_pool \<Rightarrow> bool" where
  "going p \<longleftrightarrow> wp_shutdown (fu_pool p) = S_Idle"

text \<open>The lines the main thread prints, and what it found: \<open>U\<close> are the cores of the process. The
  second function uses the first node.\<close>

definition core_head :: "string list" where
  "core_head = [''-- executing tasks with core affinity'']"

definition core_text :: "core set \<Rightarrow> string list" where
  "core_text U = core_head @ [size_line (card U), returned_line 2]"

definition node_head :: "string list" where
  "node_head = ['''', ''-- executing tasks with NUMA node affinity'']"

definition first_node :: "(core \<Rightarrow> 32 word) \<Rightarrow> core set \<Rightarrow> 32 word" where
  "first_node node U = Min (node ` U)"

definition node_cores :: "(core \<Rightarrow> 32 word) \<Rightarrow> core set \<Rightarrow> core set" where
  "node_cores node U = {c \<in> U. node c = first_node node U}"

definition core_lines :: "core set \<Rightarrow> string set" where
  "core_lines U = core_line ` U"

definition node_lines :: "(core \<Rightarrow> 32 word) \<Rightarrow> core set \<Rightarrow> string set" where
  "node_lines node U = node_line (first_node node U) ` node_cores node U"

definition at_most_one :: "'a set \<Rightarrow> 'a list \<Rightarrow> bool" where
  "at_most_one A xs \<longleftrightarrow> length xs \<le> 1 \<and> set xs \<subseteq> A"

fun pc_inv ::
    "('s \<Rightarrow> core set) \<Rightarrow> (core \<Rightarrow> 32 word) \<Rightarrow> 's processor_operator \<Rightarrow> core set \<Rightarrow> main_pc \<Rightarrow>
     ('s app_env, int) future_pool \<Rightarrow> bool" where
  "pc_inv usable node P U MC_Build p \<longleftrightarrow> no_threads [] p"
| "pc_inv usable node P U MC_Size p \<longleftrightarrow> going p \<and> cores_pool usable P U [] core_head {} p"
| "pc_inv usable node P U MC_Add p \<longleftrightarrow>
     going p \<and> cores_pool usable P U [] (core_head @ [size_line (card U)]) {} p"
| "pc_inv usable node P U (MC_Get k) p \<longleftrightarrow> k = 0 \<and>
     going p \<and> cores_pool usable P U [Some (Compute 0 add_one_one)] (core_head @ [size_line (card U)]) {} p"
| "pc_inv usable node P U MC_Print p \<longleftrightarrow>
     going p \<and> cores_pool usable P U [Some (Compute 0 add_one_one)] (core_text U) {} p"
| "pc_inv usable node P U MC_Leave p \<longleftrightarrow>
     cores_pool usable P U [Some (Compute 0 add_one_one), Some (Effect (core_task P))]
       (core_text U) (core_lines U) p"
| "pc_inv usable node P U MN_Build p \<longleftrightarrow>
     (\<exists>ls. at_most_one (core_lines U) ls \<and> no_threads (core_text U @ ls) p)"
| "pc_inv usable node P U MN_Size p \<longleftrightarrow> going p \<and>
     (\<exists>ls. at_most_one (core_lines U) ls \<and>
        cores_pool usable P (node_cores node U) [] (core_text U @ ls @ node_head) {} p)"
| "pc_inv usable node P U MN_Print p \<longleftrightarrow> going p \<and>
     (\<exists>ls. at_most_one (core_lines U) ls \<and> cores_pool usable P (node_cores node U) []
        (core_text U @ ls @ node_head @ [size_line (card (node_cores node U))]) {} p)"
| "pc_inv usable node P U MN_Leave p \<longleftrightarrow>
     (\<exists>ls. at_most_one (core_lines U) ls \<and>
        cores_pool usable P (node_cores node U) [Some (Effect (node_task P))]
          (core_text U @ ls @ node_head @ [size_line (card (node_cores node U))]) (node_lines node U) p)"
| "pc_inv usable node P U M_Return p \<longleftrightarrow>
     (\<exists>ls ms. at_most_one (core_lines U) ls \<and> at_most_one (node_lines node U) ms \<and>
        no_threads (core_text U @ ls @ node_head @ [size_line (card (node_cores node U))] @ ms) p)"

definition app_inv ::
    "('s \<Rightarrow> core set) \<Rightarrow> (core \<Rightarrow> 32 word) \<Rightarrow> 's processor_operator \<Rightarrow> 's \<Rightarrow> 's app \<Rightarrow> bool" where
  "app_inv usable node P s a \<longleftrightarrow> ap_err a = '''' \<and> usable (ap_main a) = usable s \<and>
     pc_inv usable node P (usable s) (ap_pc a) (ap_pool a)"

section \<open>What the main thread does to a pool\<close>

lemma pool_run_more:
  "pool_run usable P cs ts before L p \<Longrightarrow> L \<subseteq> L' \<Longrightarrow> pool_run usable P cs ts before L' p"
  unfolding pool_run_def by blast

text \<open>The main thread prints as long as no task has.\<close>

lemma run_print:
  assumes "pool_run usable P cs ts before {} p"
  shows "pool_run usable P cs ts (before @ [l]) {} (p\<lparr>fu_env := ev_print l (fu_env p)\<rparr>)"
  using assms by (simp add: pool_run_def thread_on_def)

lemma run_size: "pool_run usable P cs ts before L p \<Longrightarrow> wp_Size (fu_pool p) = length cs"
  by (simp add: pool_run_D wp_Size_def)

text \<open>The empty tasks of \<open>Shutdown\<close> do not count.\<close>

lemma real_effects: "filter is_effect (real_tasks p) = filter is_effect (wp_submitted p)"
  unfolding real_tasks_def filter_filter
proof (rule filter_cong [OF refl])
  show "((case t of None \<Rightarrow> False | Some _ \<Rightarrow> True) \<and> is_effect t) = is_effect t" for t
    by (cases t) simp_all
qed

lemma real_promises: "promises (real_tasks p) = promises (wp_submitted p)"
proof -
  have "promises (filter (\<lambda>t. case t of None \<Rightarrow> False | Some _ \<Rightarrow> True) ts) = promises ts"
    for ts :: "('a, 'b) task option list"
    by (induction ts) (auto simp: promises_def split: option.split)
  then show ?thesis by (simp add: real_tasks_def)
qed

lemma none_running: "count_if in_effect (replicate n W_Start) = 0"
  by (simp add: count_if_def filter_empty_conv)

text \<open>No more lines are printed than tasks that print were submitted.\<close>

lemma run_end:
  assumes "pool_run usable P cs ts before L p"
  obtains lines where "ev_out (fu_env p) = printed (before @ lines)" "set lines \<subseteq> L"
    "length lines \<le> length (filter is_effect ts)"
proof -
  from assms obtain lines where lines: "ev_out (fu_env p) = printed (before @ lines)" "set lines \<subseteq> L"
    "length lines \<le> length (filter is_effect (wp_started (fu_pool p)))"
    unfolding pool_run_def by (metis le_add1)
  have "filter is_effect ts = filter is_effect (wp_submitted (fu_pool p))"
    unfolding pool_run_D(3) [OF assms, symmetric] by (rule real_effects)
  then have "length (filter is_effect (wp_started (fu_pool p))) \<le> length (filter is_effect ts)"
    using wp_inv_tasks [OF pool_ok_inv(2) [OF pool_run_D(1) [OF assms]]] by simp
  with lines that show thesis by (meson order_trans)
qed

text \<open>The number of promises is that of the tasks that have one.\<close>

lemma run_promises:
  assumes "pool_run usable P cs ts before L p"
  shows "promises ts = [0..<length (fu_promises p)]"
  using fu_inv_promises [OF pool_ok_inv(1) [OF pool_run_D(1) [OF assms]]]
    pool_run_D(3) [OF assms] real_promises [of "fu_pool p"] by simp

text \<open>The future of the task that adds gives its result.\<close>

lemma run_get:
  assumes run: "pool_run usable P cs [Some (Compute 0 add_one_one)] before L p" and get: "fu_get 0 p = Some r"
  shows "r = 2"
proof -
  note ok = pool_ok_inv [OF pool_run_D(1) [OF run]]
  from get obtain f w e where f: "Some (Compute 0 f) \<in> set (wp_started (fu_pool p))" "r = fst (f w e)"
    using get_finished [OF ok] fu_inv_finished [OF ok(1)] by metis
  then have "Some (Compute 0 f) \<in> set (real_tasks (fu_pool p))"
    using wp_inv_tasks [OF ok(2)] by (simp add: real_tasks_def)
  then have "f = add_one_one" using pool_run_D(3) [OF run] by simp
  with f(2) show ?thesis by (simp add: add_one_one_def taskWithResult_def)
qed

text \<open>The pool is built.\<close>

lemma run_built:
  assumes "ev_failed e = None" "ev_out e = printed before" "length (ev_threads e) = length cs"
  shows "pool_run usable P cs [] before {} (fu_new (pin_thread P cs) (length cs) e)"
  using assms unfolding pool_run_def
  by (intro conjI pool_ok_new) (simp_all add: fu_new_def real_tasks_def WorkerPool_new_def none_running)

lemma build_one:
  assumes "b = WithThreadsPerCore 1 (OnCores cs WorkerPoolBuilder) \<or>
      b = WithThreadsPerCore 1 (OnNUMANode (NUMANode i cs) WorkerPoolBuilder)" "cs \<noteq> []"
  shows "Build b = Inr (cs, WorkerPool_new (length cs))"
proof -
  have "concat (map (replicate (unat (1 :: 32 word))) cs) = cs" by (induction cs) auto
  then show ?thesis
    using assms by (auto simp: Build_def WithThreadsPerCore_def OnCores_def OnNUMANode_def
        WorkerPoolBuilder_def NUMANode_default_def NUMANode_def nn_Empty_def nn_Cores_def
        pb_Cores_def WorkerPool_construct_def buildWorkerPool_eq Let_def)
qed

lemma open_built:
  assumes b: "b = WithThreadsPerCore 1 (OnCores cs WorkerPoolBuilder) \<or>
      b = WithThreadsPerCore 1 (OnNUMANode (NUMANode i cs) WorkerPoolBuilder)" "cs \<noteq> []"
  shows "open_pool P b pc a = a\<lparr>ap_pc := pc, ap_pool := fu_new (pin_thread P cs) (length cs)
    ((fu_env (ap_pool a))\<lparr>ev_threads := replicate (length cs) (ap_main a)\<rparr>)\<rparr>"
  unfolding open_pool_def build_one [OF assms] by (simp add: ap_goto_def start_pool_def fu_new_def)

lemma no_threads_act:
  "fu_act (FWork w) (no_pool e) = None" "fu_act (FWake w) (no_pool e) = None"
  by (simp_all add: no_pool_def fu_new_def WorkerPool_new_def fu_lift_def wp_work_def worker_body_def)

lemma card_cores: "core_set cs \<Longrightarrow> card (set cs) = length cs"
  by (rule distinct_card) (auto simp: strict_sorted_iff)

text \<open>A step of the program in which only the workers or \<open>Shutdown\<close> act.\<close>

lemma cores_pool_step:
  assumes "cores_pool usable P U ts before L p"
    "\<And>cs. set cs = U \<Longrightarrow> pool_run usable P cs ts before L p \<Longrightarrow> pool_run usable P cs ts' before' L' p'"
  shows "cores_pool usable P U ts' before' L' p'"
  using assms unfolding cores_pool_def by blast

lemma cores_size:
  "cores_pool usable P U ts before L p \<Longrightarrow> wp_Size (fu_pool p) = card U"
  unfolding cores_pool_def using run_size card_cores by metis

lemma cores_print:
  "cores_pool usable P U ts before {} p \<Longrightarrow>
     cores_pool usable P U ts (before @ [l]) {} (p\<lparr>fu_env := ev_print l (fu_env p)\<rparr>)"
  by (erule cores_pool_step) (erule run_print)

lemma print_size_pool:
  assumes "cores_pool usable P U ts before {} (ap_pool a)" "going (ap_pool a)"
  shows "cores_pool usable P U ts (before @ [size_line (card U)]) {} (ap_pool (print_size pc a)) \<and>
    going (ap_pool (print_size pc a))"
  using cores_print [OF assms(1)] cores_size [OF assms(1)] assms(2)
  by (simp add: print_size_def ap_goto_def ap_map_env_def going_def)

text \<open>\<open>Submit\<close>.\<close>

lemma submit_pool:
  assumes "cores_pool usable P U ts before L p" "going p" "fu_act (FSubmit w f) p = Some p'"
  shows "cores_pool usable P U (ts @ [Some (Effect f)]) before L p' \<and> going p'"
proof -
  from assms(3) obtain q where q: "wp_Submit w (Some (Effect f)) (fu_pool p) = Some q" "p' = p\<lparr>fu_pool := q\<rparr>"
    by (auto simp: fu_lift_Some)
  have run: "pool_run usable P cs (ts @ [Some (Effect f)]) before L p'"
    if "pool_run usable P cs ts before L p" for cs
    using run_submit [OF that pool_ok_act [OF pool_run_D(1) [OF that] assms(3)]] q by simp
  show ?thesis
    using cores_pool_step [OF assms(1) run] submit_shape(3) [OF q(1)] assms(2) by (simp add: going_def q(2))
qed

lemma submit_result_pool:
  assumes "cores_pool usable P U ts before L p" "going p" "fu_act (FSubmitResult w f) p = Some p'"
  shows "cores_pool usable P U (ts @ [Some (Compute (length (fu_promises p)) f)]) before L p' \<and> going p'"
proof -
  let ?t = "Some (Compute (length (fu_promises p)) f)"
  from assms(3) obtain q where q: "wp_Submit w ?t (fu_pool p) = Some q"
    "p' = p\<lparr>fu_promises := fu_promises p @ [None], fu_pool := q\<rparr>"
    by (auto simp: Submit_result_def make_promise_def fu_lift_Some)
  have run: "pool_run usable P cs (ts @ [?t]) before L p'"
    if "pool_run usable P cs ts before L p" for cs
    using run_submit [OF that pool_ok_act [OF pool_run_D(1) [OF that] assms(3)]] q by simp
  show ?thesis
    using cores_pool_step [OF assms(1) run] submit_shape(3) [OF q(1)] assms(2) by (simp add: going_def q(2))
qed

text \<open>\<open>~WorkerPool\<close>.\<close>

lemma leave_pool_step:
  assumes "cores_pool usable P U ts before L (ap_pool a)" "length (filter is_effect ts) \<le> 1"
    "leave_pool w pc a = Some a'"
  shows "ap_pc a' = ap_pc a \<and> cores_pool usable P U ts before L (ap_pool a') \<or>
    ap_pc a' = pc \<and> (\<exists>ls. at_most_one L ls \<and> no_threads (before @ ls) (ap_pool a'))"
proof (cases "wp_shutdown (fu_pool (ap_pool a)) = S_Done")
  case True
  then have a': "a' = ap_goto pc (a\<lparr>ap_pool := no_pool (fu_env (ap_pool a))\<rparr>)"
    using assms(3) by (simp add: leave_pool_def)
  from assms(1) obtain cs where run: "pool_run usable P cs ts before L (ap_pool a)"
    unfolding cores_pool_def by blast
  from run_end [OF this] assms(2) obtain ls where
    "ev_out (fu_env (ap_pool a)) = printed (before @ ls)" "at_most_one L ls"
    by (metis at_most_one_def order_trans)
  then show ?thesis using pool_run_D(5) [OF run] by (auto simp: a' ap_goto_def no_threads_def)
next
  case False
  then obtain p where p: "fu_act (FMain w) (ap_pool a) = Some p" "a' = a\<lparr>ap_pool := p\<rparr>"
    using assms(3) by (auto simp: leave_pool_def split: shutdown.splits)
  with cores_pool_step [OF assms(1) run_shutdown [OF _ p(1)]] show ?thesis by simp
qed

section \<open>The invariant is kept\<close>

definition tasks_fit :: "('s \<Rightarrow> core set) \<Rightarrow> core set \<Rightarrow> ('s app_env, int) task option list \<Rightarrow> string set \<Rightarrow> bool" where
  "tasks_fit usable U ts L \<longleftrightarrow> (\<forall>cs. set cs = U \<longrightarrow> (\<forall>t \<in> set ts. task_ok usable cs L t))"

lemma add_fits:
  "tasks_fit usable U [] L" "tasks_fit usable U [Some (Compute k add_one_one)] L"
  "tasks_fit usable U (t # ts) L \<longleftrightarrow> tasks_fit usable U [t] L \<and> tasks_fit usable U ts L"
  by (auto simp: tasks_fit_def add_one_one_def)

lemma node_cores_subset: "node_cores node U \<subseteq> U"
  by (auto simp: node_cores_def)

text \<open>A step that keeps every pool in use, and that no pool without threads can make.\<close>

lemma pc_inv_kept:
  assumes inv: "pc_inv usable node P U pc p" and none: "\<And>lines. \<not> no_threads lines p"
    and keep: "\<And>V ts before L. V \<subseteq> U \<Longrightarrow> tasks_fit usable V ts L \<Longrightarrow>
      cores_pool usable P V ts before L p \<Longrightarrow> cores_pool usable P V ts before L p'"
    and going: "going p \<Longrightarrow> going p'"
    and fit: "tasks_fit usable U [Some (Effect (core_task P))] (core_lines U)"
      "tasks_fit usable (node_cores node U) [Some (Effect (node_task P))] (node_lines node U)"
  shows "pc_inv usable node P U pc p'"
proof -
  note core = keep [OF order_refl] and node = keep [OF node_cores_subset]
  have both: "tasks_fit usable U [Some (Compute k add_one_one), Some (Effect (core_task P))] (core_lines U)" for k
    using add_fits(3) add_fits(2) fit(1) by blast
  show ?thesis
  proof (cases pc)
    case MC_Size
    with inv core [OF add_fits(1)] going show ?thesis by simp
  next
    case MC_Add
    with inv core [OF add_fits(1)] going show ?thesis by simp
  next
    case (MC_Get k)
    with inv core [OF add_fits(2)] going show ?thesis by simp
  next
    case MC_Print
    with inv core [OF add_fits(2)] going show ?thesis by simp
  next
    case MC_Leave
    with inv core [OF both] show ?thesis by simp
  next
    case MN_Size
    with inv node [OF add_fits(1)] going show ?thesis by auto
  next
    case MN_Print
    with inv node [OF add_fits(1)] going show ?thesis by auto
  next
    case MN_Leave
    with inv node [OF fit(2)] show ?thesis by auto
  qed (use inv none in auto)
qed

context processor_contract
begin

lemma core_task_fits:
  assumes "valid m"
  shows "tasks_fit (usable m) U [Some (Effect (core_task (operator m)))] (core_lines U)"
  unfolding tasks_fit_def
proof (intro allI impI ballI)
  fix cs and t :: "('s app_env, int) task option" assume cs: "set cs = U" and t: "t \<in> set [Some (Effect (core_task (operator m)))]"
  have "\<exists>l \<in> core_lines U. \<exists>s. usable m s = {cs ! w} \<and>
      core_task (operator m) w e = ev_print l (e\<lparr>ev_threads := (ev_threads e)[w := s]\<rparr>)"
    if w: "w < length cs" and on: "thread_on (usable m) cs w e" for w e
  proof (intro bexI exI conjI)
    show "usable m (ev_threads e ! w) = {cs ! w}" using on by (simp add: thread_on_def)
    from finds_core [OF assms this] show "core_task (operator m) w e =
        ev_print (core_line (cs ! w)) (e\<lparr>ev_threads := (ev_threads e)[w := ev_threads e ! w]\<rparr>)"
      by (simp add: core_task_def)
    show "core_line (cs ! w) \<in> core_lines U" using w cs nth_mem by (auto simp: core_lines_def)
  qed
  with t show "task_ok (usable m) cs (core_lines U) t" by simp
qed

lemma node_task_fits:
  assumes "valid m"
  shows "tasks_fit (usable m) (node_cores (node m) U) [Some (Effect (node_task (operator m)))] (node_lines (node m) U)"
  unfolding tasks_fit_def
proof (intro allI impI ballI)
  fix cs and t :: "('s app_env, int) task option" assume cs: "set cs = node_cores (node m) U"
    and t: "t \<in> set [Some (Effect (node_task (operator m)))]"
  have "\<exists>l \<in> node_lines (node m) U. \<exists>s. usable m s = {cs ! w} \<and>
      node_task (operator m) w e = ev_print l (e\<lparr>ev_threads := (ev_threads e)[w := s]\<rparr>)"
    if w: "w < length cs" and on: "thread_on (usable m) cs w e" for w e
  proof -
    have us: "usable m (ev_threads e ! w) = {cs ! w}" using on by (simp add: thread_on_def)
    from finds_node [OF assms us] obtain n ns s where n: "nn_GetID n = node m (cs ! w)" "usable m s = {cs ! w}"
      "po_FindAvailableNumaNodes (operator m) (ev_threads e ! w) = Inr (n # ns, s)" .
    have "cs ! w \<in> node_cores (node m) U" using w cs nth_mem by blast
    then have line: "node_line (nn_GetID n) (cs ! w) \<in> node_lines (node m) U"
      unfolding node_lines_def n(1) by (auto simp: node_cores_def)
    have "node_task (operator m) w e =
        ev_print (node_line (nn_GetID n) (cs ! w)) (e\<lparr>ev_threads := (ev_threads e)[w := s]\<rparr>)"
      by (simp add: node_task_def finds_core [OF assms us] n(3))
    with line n(2) show ?thesis by blast
  qed
  with t show "task_ok (usable m) cs (node_lines (node m) U) t" by simp
qed

text \<open>A step of a worker.\<close>

lemma pc_inv_work:
  assumes m: "valid m" "U \<subseteq> online m" and inv: "pc_inv (usable m) (node m) (operator m) U pc p"
    and act: "fu_act (FWork w) p = Some p'"
  shows "pc_inv (usable m) (node m) (operator m) U pc p'"
proof (rule pc_inv_kept [OF inv _ _ _ core_task_fits [OF m(1)] node_task_fits [OF m(1)]])
  show "\<not> no_threads lines p" for lines
    using act by (auto simp: no_threads_def no_threads_act simp del: fu_act.simps)
  show "cores_pool (usable m) (operator m) V ts before L p'"
    if "V \<subseteq> U" "tasks_fit (usable m) V ts L" "cores_pool (usable m) (operator m) V ts before L p" for V ts before L
    using cores_pool_step [OF that(3)] run_work [OF m(1) _ _ _ act] that(1,2) m(2)
    unfolding tasks_fit_def by (metis order_trans)
  have "wp_shutdown (fu_pool p') = wp_shutdown (fu_pool p)"
    using act by (auto simp: fu_lift_Some wp_work_def split: if_splits worker.splits option.splits)
  then show "going p \<Longrightarrow> going p'" by (simp add: going_def)
qed

lemma pc_inv_wake:
  assumes m: "valid m" and inv: "pc_inv (usable m) (node m) (operator m) U pc p"
    and act: "fu_act (FWake w) p = Some p'"
  shows "pc_inv (usable m) (node m) (operator m) U pc p'"
proof (rule pc_inv_kept [OF inv _ _ _ core_task_fits [OF m] node_task_fits [OF m]])
  show "\<not> no_threads lines p" for lines
    using act by (auto simp: no_threads_def no_threads_act simp del: fu_act.simps)
  show "cores_pool (usable m) (operator m) V ts before L p'"
    if "cores_pool (usable m) (operator m) V ts before L p" for V ts before L
    by (rule cores_pool_step [OF that]) (use run_wake [OF _ act] in blast)
  have "wp_shutdown (fu_pool p') = wp_shutdown (fu_pool p)"
    using act by (auto simp: fu_lift_Some split: if_splits worker.splits)
  then show "going p \<Longrightarrow> going p'" by (simp add: going_def)
qed

end

section \<open>The steps of the main thread\<close>

lemma no_pool_env [simp]: "fu_env (no_pool e) = e\<lparr>ev_threads := []\<rparr>"
  by (simp add: no_pool_def fu_new_def)

text \<open>A pool is built on the cores \<open>cs\<close> when \<open>lines\<close> have been printed.\<close>

lemma open_cores_pool:
  assumes b: "b = WithThreadsPerCore 1 (OnCores cs WorkerPoolBuilder) \<or>
      b = WithThreadsPerCore 1 (OnNUMANode (NUMANode i cs) WorkerPoolBuilder)" "cs \<noteq> []"
    and cs: "core_set cs" "set cs = U"
    and e: "ev_out (fu_env (ap_pool a)) = printed lines" "ev_failed (fu_env (ap_pool a)) = None"
  shows "ap_pc (open_pool P b pc a) = pc" "ap_main (open_pool P b pc a) = ap_main a"
    "ap_err (open_pool P b pc a) = ap_err a"
    "cores_pool usable P U [] lines {} (ap_pool (open_pool P b pc a))" "going (ap_pool (open_pool P b pc a))"
proof -
  let ?p = "fu_new (pin_thread P cs) (length cs)
    ((fu_env (ap_pool a))\<lparr>ev_threads := replicate (length cs) (ap_main a)\<rparr>)"
  have "pool_run usable P cs [] lines {} ?p" by (rule run_built) (simp_all add: e)
  moreover have "going ?p" by (simp add: going_def fu_new_def WorkerPool_new_def)
  ultimately show "ap_pc (open_pool P b pc a) = pc" "ap_main (open_pool P b pc a) = ap_main a"
    "ap_err (open_pool P b pc a) = ap_err a"
    "cores_pool usable P U [] lines {} (ap_pool (open_pool P b pc a))" "going (ap_pool (open_pool P b pc a))"
    using cs unfolding open_built [OF b] cores_pool_def by auto
qed

lemma sorted_head:
  assumes "sorted_wrt nn_less (n # ns)"
  shows "nn_GetID n = Min (nn_GetID ` set (n # ns))"
  using assms by (intro Min_eqI [symmetric]) (auto simp: nn_less_def nn_GetID_def)

context processor_contract
begin

lemma main_builds_cores:
  assumes m: "valid m" and inv: "app_inv (usable m) (node m) (operator m) s a" and pc: "ap_pc a = MC_Build"
    and step: "main_does (operator m) w MC_Build a = Some a'"
  shows "app_inv (usable m) (node m) (operator m) s a' \<and> ap_pc a' = MC_Size"
proof -
  obtain cs where cs: "po_FindAvailableCores (operator m) (ap_main a) = Inr cs" "core_set cs"
    "set cs = usable m s" "usable m (ap_main a) = usable m s"
    using cores_found [OF m, of "ap_main a"] inv by (auto simp: app_inv_def)
  then have ne: "cs \<noteq> []" using usable_online [OF m, of s] by auto
  let ?a = "ap_map_env (ev_print ''-- executing tasks with core affinity'') a"
  let ?b = "WithThreadsPerCore 1 (OnCores cs WorkerPoolBuilder)"
  have e: "ev_out (fu_env (ap_pool ?a)) = printed core_head" "ev_failed (fu_env (ap_pool ?a)) = None"
    "ap_main ?a = ap_main a" "ap_err ?a = ''''"
    using inv pc by (auto simp: app_inv_def no_threads_def ap_map_env_def core_head_def)
  have a': "a' = open_pool (operator m) ?b MC_Size ?a"
    using step cs(1) e(3) by simp
  from open_cores_pool [OF disjI1 [OF refl] ne cs(2,3) e(1,2)] show ?thesis
    unfolding a' app_inv_def using cs(4) e(3,4) by simp
qed

lemma main_builds_node:
  assumes m: "valid m" and inv: "app_inv (usable m) (node m) (operator m) s a" and pc: "ap_pc a = MN_Build"
    and step: "main_does (operator m) w MN_Build a = Some a'"
  shows "app_inv (usable m) (node m) (operator m) s a' \<and> ap_pc a' = MN_Size"
proof -
  let ?U = "usable m s"
  have main: "usable m (ap_main a) = ?U" using inv by (simp add: app_inv_def)
  obtain ns s' where ns: "po_FindAvailableNumaNodes (operator m) (ap_main a) = Inr (ns, s')" "usable m s' = ?U"
    "sorted_wrt nn_less ns" "nn_GetID ` set ns = node m ` ?U"
    and all: "\<forall>n \<in> set ns. n = NUMANode (nn_GetID n) (nn_Cores n) \<and> core_set (nn_Cores n) \<and>
      nn_Cores n \<noteq> [] \<and> set (nn_Cores n) = {c \<in> ?U. node m c = nn_GetID n}"
    using nodes_found [OF m, of "ap_main a"] unfolding main by blast
  obtain n ns' where n: "ns = n # ns'"
    using ns(4) usable_online [OF m, of s] by (cases ns) auto
  have first: "nn_GetID n = first_node (node m) ?U"
    using sorted_head [of n ns'] ns(3,4) by (simp add: n first_node_def)
  have cs: "core_set (nn_Cores n)" "set (nn_Cores n) = node_cores (node m) ?U" "nn_Cores n \<noteq> []"
    "n = NUMANode (nn_GetID n) (nn_Cores n)"
    using all by (auto simp: n first node_cores_def)
  from inv pc obtain ls where ls: "at_most_one (core_lines ?U) ls" "no_threads (core_text ?U @ ls) (ap_pool a)"
    by (auto simp: app_inv_def)
  let ?a = "(ap_map_env (ev_print ''-- executing tasks with NUMA node affinity'')
    (ap_map_env (ev_print '''') a))\<lparr>ap_main := s'\<rparr>"
  let ?b = "WithThreadsPerCore 1 (OnNUMANode n WorkerPoolBuilder)"
  have e: "ev_out (fu_env (ap_pool ?a)) = printed (core_text ?U @ ls @ node_head)"
    "ev_failed (fu_env (ap_pool ?a)) = None" "ap_main ?a = s'" "ap_err ?a = ''''"
    using inv ls(2) by (auto simp: app_inv_def no_threads_def ap_map_env_def node_head_def)
  have b: "?b = WithThreadsPerCore 1 (OnCores (nn_Cores n) WorkerPoolBuilder) \<or>
      ?b = WithThreadsPerCore 1 (OnNUMANode (NUMANode (nn_GetID n) (nn_Cores n)) WorkerPoolBuilder)"
    using cs(4) by simp
  have a': "a' = open_pool (operator m) ?b MN_Size ?a"
    using step ns(1) n by (simp add: ap_map_env_def Let_def)
  from open_cores_pool [OF b cs(3,1,2) e(1,2)] show ?thesis
    unfolding a' app_inv_def using ns(2) e(3,4) ls(1) by auto
qed

end

lemma app_inv_at:
  "app_inv usable node P s a \<Longrightarrow> ap_pc a = pc \<Longrightarrow> pc_inv usable node P (usable s) pc (ap_pool a)"
  by (simp add: app_inv_def)

text \<open>A step that goes to \<open>pc\<close> and changes no more than the pool.\<close>

lemma app_invI:
  assumes "app_inv usable node P s a" "pc_inv usable node P (usable s) pc p"
    "ap_pc a' = pc" "ap_pool a' = p" "ap_main a' = ap_main a" "ap_err a' = ap_err a"
  shows "app_inv usable node P s a'"
  using assms by (simp add: app_inv_def)

lemma print_size_frame:
  "ap_pc (print_size pc a) = pc" "ap_main (print_size pc a) = ap_main a" "ap_err (print_size pc a) = ap_err a"
  by (simp_all add: print_size_def ap_goto_def ap_map_env_def)

lemma submit_task_D:
  assumes "submit_task w f pc a = Some a'"
  obtains p where "fu_act (FSubmit w f) (ap_pool a) = Some p" "ap_pool a' = p" "ap_pc a' = pc"
    "ap_main a' = ap_main a" "ap_err a' = ap_err a"
  using assms by (auto simp: submit_task_def ap_goto_def simp del: fu_act.simps)

lemma leave_pool_frame:
  assumes "leave_pool w pc a = Some a'"
  shows "ap_main a' = ap_main a" "ap_err a' = ap_err a"
  using assms by (auto simp: leave_pool_def ap_goto_def simp del: fu_act.simps split: shutdown.splits)

lemma cores_more: "cores_pool usable P U ts before {} p \<Longrightarrow> cores_pool usable P U ts before L p"
  by (erule cores_pool_step) (erule pool_run_more, simp)

lemma main_adds:
  assumes inv: "app_inv usable node P s a" and pc: "ap_pc a = MC_Add"
    and step: "main_does P w MC_Add a = Some a'"
  shows "app_inv usable node P s a'"
proof -
  let ?L = "core_head @ [size_line (card (usable s))]"
  from step obtain p where p: "fu_act (FSubmitResult w add_one_one) (ap_pool a) = Some p"
    "a' = ap_goto (MC_Get (length (fu_promises (ap_pool a)))) (a\<lparr>ap_pool := p\<rparr>)"
    by (auto simp del: fu_act.simps)
  have pool: "cores_pool usable P (usable s) [] ?L {} (ap_pool a)" "going (ap_pool a)"
    using app_inv_at [OF inv pc] by simp_all
  from pool(1) obtain cs where "pool_run usable P cs [] ?L {} (ap_pool a)" unfolding cores_pool_def by blast
  from arg_cong [OF run_promises [OF this], of length] have none: "length (fu_promises (ap_pool a)) = 0"
    by simp
  from submit_result_pool [OF pool p(1), unfolded none] show ?thesis
    by (intro app_invI [OF inv, of "MC_Get 0" p]) (simp_all add: p(2) ap_goto_def none)
qed

lemma main_gets:
  assumes inv: "app_inv usable node P s a" and pc: "ap_pc a = MC_Get k"
    and step: "main_does P w (MC_Get k) a = Some a'"
  shows "app_inv usable node P s a'"
proof -
  let ?U = "usable s" and ?add = "[Some (Compute 0 add_one_one)]"
  from step obtain r where r: "fu_get k (ap_pool a) = Some r"
    "a' = ap_goto MC_Print (ap_map_env (ev_print (returned_line r)) a)" by auto
  have at: "k = 0" "going (ap_pool a)"
    "cores_pool usable P ?U ?add (core_head @ [size_line (card ?U)]) {} (ap_pool a)"
    using app_inv_at [OF inv pc] by simp_all
  from at(3) obtain cs where "pool_run usable P cs ?add (core_head @ [size_line (card ?U)]) {} (ap_pool a)"
    unfolding cores_pool_def by blast
  from run_get [OF this] r(1) at(1) have "r = 2" by simp
  with cores_print [OF at(3), of "returned_line r"] at(2) show ?thesis
    by (intro app_invI [OF inv, of MC_Print "ap_pool a'"])
      (simp_all add: r(2) ap_goto_def ap_map_env_def core_text_def going_def)
qed

lemma main_prints_core:
  assumes inv: "app_inv usable node P s a" and pc: "ap_pc a = MC_Print"
    and step: "main_does P w MC_Print a = Some a'"
  shows "app_inv usable node P s a'"
proof -
  let ?U = "usable s"
  from step obtain p where p: "fu_act (FSubmit w (core_task P)) (ap_pool a) = Some p"
    "ap_pool a' = p" "ap_pc a' = MC_Leave" "ap_main a' = ap_main a" "ap_err a' = ap_err a"
    by (auto simp del: fu_act.simps elim: submit_task_D)
  have "going (ap_pool a)" "cores_pool usable P ?U [Some (Compute 0 add_one_one)] (core_text ?U) (core_lines ?U) (ap_pool a)"
    using app_inv_at [OF inv pc] cores_more by auto
  from submit_pool [OF this(2,1) p(1)] show ?thesis
    by (intro app_invI [OF inv _ p(3,2,4,5)]) simp
qed

lemma main_prints_node:
  assumes inv: "app_inv usable node P s a" and pc: "ap_pc a = MN_Print"
    and step: "main_does P w MN_Print a = Some a'"
  shows "app_inv usable node P s a'"
proof -
  let ?U = "usable s"
  from step obtain p where p: "fu_act (FSubmit w (node_task P)) (ap_pool a) = Some p"
    "ap_pool a' = p" "ap_pc a' = MN_Leave" "ap_main a' = ap_main a" "ap_err a' = ap_err a"
    by (auto simp del: fu_act.simps elim: submit_task_D)
  from app_inv_at [OF inv pc] obtain ls where ls: "at_most_one (core_lines ?U) ls" "going (ap_pool a)"
    "cores_pool usable P (node_cores node ?U) []
      (core_text ?U @ ls @ node_head @ [size_line (card (node_cores node ?U))]) {} (ap_pool a)"
    by auto
  from submit_pool [OF cores_more [OF ls(3)] ls(2) p(1)] ls(1) show ?thesis
    by (intro app_invI [OF inv _ p(3,2,4,5)]) auto
qed

lemma main_leaves_core:
  assumes inv: "app_inv usable node P s a" and pc: "ap_pc a = MC_Leave"
    and step: "main_does P w MC_Leave a = Some a'"
  shows "app_inv usable node P s a'"
proof -
  from step have leave: "leave_pool w MN_Build a = Some a'" by simp
  from leave_pool_step [OF _ _ leave] app_inv_at [OF inv pc] pc
  have "ap_pc a' = MC_Leave \<and> pc_inv usable node P (usable s) MC_Leave (ap_pool a') \<or>
      ap_pc a' = MN_Build \<and> pc_inv usable node P (usable s) MN_Build (ap_pool a')" by simp
  with app_invI [OF inv _ _ refl leave_pool_frame [OF leave]] show ?thesis by blast
qed

lemma main_leaves_node:
  assumes inv: "app_inv usable node P s a" and pc: "ap_pc a = MN_Leave"
    and step: "main_does P w MN_Leave a = Some a'"
  shows "app_inv usable node P s a'"
proof -
  let ?U = "usable s"
  let ?text = "\<lambda>ls. core_text ?U @ ls @ node_head @ [size_line (card (node_cores node ?U))]"
  from step have leave: "leave_pool w M_Return a = Some a'" by simp
  from app_inv_at [OF inv pc] obtain ls where ls: "at_most_one (core_lines ?U) ls"
    "cores_pool usable P (node_cores node ?U) [Some (Effect (node_task P))] (?text ls) (node_lines node ?U) (ap_pool a)"
    by auto
  have "length (filter is_effect [Some (Effect (node_task P)) :: ('a app_env, int) task option]) \<le> 1" by simp
  from leave_pool_step [OF ls(2) this leave] ls(1) pc
  have "ap_pc a' = MN_Leave \<and> pc_inv usable node P ?U MN_Leave (ap_pool a') \<or>
      ap_pc a' = M_Return \<and> pc_inv usable node P ?U M_Return (ap_pool a')" by auto
  with app_invI [OF inv _ _ refl leave_pool_frame [OF leave]] show ?thesis by blast
qed

lemma main_prints_size:
  assumes inv: "app_inv usable node P s a" and pc: "ap_pc a = MC_Size \<or> ap_pc a = MN_Size"
    and step: "main_does P w (ap_pc a) a = Some a'"
  shows "app_inv usable node P s a'"
  using pc
proof
  assume pc: "ap_pc a = MC_Size"
  from print_size_pool [where a = a and pc = MC_Add] app_inv_at [OF inv pc] step pc show ?thesis
    by (intro app_invI [OF inv _ _ refl, of MC_Add]) (auto simp: print_size_frame)
next
  assume pc: "ap_pc a = MN_Size"
  from print_size_pool [where a = a and pc = MN_Print] app_inv_at [OF inv pc] step pc show ?thesis
    by (intro app_invI [OF inv _ _ refl, of MN_Print]) (fastforce simp: print_size_frame)+
qed

section \<open>All steps\<close>

context processor_contract
begin

lemma app_inv_main:
  assumes m: "valid m" and inv: "app_inv (usable m) (node m) (operator m) s a"
    and step: "main_does (operator m) w (ap_pc a) a = Some a'"
  shows "app_inv (usable m) (node m) (operator m) s a'"
proof (cases "ap_pc a")
  case MC_Build
  with main_builds_cores [OF m inv] step show ?thesis by simp
next
  case MN_Build
  with main_builds_node [OF m inv] step show ?thesis by simp
next
  case (MC_Get k)
  with main_gets [OF inv] step show ?thesis by simp
qed (use step main_adds [OF inv] main_prints_core [OF inv] main_prints_node [OF inv] main_leaves_core [OF inv]
    main_leaves_node [OF inv] main_prints_size [OF inv] in \<open>simp_all del: main_does.simps(1-10)\<close>)

lemma app_inv_act:
  assumes m: "valid m" and inv: "app_inv (usable m) (node m) (operator m) s a"
    and act: "app_act (operator m) x a = Some a'"
  shows "app_inv (usable m) (node m) (operator m) s a'"
proof (cases x)
  case (Main_does w)
  with act app_inv_main [OF m inv] show ?thesis by (auto simp: app_act_def split: if_splits)
next
  case (Worker_does w)
  with act obtain p where p: "fu_act (FWork w) (ap_pool a) = Some p" "a' = a\<lparr>ap_pool := p\<rparr>"
    by (auto simp: app_act_def simp del: fu_act.simps split: if_splits)
  from pc_inv_work [OF m _ _ p(1)] usable_online [OF m] inv show ?thesis
    by (simp add: app_inv_def p(2))
next
  case (Worker_wakes w)
  with act obtain p where p: "fu_act (FWake w) (ap_pool a) = Some p" "a' = a\<lparr>ap_pool := p\<rparr>"
    by (auto simp: app_act_def simp del: fu_act.simps split: if_splits)
  from pc_inv_wake [OF m _ p(1)] inv show ?thesis by (simp add: app_inv_def p(2))
qed

lemma app_inv_reachable:
  assumes m: "valid m"
  shows "app_reachable (operator m) s a \<Longrightarrow> app_inv (usable m) (node m) (operator m) s a"
proof (induction rule: app_reachable.induct)
  case app_begin
  then show ?case by (auto simp: app_inv_def app_new_def no_threads_def)
next
  case (app_do a x a')
  from app_inv_act [OF m app_do.IH app_do.hyps(2)] show ?case .
qed

end

section \<open>The program comes to its end\<close>

fun pc_rank :: "main_pc \<Rightarrow> nat" where
  "pc_rank MC_Build = 10"
| "pc_rank MC_Size = 9"
| "pc_rank MC_Add = 8"
| "pc_rank (MC_Get k) = 7"
| "pc_rank MC_Print = 6"
| "pc_rank MC_Leave = 5"
| "pc_rank MN_Build = 4"
| "pc_rank MN_Size = 3"
| "pc_rank MN_Print = 2"
| "pc_rank MN_Leave = 1"
| "pc_rank M_Return = 0"

lemma pc_inv_failed: "pc_inv usable node P U pc p \<Longrightarrow> ev_failed (fu_env p) = None"
  by (cases pc) (auto simp: no_threads_def cores_pool_def dest: pool_run_D(5))

lemma app_inv_failed: "app_inv usable node P s a \<Longrightarrow> ev_failed (fu_env (ap_pool a)) = None"
  unfolding app_inv_def using pc_inv_failed by blast

lemma submit_enabled: "\<exists>w p'. fu_act (FSubmit w f) p = Some p'"
  "\<exists>w p'. fu_act (FSubmitResult w g) p = Some p'"
proof -
  obtain w ws where "notify_one w (wp_threads (fu_pool p)) = Some ws" using notify_some by blast
  then show "\<exists>w p'. fu_act (FSubmit w f) p = Some p'" "\<exists>w p'. fu_act (FSubmitResult w g) p = Some p'"
    by (auto simp: fu_lift_def wp_Submit_def Submit_result_def make_promise_def intro!: exI [of _ w])
qed

lemma build_enabled: "main_does P w MC_Build a \<noteq> None" "main_does P w MN_Build a \<noteq> None"
  by (simp_all add: Let_def split: sum.split list.split)

text \<open>While the main thread is in \<open>~WorkerPool\<close> the pool does what it does alone.\<close>

lemma own_app_act:
  assumes "fu_act (fu_own x) (ap_pool a) = Some q" "own_step x" "ev_failed (fu_env (ap_pool a)) = None"
    "ap_pc a = MC_Leave \<or> ap_pc a = MN_Leave \<or> (\<exists>w. x = Work w)"
  shows "\<exists>y. app_act P y a = Some (a\<lparr>ap_pool := q\<rparr>)"
proof (cases x)
  case (Work w)
  with assms show ?thesis by (intro exI [of _ "Worker_does w"]) (simp add: app_act_def del: fu_act.simps)
next
  case (Main w)
  then have "wp_shutdown (fu_pool (ap_pool a)) \<noteq> S_Done"
    using assms(1) by (auto simp: fu_lift_Some wp_main_def)
  with Main assms show ?thesis
    by (intro exI [of _ "Main_does w"])
      (auto simp: app_act_def leave_pool_def simp del: fu_act.simps split: shutdown.split)
qed (use assms(2) in auto)

context processor_contract
begin

lemma own_app_exec:
  assumes m: "valid m"
  shows "fu_exec (map fu_own as) (ap_pool a) = Some p \<Longrightarrow> list_all own_step as \<Longrightarrow>
    app_inv (usable m) (node m) (operator m) s a \<Longrightarrow>
    ap_pc a = MC_Leave \<or> ap_pc a = MN_Leave \<or> (\<exists>ws. as = map Work ws) \<Longrightarrow>
    \<exists>xs. app_exec (operator m) xs a = Some (a\<lparr>ap_pool := p\<rparr>)"
proof (induction as arbitrary: a)
  case Nil
  then show ?case by (intro exI [of _ "[]"]) simp
next
  case (Cons x as)
  from Cons.prems(1) obtain q where q: "fu_act (fu_own x) (ap_pool a) = Some q"
    "fu_exec (map fu_own as) q = Some p" by (auto split: option.splits)
  let ?a = "a\<lparr>ap_pool := q\<rparr>"
  obtain y where y: "app_act (operator m) y a = Some ?a"
    using own_app_act [OF q(1) _ app_inv_failed [OF Cons.prems(3)]] Cons.prems(2,4) by auto
  have "ap_pc ?a = MC_Leave \<or> ap_pc ?a = MN_Leave \<or> (\<exists>ws. as = map Work ws)"
    using Cons.prems(4) by auto
  from Cons.IH [OF _ _ app_inv_act [OF m Cons.prems(3) y] this] q(2) Cons.prems(2) obtain xs where
    "app_exec (operator m) xs ?a = Some (?a\<lparr>ap_pool := p\<rparr>)" by auto
  with y show ?case by (intro exI [of _ "y # xs"]) simp
qed

lemma app_inv_exec:
  "valid m \<Longrightarrow> app_inv (usable m) (node m) (operator m) s a \<Longrightarrow> app_exec (operator m) xs a = Some a' \<Longrightarrow>
     app_inv (usable m) (node m) (operator m) s a'"
  by (induction xs arbitrary: a) (auto split: option.splits intro: app_inv_act)

text \<open>The main thread waits for the result of a task, which the workers compute.\<close>

lemma get_advances:
  assumes m: "valid m" and inv: "app_inv (usable m) (node m) (operator m) s a" and pc: "ap_pc a = MC_Get k"
  shows "\<exists>xs a'. app_exec (operator m) xs a = Some a' \<and> ap_pc a' = MC_Print"
proof -
  from app_inv_at [OF inv pc] obtain cs before L where k: "k = 0" and go: "going (ap_pool a)"
    and cs: "set cs = usable m s" and run: "pool_run (usable m) (operator m) cs [Some (Compute 0 add_one_one)] before L (ap_pool a)"
    by (auto simp: cores_pool_def)
  note ok = pool_run_D(1) [OF run]
  have "wp_alive (fu_pool (ap_pool a))" using pool_ok_inv(2) [OF ok] go by (simp add: wp_inv_def going_def)
  moreover have "0 < length cs" using cs usable_online [OF m, of s] by auto
  ultimately obtain ws p where p: "fu_exec (map FWork ws) (ap_pool a) = Some p"
    "length (fu_promises p) = length (fu_promises (ap_pool a))" "work_left (fu_pool p) = 0"
    using workers_drain [OF ok] by blast
  have "length (fu_promises (ap_pool a)) = 1" using arg_cong [OF run_promises [OF run], of length] by simp
  then have "0 < length (fu_promises p)" unfolding p(2) by simp
  then obtain r where r: "fu_get 0 p = Some r"
    using drained_ready [OF fu_exec_ok [OF ok p(1)] p(3), of 0] by auto
  have "fu_exec (map fu_own (map Work ws)) (ap_pool a) = Some p" "list_all own_step (map Work ws)"
    using p(1) by (simp_all add: comp_def list_all_iff)
  from own_app_exec [OF m this inv] obtain xs where xs: "app_exec (operator m) xs a = Some (a\<lparr>ap_pool := p\<rparr>)"
    by auto
  from app_inv_failed [OF app_inv_exec [OF m inv xs]]
  have "app_act (operator m) (Main_does 0) (a\<lparr>ap_pool := p\<rparr>) =
      Some (ap_goto MC_Print (ap_map_env (ev_print (returned_line r)) (a\<lparr>ap_pool := p\<rparr>)))"
    using pc k r by (simp add: app_act_def)
  with xs show ?thesis
    by (intro exI [of _ "xs @ [Main_does 0]"]) (simp add: app_exec_append ap_goto_def ap_map_env_def)
qed

text \<open>The main thread leaves a function.\<close>

lemma leave_advances:
  assumes m: "valid m" and inv: "app_inv (usable m) (node m) (operator m) s a"
    and pc: "ap_pc a = MC_Leave \<or> ap_pc a = MN_Leave"
  shows "\<exists>xs a'. app_exec (operator m) xs a = Some a' \<and> pc_rank (ap_pc a') < pc_rank (ap_pc a)"
proof -
  from pc inv obtain U ts before L where "cores_pool (usable m) (operator m) U ts before L (ap_pool a)"
    by (auto simp: app_inv_def)
  then obtain cs where "pool_run (usable m) (operator m) cs ts before L (ap_pool a)"
    unfolding cores_pool_def by blast
  from fu_shutdown_finishes [OF pool_run_D(1) [OF this]] obtain as p where
    p: "fu_exec (map fu_own as) (ap_pool a) = Some p" "list_all own_step as" "wp_shutdown (fu_pool p) = S_Done"
    by blast
  from own_app_exec [OF m p(1,2) inv] pc obtain xs where
    xs: "app_exec (operator m) xs a = Some (a\<lparr>ap_pool := p\<rparr>)" by blast
  from app_inv_failed [OF app_inv_exec [OF m inv xs]] p(3) pc
  have "\<exists>a'. app_act (operator m) (Main_does 0) (a\<lparr>ap_pool := p\<rparr>) = Some a' \<and> pc_rank (ap_pc a') < pc_rank (ap_pc a)"
    by (auto simp: app_act_def leave_pool_def ap_goto_def)
  with xs show ?thesis by (auto simp: app_exec_append intro!: exI [of _ "xs @ [Main_does 0]"])
qed

lemma app_advances:
  assumes m: "valid m" and inv: "app_inv (usable m) (node m) (operator m) s a" and pc: "ap_pc a \<noteq> M_Return"
  shows "\<exists>xs a'. app_exec (operator m) xs a = Some a' \<and> pc_rank (ap_pc a') < pc_rank (ap_pc a)"
proof -
  note ok = app_inv_failed [OF inv]
  have main: ?thesis
    if "main_does (operator m) w (ap_pc a) a = Some a'" "pc_rank (ap_pc a') < pc_rank (ap_pc a)" for w a'
    using that ok by (intro exI [of _ "[Main_does w]"]) (simp add: app_act_def)
  show ?thesis
  proof (cases "ap_pc a")
    case MC_Build
    obtain a' where "main_does (operator m) 0 MC_Build a = Some a'"
      using build_enabled(1) [of "operator m" 0 a] by blast
    with main [of 0 a'] main_builds_cores [OF m inv MC_Build, of 0 a'] MC_Build show ?thesis by simp
  next
    case MN_Build
    obtain a' where "main_does (operator m) 0 MN_Build a = Some a'"
      using build_enabled(2) [of "operator m" 0 a] by blast
    with main [of 0 a'] main_builds_node [OF m inv MN_Build, of 0 a'] MN_Build show ?thesis by simp
  next
    case MC_Add
    obtain w p where "fu_act (FSubmitResult w add_one_one) (ap_pool a) = Some p"
      using submit_enabled(2) by blast
    with main [of w] MC_Add show ?thesis by (simp add: ap_goto_def del: fu_act.simps)
  next
    case MC_Print
    obtain w p where "fu_act (FSubmit w (core_task (operator m))) (ap_pool a) = Some p"
      using submit_enabled(1) by blast
    with main [of w] MC_Print show ?thesis by (simp add: submit_task_def ap_goto_def del: fu_act.simps)
  next
    case MN_Print
    obtain w p where "fu_act (FSubmit w (node_task (operator m))) (ap_pool a) = Some p"
      using submit_enabled(1) by blast
    with main [of w] MN_Print show ?thesis by (simp add: submit_task_def ap_goto_def del: fu_act.simps)
  next
    case (MC_Get k)
    with get_advances [OF m inv] show ?thesis by fastforce
  qed (use pc leave_advances [OF m inv] main [of 0 "print_size MC_Add a"] main [of 0 "print_size MN_Print a"]
      in \<open>simp_all add: print_size_frame\<close>)
qed

lemma app_ends:
  assumes m: "valid m" and inv: "app_inv (usable m) (node m) (operator m) s a"
  shows "\<exists>xs a'. app_exec (operator m) xs a = Some a' \<and> ap_pc a' = M_Return"
  using inv
proof (induction "pc_rank (ap_pc a)" arbitrary: a rule: less_induct)
  case less
  show ?case
  proof (cases "ap_pc a = M_Return")
    case True
    then show ?thesis by (intro exI [of _ "[]"]) simp
  next
    case False
    from app_advances [OF m less.prems False] obtain xs b where
      b: "app_exec (operator m) xs a = Some b" "pc_rank (ap_pc b) < pc_rank (ap_pc a)" by blast
    from less.hyps [OF b(2) app_inv_exec [OF m less.prems b(1)]] obtain ys a' where
      "app_exec (operator m) ys b = Some a'" "ap_pc a' = M_Return" by blast
    with b(1) show ?thesis by (intro exI [of _ "xs @ ys"] exI [of _ a']) (simp add: app_exec_append)
  qed
qed

end

end
