(* ===== verification/WorkerPoolApp_Properties.thy ===== *)
theory WorkerPoolApp_Properties
  imports WorkerPoolApp_Correct
begin

text \<open>
  The properties of the example program of the worker pool, runs of it on a machine with one core,
  and what it does where the operating system does not answer or the platform is not supported.
\<close>

section \<open>A machine with one core\<close>

definition one_cpu :: "unit os" where
  "one_cpu = \<lparr>os_getaffinity = (\<lambda>s. Some 1), os_setaffinity = (\<lambda>cpus s. (and cpus 1 \<noteq> 0, ())),
     os_getcpu = (\<lambda>s. Some (0, 0))\<rparr>"

lemma one_cpu_ok: "os_ok one_cpu (\<lambda>_. 1) 1 (\<lambda>_. 0)"
  by (auto simp: os_ok_def one_cpu_def CPU_ISSET_def and_one_eq)

lemma first_cpu: "CPU_ISSET c 1 \<longleftrightarrow> c = 0"
  by (auto simp: CPU_ISSET_def bit_1_iff unat_eq_0)

lemma cpu_list_one: "cpu_list 1 = [0]"
proof -
  have "0 < MaxCoreCount" by (simp add: MaxCoreCount_def)
  then have "[0..<MaxCoreCount] = 0 # [Suc 0..<MaxCoreCount]" by (rule upt_conv_Cons)
  moreover have "(of_nat i :: 32 word) \<noteq> 0" if "i \<in> set [Suc 0..<MaxCoreCount]" for i
  proof -
    have "unat (of_nat i :: 32 word) = i" using that by (simp add: MaxCoreCount_def unat_of_nat)
    with that show ?thesis by auto
  qed
  ultimately show ?thesis by (simp add: cpu_list_def first_cpu filter_empty_conv)
qed

text \<open>The runs are evaluated with the results of the calls.\<close>

definition one_core :: "unit processor_operator" where
  "one_core = \<lparr>po_FindAvailableCores = (\<lambda>s. Inr [Core 0]),
     po_FindAvailableNumaNodes = (\<lambda>s. Inr ([NUMANode 0 [Core 0]], ())),
     po_SetThreadAffinity = (\<lambda>cs s. Inr (Core 0 \<in> set cs, ()))\<rparr>"

lemma one_core_linux: "ProcessorLinux one_cpu = one_core"
proof -
  have "FindAvailableCores one_cpu s = [Core 0]" for s
    by (simp add: FindAvailableCores_def for_each_list getCurrentThreadCoresAffinityMask_def
        one_cpu_def cpu_list_one)
  moreover have "FindAvailableNumaNodes one_cpu s = ([NUMANode 0 [Core 0]], ())" for s
    by (simp add: FindAvailableNumaNodes_def for_each_list getCurrentThreadCoresAffinityMask_def
        one_cpu_def cpu_list_one collectNUMANodes_def first_cpu CPU_SET_def CPU_ZERO_def)
  moreover have "SetThreadAffinity one_cpu cs s = (Core 0 \<in> set cs, ())" for cs s
  proof -
    have "Core 0 \<in> set cs \<longleftrightarrow> set cs \<inter> cores_of 1 \<noteq> {}"
      by (auto simp: cores_of_def first_cpu) (metis core.collapse)
    with affinity_set [OF one_cpu_ok, of cs s] show ?thesis
      by (cases "SetThreadAffinity one_cpu cs s") auto
  qed
  ultimately show ?thesis by (simp add: ProcessorLinux_def one_core_def)
qed

text \<open>In both runs the worker starts, computes the sum and goes back to its loop. In the first it
  then looks at \<open>isAlive\<close> when the pool is shut down already, and so it does in the second
  function; in the second run it has taken the next task before.\<close>

abbreviation main_steps :: "nat \<Rightarrow> app_action list" where
  "main_steps n \<equiv> replicate n (Main_does 0)"

abbreviation worker_steps :: "nat \<Rightarrow> app_action list" where
  "worker_steps n \<equiv> replicate n (Worker_does 0)"

definition dropping_run :: "app_action list" where
  "dropping_run = main_steps 3 @ worker_steps 4 @ main_steps 5 @ worker_steps 1 @ main_steps 3 @
     main_steps 3 @ worker_steps 1 @ main_steps 3 @ worker_steps 1 @ main_steps 3"

definition printing_run :: "app_action list" where
  "printing_run = main_steps 3 @ worker_steps 4 @ main_steps 2 @ worker_steps 2 @ main_steps 3 @
     worker_steps 2 @ main_steps 3 @ main_steps 3 @ worker_steps 3 @ main_steps 3 @ worker_steps 2 @
     main_steps 3"

lemma one_core_runs:
  "map_option (\<lambda>a. (ap_pc a, ev_out (fu_env (ap_pool a)))) (app_exec one_core dropping_run (app_new ())) =
     Some (M_Return, printed [''-- executing tasks with core affinity'',
       ''number of worker threads in the pool: 1'', ''task returned 2'', '''',
       ''-- executing tasks with NUMA node affinity'', ''number of worker threads in the pool: 1''])"
  "map_option (\<lambda>a. (ap_pc a, ev_out (fu_env (ap_pool a)))) (app_exec one_core printing_run (app_new ())) =
     Some (M_Return, printed [''-- executing tasks with core affinity'',
       ''number of worker threads in the pool: 1'', ''task returned 2'', ''task running on core 0'', '''',
       ''-- executing tasks with NUMA node affinity'', ''number of worker threads in the pool: 1'',
       ''running on NUMA node 0 core 0''])"
  by code_simp+

section \<open>Where calls fail\<close>

text \<open>If \<open>getcpu\<close> fails no node is found.\<close>

lemma no_nodes_found:
  assumes "\<forall>t. os_getcpu env t = None"
  shows "\<exists>t'. FindAvailableNumaNodes env t = ([], t')"
proof -
  have "\<exists>u'. fold (collectNUMANodes env) ids (nm, u) = (nm, u')" for ids nm u
  proof (induction ids arbitrary: u)
    case (Cons c ids)
    have "\<exists>u'. collectNUMANodes env c (nm, u) = (nm, u')"
      using assms by (simp add: collectNUMANodes_def split: prod.split bool.split)
    with Cons show ?case by auto
  qed simp
  then obtain u' where "fold (collectNUMANodes env)
      (cpu_list (getCurrentThreadCoresAffinityMask env t)) ([], t) = ([], u')" by blast
  then show ?thesis by (simp add: FindAvailableNumaNodes_def for_each_list split: prod.split)
qed

lemma build_nothing:
  "Build (WithThreadsPerCore 1 (OnCores [] WorkerPoolBuilder)) =
     Inl (InvalidWorkerPoolBuilderArgumentsError ''At least one of cores or NUMA node must be specified'')"
  by (simp add: Build_def WithThreadsPerCore_def OnCores_def WorkerPoolBuilder_def
      NUMANode_default_def nn_Empty_def)

text \<open>A machine with one core, whose \<open>getcpu\<close> fails, and one that does not tell its cores.\<close>

definition no_getcpu :: "unit os" where
  "no_getcpu = one_cpu\<lparr>os_getcpu := (\<lambda>s. None)\<rparr>"

definition no_affinity :: "unit os" where
  "no_affinity = one_cpu\<lparr>os_getaffinity := (\<lambda>s. None)\<rparr>"

lemma no_getcpu_linux:
  "ProcessorLinux no_getcpu = one_core\<lparr>po_FindAvailableNumaNodes := (\<lambda>s. Inr ([], ()))\<rparr>"
proof -
  have "FindAvailableNumaNodes no_getcpu s = ([], ())" for s
    using no_nodes_found [of no_getcpu s] by (simp add: no_getcpu_def)
  moreover have "FindAvailableCores no_getcpu = FindAvailableCores one_cpu"
    "SetThreadAffinity no_getcpu = SetThreadAffinity one_cpu"
    by (simp_all add: fun_eq_iff FindAvailableCores_def ForEachCPUSet_def no_getcpu_def
        getCurrentThreadCoresAffinityMask_def SetThreadAffinity_def)
  ultimately show ?thesis
    unfolding one_core_linux [symmetric] by (simp add: ProcessorLinux_def)
qed

lemma no_getcpu_run:
  "map_option (\<lambda>a. (ap_pc a, ev_failed (fu_env (ap_pool a))))
     (app_exec (ProcessorLinux no_getcpu) (take 16 dropping_run) (app_new ())) = Some (MN_Build, None)"
  unfolding no_getcpu_linux by code_simp

section \<open>Properties\<close>

lemma linux_inv:
  assumes "os_ok env aff online node" "app_reachable (ProcessorLinux env) s a"
  shows "app_inv (\<lambda>s. cores_of (aff s)) (\<lambda>c. node (GetID c)) (ProcessorLinux env) s a"
  using linux.app_inv_reachable [of "(env, aff, online, node)" s a] assms by simp

text \<open>C7: on every machine on which the calls of the operating system work, whatever the order of the
  steps of the main thread and of the workers: the example program does not fail and no exception
  reaches \<open>main\<close>, and when it has ended it has printed its headings, the number of the cores of
  the process, the sum 2, at most one line of the task that prints, with a core of the process,
  then the number of the cores of the first node, and at most one line with that node and a
  core of it, each in its place.\<close>

theorem worker_app_output:
  assumes "os_ok env aff online node" "app_reachable (ProcessorLinux env) s a"
    "U = cores_of (aff s)" "i = Min ((\<lambda>c. node (GetID c)) ` U)" "V = {c \<in> U. node (GetID c) = i}"
  shows "ev_failed (fu_env (ap_pool a)) = None \<and> ap_err a = '''' \<and>
    (ap_pc a = M_Return \<longrightarrow> (\<exists>ls ms. at_most_one (core_line ` U) ls \<and> at_most_one (node_line i ` V) ms \<and>
       ev_out (fu_env (ap_pool a)) = printed (
         [''-- executing tasks with core affinity'', size_line (card U), returned_line 2] @ ls @
         ['''', ''-- executing tasks with NUMA node affinity'', size_line (card V)] @ ms)))"
proof -
  let ?node = "\<lambda>c. node (GetID c)"
  note inv = linux_inv [OF assms(1,2)]
  have i: "first_node ?node U = i" and V: "node_cores ?node U = V"
    by (simp_all add: first_node_def node_cores_def assms(4,5))
  have "\<exists>ls ms. at_most_one (core_lines U) ls \<and> at_most_one (node_lines ?node U) ms \<and>
      no_threads (core_text U @ ls @ node_head @ [size_line (card (node_cores ?node U))] @ ms) (ap_pool a)"
    if "ap_pc a = M_Return"
    using app_inv_at [OF inv that] by (simp add: assms(3))
  moreover have "ev_out (fu_env p) = printed ls" if "no_threads ls p"
    for ls and p :: "('a app_env, int) future_pool"
    using that by (auto simp: no_threads_def)
  ultimately show ?thesis
    using app_inv_failed [OF inv] inv
    unfolding node_lines_def core_lines_def core_text_def core_head_def node_head_def i V
    by (fastforce simp: app_inv_def)
qed

theorem worker_app_output_witness:
  "\<exists>xs a ls ms. app_exec (ProcessorLinux one_cpu) xs (app_new ()) = Some a \<and>
     at_most_one {core_line (Core 0)} ls \<and> at_most_one {node_line 0 (Core 0)} ms \<and>
     ev_out (fu_env (ap_pool a)) = printed (
       [''-- executing tasks with core affinity'', size_line 1, returned_line 2] @ ls @
       ['''', ''-- executing tasks with NUMA node affinity'', size_line 1] @ ms)"
proof -
  obtain a where a: "app_exec one_core dropping_run (app_new ()) = Some a" "ap_pc a = M_Return"
    using one_core_runs(1) by auto
  have U: "cores_of 1 = {Core 0}" by (auto simp: cores_of_def first_cpu) (metis core.collapse)
  have "app_reachable (ProcessorLinux one_cpu) () a"
    unfolding one_core_linux by (rule app_exec_reachable [OF app_reachable.app_begin a(1)])
  from worker_app_output [OF one_cpu_ok this refl refl refl] a show ?thesis
    unfolding one_core_linux [symmetric] by (auto simp: U simp del: printed_simps)
qed

text \<open>C24: from every state the example program can reach, some order of the steps of its threads
  brings it to the return from \<open>main\<close>.\<close>

theorem worker_app_ends:
  assumes "os_ok env aff online node" "app_reachable (ProcessorLinux env) s a"
  shows "\<exists>xs a'. app_exec (ProcessorLinux env) xs a = Some a' \<and> ap_pc a' = M_Return"
  using linux.app_ends [of "(env, aff, online, node)" s a] linux_inv [OF assms] assms(1) by simp

theorem worker_app_ends_witness:
  "\<exists>xs a'. app_exec (ProcessorLinux one_cpu) xs (app_new ()) = Some a' \<and> ap_pc a' = M_Return"
  by (rule worker_app_ends [OF one_cpu_ok app_reachable.app_begin])

text \<open>On a machine with one core the program may print the lines of both tasks or of none: the
  pool does not wait for a task that no worker has taken when it goes out of scope.\<close>

lemma worker_app_task_dropped:
  "(\<exists>a. app_exec (ProcessorLinux one_cpu) dropping_run (app_new ()) = Some a \<and> ap_pc a = M_Return \<and>
     ev_out (fu_env (ap_pool a)) = printed [''-- executing tasks with core affinity'',
       ''number of worker threads in the pool: 1'', ''task returned 2'', '''',
       ''-- executing tasks with NUMA node affinity'', ''number of worker threads in the pool: 1'']) \<and>
   (\<exists>a. app_exec (ProcessorLinux one_cpu) printing_run (app_new ()) = Some a \<and> ap_pc a = M_Return \<and>
     ev_out (fu_env (ap_pool a)) = printed [''-- executing tasks with core affinity'',
       ''number of worker threads in the pool: 1'', ''task returned 2'', ''task running on core 0'', '''',
       ''-- executing tasks with NUMA node affinity'', ''number of worker threads in the pool: 1'',
       ''running on NUMA node 0 core 0''])"
  unfolding one_core_linux using one_core_runs by (simp_all del: printed_simps add: map_option_eq_Some)

text \<open>If a method of the processor throws when the main thread looks for the cores, nothing catches
  the exception.\<close>

lemma worker_app_uncaught:
  assumes "po_FindAvailableCores P s = Inl err"
  shows "\<exists>a. app_exec P [Main_does w] (app_new s) = Some a \<and>
      ev_failed (fu_env (ap_pool a)) = Some (Terminated err) \<and> (\<forall>x. app_act P x a = None)"
  using assms by (simp add: app_act_def app_new_def Let_def ap_map_env_def ev_fail_def)

text \<open>C26: how the program ends on Linux where a call of the operating system fails. If the affinity
  cannot be read no core is found, \<open>Build\<close> throws, and \<open>main\<close> prints the exception and returns. If
  \<open>getcpu\<close> fails no node is found, and the program uses the first of them.\<close>

theorem worker_app_errors:
  "((\<forall>t. os_getaffinity env t = None) \<longrightarrow>
      (\<exists>a. app_exec (ProcessorLinux env) [Main_does w] (app_new s) = Some a \<and> ap_pc a = M_Return \<and>
        ap_err a = ''Error running examples: At least one of cores or NUMA node must be specified'' @ [CHR 0x0A])) \<and>
   ((\<forall>t. os_getcpu env t = None) \<longrightarrow> ap_pc b = MN_Build \<longrightarrow> ev_failed (fu_env (ap_pool b)) = None \<longrightarrow>
      (\<exists>a. app_act (ProcessorLinux env) (Main_does w) b = Some a \<and>
        ev_failed (fu_env (ap_pool a)) = Some EmptySet))"
proof (intro conjI impI)
  assume "\<forall>t. os_getaffinity env t = None"
  then have "FindAvailableCores env t = []" for t
    by (simp add: FindAvailableCores_def for_each_list getCurrentThreadCoresAffinityMask_def)
  then show "\<exists>a. app_exec (ProcessorLinux env) [Main_does w] (app_new s) = Some a \<and>
      ap_pc a = M_Return \<and>
      ap_err a = ''Error running examples: At least one of cores or NUMA node must be specified'' @ [CHR 0x0A]"
    by (simp add: app_act_def app_new_def ProcessorLinux_def Let_def ap_map_env_def open_pool_def build_nothing ap_goto_def)
next
  assume none: "\<forall>t. os_getcpu env t = None" and b: "ap_pc b = MN_Build" "ev_failed (fu_env (ap_pool b)) = None"
  obtain t' where "FindAvailableNumaNodes env (ap_main b) = ([], t')" using no_nodes_found [OF none] by blast
  then show "\<exists>a. app_act (ProcessorLinux env) (Main_does w) b = Some a \<and>
      ev_failed (fu_env (ap_pool a)) = Some EmptySet"
    using b by (simp add: app_act_def ProcessorLinux_def Let_def ap_map_env_def ev_fail_def)
qed

theorem worker_app_errors_witness:
  "(\<exists>a. app_exec (ProcessorLinux no_affinity) [Main_does 0] (app_new ()) = Some a \<and> ap_pc a = M_Return) \<and>
   (\<exists>b. app_reachable (ProcessorLinux no_getcpu) () b \<and>
     (\<exists>a. app_act (ProcessorLinux no_getcpu) (Main_does 0) b = Some a \<and>
        ev_failed (fu_env (ap_pool a)) = Some EmptySet))"
proof -
  obtain b where b: "app_exec (ProcessorLinux no_getcpu) (take 16 dropping_run) (app_new ()) = Some b"
    "ap_pc b = MN_Build" "ev_failed (fu_env (ap_pool b)) = None"
    using no_getcpu_run by auto
  from worker_app_errors [of no_getcpu 0 "()" b, THEN conjunct2] b(2,3)
    worker_app_errors [of no_affinity 0 "()" b, THEN conjunct1]
    app_exec_reachable [OF app_reachable.app_begin b(1)]
  show ?thesis by (auto simp: no_getcpu_def no_affinity_def)
qed

end
