(* ===== verification/PinnedPools.thy ===== *)
theory PinnedPools
  imports WorkerPoolApp_Correct
begin

text \<open>
  The threads of a pool on a Linux machine, from the moment they are started: what
  \<open>startThread\<close> does first pins each to its core, and it stays there whatever the interleaving, if
  no task changes the affinity of a thread.
\<close>

section \<open>Tasks that leave the threads where they are\<close>

definition same_cores :: "'s os \<Rightarrow> 's app_env \<Rightarrow> 's app_env \<Rightarrow> bool" where
  "same_cores env e e' \<longleftrightarrow> length (ev_threads e') = length (ev_threads e) \<and>
     (\<forall>w < length (ev_threads e).
        FindAvailableCores env (ev_threads e' ! w) = FindAvailableCores env (ev_threads e ! w))"

fun task_stays :: "'s os \<Rightarrow> ('s app_env, 'r) task option \<Rightarrow> bool" where
  "task_stays env (Some (Effect f)) = (\<forall>w e. same_cores env e (f w e))"
| "task_stays env (Some (Compute k f)) = (\<forall>w e. same_cores env e (snd (f w e)))"
| "task_stays env None = True"

fun submits_staying :: "'s os \<Rightarrow> ('s app_env, 'r) fu_action \<Rightarrow> bool" where
  "submits_staying env (FSubmit w f) = task_stays env (Some (Effect f) :: ('s app_env, 'r) task option)"
| "submits_staying env (FSubmitResult w f) = task_stays env (Some (Compute 0 f))"
| "submits_staying env _ = True"

section \<open>Threads stay pinned\<close>

definition all_pinned :: "'s os \<Rightarrow> core list \<Rightarrow> ('s app_env, 'r) future_pool \<Rightarrow> bool" where
  "all_pinned env threads q \<longleftrightarrow> fu_start q = pin_thread (ProcessorLinux env) threads \<and>
     length (ev_threads (fu_env q)) = length threads \<and> length (wp_threads (fu_pool q)) = length threads \<and>
     (\<forall>w < length threads. wp_threads (fu_pool q) ! w = W_Start \<or>
        FindAvailableCores env (ev_threads (fu_env q) ! w) = [threads ! w]) \<and>
     (\<forall>t \<in> set (wq_tasks (wp_queue (fu_pool q))). task_stays env t) \<and>
     (\<forall>t. W_Run t \<in> set (wp_threads (fu_pool q)) \<longrightarrow> task_stays env t)"

lemma pinned_start:
  "all_pinned env threads (start_pool (ProcessorLinux env) threads (WorkerPool_new (length threads)) s e)"
  by (auto simp: all_pinned_def start_pool_def fu_new_def WorkerPool_new_def WorkQueue_new_def)

text \<open>A step in which no worker acts.\<close>

lemma pinned_quiet:
  assumes inv: "all_pinned env threads q" and q': "fu_env q' = fu_env q" "fu_start q' = fu_start q"
    and tasks: "\<forall>t \<in> set (wq_tasks (wp_queue (fu_pool q'))). task_stays env t"
    and woken: "woken (wp_threads (fu_pool q)) (wp_threads (fu_pool q'))"
  shows "all_pinned env threads q'"
proof -
  from woken consider "wp_threads (fu_pool q') = wp_threads (fu_pool q)"
    | v where "v < length (wp_threads (fu_pool q))" "wp_threads (fu_pool q) ! v = W_Wait"
      "wp_threads (fu_pool q') = (wp_threads (fu_pool q))[v := W_Take]"
    unfolding woken_def by blast
  then show ?thesis
  proof cases
    case 1
    with inv q' tasks show ?thesis by (simp add: all_pinned_def)
  next
    case (2 v)
    have "W_Run t \<in> set (wp_threads (fu_pool q))" if "W_Run t \<in> set (wp_threads (fu_pool q'))" for t
      using that set_update_subset_insert [of "wp_threads (fu_pool q)" v W_Take] by (auto simp: 2(3))
    with inv q' tasks 2 show ?thesis by (auto simp: all_pinned_def nth_list_update)
  qed
qed

text \<open>A step of worker \<open>w\<close>, after which it is at \<open>x\<close>.\<close>

lemma pinned_work:
  assumes inv: "all_pinned env threads q" and start: "fu_start q' = fu_start q"
    and w: "w < length threads" "wp_threads (fu_pool q') = (wp_threads (fu_pool q))[w := x]" "x \<noteq> W_Start"
    and at: "FindAvailableCores env (ev_threads (fu_env q') ! w) = [threads ! w]"
    and others: "length (ev_threads (fu_env q')) = length threads"
      "\<And>v. v < length threads \<Longrightarrow> v \<noteq> w \<Longrightarrow> FindAvailableCores env (ev_threads (fu_env q') ! v) =
        FindAvailableCores env (ev_threads (fu_env q) ! v)"
    and tasks: "\<forall>t \<in> set (wq_tasks (wp_queue (fu_pool q'))). task_stays env t"
      "\<And>t. x = W_Run t \<Longrightarrow> task_stays env t"
  shows "all_pinned env threads q'"
proof -
  have run: "W_Run t = x \<or> W_Run t \<in> set (wp_threads (fu_pool q))" if "W_Run t \<in> set (wp_threads (fu_pool q'))" for t
    using that set_update_subset_insert [of "wp_threads (fu_pool q)" w x] by (auto simp: w(2))
  have "wp_threads (fu_pool q') ! v = W_Start \<or> FindAvailableCores env (ev_threads (fu_env q') ! v) = [threads ! v]"
    if "v < length threads" for v
    using inv others(2) that at w by (cases "v = w") (simp_all add: all_pinned_def)
  moreover have "task_stays env t" if "W_Run t \<in> set (wp_threads (fu_pool q'))" for t
    using run [OF that] inv tasks(2) [of t] by (auto simp: all_pinned_def)
  ultimately show ?thesis using inv start w(2) others(1) tasks(1) unfolding all_pinned_def by simp
qed

lemma pinned_core:
  assumes "os_ok env aff online node" "c \<in> cores_of online"
  shows "\<exists>s'. SetThreadAffinity env [c] s = (True, s') \<and> FindAvailableCores env s' = [c]"
proof (cases "SetThreadAffinity env [c] s")
  case (Pair ok s')
  from pinned [OF assms(1) this] assms(2) Pair show ?thesis by simp
qed

text \<open>What the body of a worker does to the cores of the threads.\<close>

lemma pinned_body:
  assumes ok: "os_ok env aff online node" "set threads \<subseteq> cores_of online" and inv: "all_pinned env threads q"
    and w: "w < length threads"
  shows "fu_start (worker_body w q) = fu_start q \<and>
    length (ev_threads (fu_env (worker_body w q))) = length threads \<and>
    FindAvailableCores env (ev_threads (fu_env (worker_body w q)) ! w) = [threads ! w] \<and>
    (\<forall>v < length threads. v \<noteq> w \<longrightarrow> FindAvailableCores env (ev_threads (fu_env (worker_body w q)) ! v) =
       FindAvailableCores env (ev_threads (fu_env q) ! v))"
proof -
  have len: "length (ev_threads (fu_env q)) = length threads" "w < length (wp_threads (fu_pool q))"
    using inv w by (simp_all add: all_pinned_def)
  have at: "FindAvailableCores env (ev_threads (fu_env q) ! w) = [threads ! w]"
    if "wp_threads (fu_pool q) ! w \<noteq> W_Start" using inv w that by (auto simp: all_pinned_def)
  have stays: "task_stays env t" if "wp_threads (fu_pool q) ! w = W_Run t" for t
    using inv that nth_mem [OF len(2)] by (auto simp: all_pinned_def)
  have same: "same_cores env (fu_env q) (fu_env (worker_body w q)) \<and> fu_start (worker_body w q) = fu_start q"
    if "wp_threads (fu_pool q) ! w \<noteq> W_Start"
  proof (cases "\<exists>t. wp_threads (fu_pool q) ! w = W_Run (Some t)")
    case True
    then obtain t where t: "wp_threads (fu_pool q) ! w = W_Run (Some t)" by blast
    show ?thesis using stays [OF t] t len(2)
      by (cases t) (auto simp: worker_body_def set_value_def split: prod.splits, (metis snd_conv)+)
  next
    case False
    then have "worker_body w q = q" using that by (auto simp: worker_body_def split: worker.splits option.splits)
    then show ?thesis by (simp add: same_cores_def)
  qed
  show ?thesis
  proof (cases "wp_threads (fu_pool q) ! w = W_Start")
    case True
    obtain s where s: "SetThreadAffinity env [threads ! w] (ev_threads (fu_env q) ! w) = (True, s)"
      "FindAvailableCores env s = [threads ! w]"
      using pinned_core [OF ok(1), of "threads ! w"] ok(2) w nth_mem by blast
    have "fu_start q = pin_thread (ProcessorLinux env) threads" using inv by (simp add: all_pinned_def)
    with True s len have "worker_body w q =
        q\<lparr>fu_env := (fu_env q)\<lparr>ev_threads := (ev_threads (fu_env q))[w := s]\<rparr>\<rparr>"
      by (simp add: worker_body_def pin_thread_def ProcessorLinux_def)
    then show ?thesis using s(2) w len by simp
  next
    case False
    from same [OF False] at [OF False] len(1) w show ?thesis by (auto simp: same_cores_def)
  qed
qed

lemma work_shape:
  assumes "wp_work w p = Some r"
  shows "\<exists>x. wp_threads r = (wp_threads p)[w := x] \<and> x \<noteq> W_Start \<and>
    set (wq_tasks (wp_queue r)) \<subseteq> set (wq_tasks (wp_queue p)) \<and>
    (\<forall>t. x = W_Run t \<longrightarrow> t \<in> set (wq_tasks (wp_queue p)))"
proof -
  have w: "w < length (wp_threads p)" using assms by (simp add: wp_work_def split: if_splits)
  then have "wp_threads r = (wp_threads p)[w := wp_threads r ! w]"
    using assms by (auto simp: wp_work_def split: worker.splits option.splits)
  moreover have "wp_threads r ! w \<noteq> W_Start \<and> set (wq_tasks (wp_queue r)) \<subseteq> set (wq_tasks (wp_queue p)) \<and>
      (\<forall>t. wp_threads r ! w = W_Run t \<longrightarrow> t \<in> set (wq_tasks (wp_queue p)))"
    using assms w
    by (auto simp: wp_work_def wq_Take_def split: if_splits worker.splits option.splits list.splits)
  ultimately show ?thesis by blast
qed

lemma pinned_act:
  assumes ok: "os_ok env aff online node" "set threads \<subseteq> cores_of online" and inv: "all_pinned env threads q"
    and stays: "submits_staying env a" and act: "fu_act a q = Some q'"
  shows "all_pinned env threads q'"
proof -
  have old: "\<forall>t \<in> set (wq_tasks (wp_queue (fu_pool q))). task_stays env t"
    using inv by (simp add: all_pinned_def)
  have submitted: "all_pinned env threads q'"
    if "wp_Submit w t (fu_pool q) = Some r" "fu_pool q' = r\<lparr>wp_shutdown := sh\<rparr>" "fu_env q' = fu_env q"
      "fu_start q' = fu_start q" "task_stays env t" for w t r sh
    using that old submit_shape(1) [OF that(1)]
    by (intro pinned_quiet [OF inv that(3,4)])
      (auto simp: wp_Submit_def wq_Add_def split: option.splits)
  show ?thesis
  proof (cases a)
    case (FSubmit w f)
    from act obtain r where r: "wp_Submit w (Some (Effect f)) (fu_pool q) = Some r" "q' = q\<lparr>fu_pool := r\<rparr>"
      by (auto simp: FSubmit fu_lift_Some)
    from submitted [OF r(1), of "wp_shutdown r"] r(2) stays show ?thesis by (simp add: FSubmit)
  next
    case (FSubmitResult w f)
    let ?t = "Some (Compute (length (fu_promises q)) f)"
    from act obtain r where r: "wp_Submit w ?t (fu_pool q) = Some r"
      "fu_pool q' = r" "fu_env q' = fu_env q" "fu_start q' = fu_start q"
      by (auto simp: FSubmitResult Submit_result_def make_promise_def fu_lift_Some)
    from submitted [OF r(1), of "wp_shutdown r"] r(2-) stays show ?thesis by (simp add: FSubmitResult)
  next
    case (FWork w)
    from act obtain r where r: "wp_work w (fu_pool q) = Some r" "q' = (worker_body w q)\<lparr>fu_pool := r\<rparr>"
      by (auto simp: FWork fu_lift_Some)
    have w: "w < length threads" using r(1) inv by (auto simp: wp_work_def all_pinned_def split: if_splits)
    from r(1) obtain x where x: "wp_threads r = (wp_threads (fu_pool q))[w := x]" "x \<noteq> W_Start"
      "set (wq_tasks (wp_queue r)) \<subseteq> set (wq_tasks (wp_queue (fu_pool q)))"
      "\<And>t. x = W_Run t \<Longrightarrow> t \<in> set (wq_tasks (wp_queue (fu_pool q)))"
      using work_shape [OF r(1)] by blast
    from pinned_work [OF inv _ w _ x(2), of q'] pinned_body [OF ok inv w] x old show ?thesis
      unfolding r(2) by auto
  next
    case (FWake w)
    from act have "q' = q\<lparr>fu_pool := (fu_pool q)\<lparr>wp_threads := (wp_threads (fu_pool q))[w := W_Take]\<rparr>\<rparr>"
      "w < length (wp_threads (fu_pool q))" "wp_threads (fu_pool q) ! w = W_Wait"
      by (auto simp: FWake fu_lift_Some split: if_splits worker.splits)
    with old show ?thesis by (intro pinned_quiet [OF inv]) (auto simp: woken_def)
  next
    case (FMain w)
    from act obtain r where r: "wp_main w (fu_pool q) = Some r" "q' = q\<lparr>fu_pool := r\<rparr>"
      by (auto simp: FMain fu_lift_Some)
    have "\<forall>t \<in> set (wq_tasks (wp_queue r)). task_stays env t"
      using r(1) old by (auto simp: wp_main_def wp_Submit_def wq_Add_def
          split: shutdown.splits if_splits option.splits worker.splits)
    with main_shape(1) [OF r(1)] show ?thesis by (intro pinned_quiet [OF inv]) (simp_all add: r(2))
  qed
qed

lemma pinned_exec:
  assumes "os_ok env aff online node" "set threads \<subseteq> cores_of online"
  shows "all_pinned env threads q \<Longrightarrow> list_all (submits_staying env) as \<Longrightarrow> fu_exec as q = Some q' \<Longrightarrow>
    all_pinned env threads q'"
  by (induction as arbitrary: q) (auto split: option.splits dest: pinned_act [OF assms])

end
