(* ===== verification/Spec2Isabelle.thy ===== *)
theory Spec2Isabelle
  imports ConcurrentPool_Threads IndexerFuzz DataPoolApp MemPool_FuzzProgram MultiPool_Threads
    WorkerPool_Threads WorkerPoolApp_Properties PinnedPools
begin

text \<open>
  A verification development for dxpool, header-only libraries that pool things that are
  expensive to make: typed objects and worker threads in C++ (\<open>src/\<close>), and blocks of memory
  in C (\<open>simple_pool/dyn_mem_pool.h\<close>). The file names below are relative to the root of the
  repository.

  The parts and how they interact.

  (1) Object pools. \<open>Pool<Indexer, T>\<close> owns a fixed vector of items and an indexer, which hands
  out the indices of the free items. \<open>Take\<close> asks the indexer for an index and wraps the item in
  a \<open>PoolItem\<close>, whose destructor resets the item and gives the index back. There are two
  indexers: \<open>MutexIndexer\<close>, a stack behind a mutex, and \<open>ConcurrentIndexer\<close>, a ring without
  locks.
  (2) Worker pools. \<open>WorkerPoolBuilder\<close> checks its arguments and makes a \<open>WorkerPool\<close> of
  threads pinned to cores; they take tasks from one \<open>WorkQueue\<close>. \<open>Core\<close>, \<open>NUMANode\<close>
  and \<open>ProcessorLinux\<close> describe the machine the threads run on.
  (3) C memory pools. A \<open>MemPool\<close> is a linked list of free nodes of one size, changed without
  locks; a \<open>MultiPool\<close> is 14 of them for sizes from 512 bytes to 4 MB.

  Theories, the code they model and what their lemmas show.

  \<^item> \<open>Prelude\<close>: errors as values, sequencing of fallible calls, vectors with their bounds
  written out, facts on words and lists.
  \<^item> \<open>IndexHolder\<close> (\<open>src/IndexHolder.h\<close>), \<open>MutexIndexer\<close> (\<open>src/MutexIndexer.h\<close>):
  the state is a record of the fields, each method a function on it. \<open>Indexer\<close> is the interface
  the pool uses, the locale \<open>indexer_contract\<close>: which indices are available, and that none is
  lost or handed out twice in any history of calls. Both indexers interpret it.
  \<^item> \<open>Monitor\<close>: an object whose methods run under a mutex, with the threads that call them one
  statement at a time, and the locale \<open>monitor_contract\<close>: if a body that runs alone does what a
  function says, any interleaving is a sequence of whole calls. \<open>MutexIndexer_Threads\<close>
  interprets it on the statements of \<open>Next\<close> and \<open>Return\<close>.
  \<^item> \<open>ConcurrentIndexer\<close> (\<open>src/ConcurrentIndexer.h\<close>): \<open>Next\<close> and \<open>Return\<close> are cut into
  one step per access to shared memory, on a program counter that holds the local variables
  (\<open>ci_step\<close>). Run to the end without other threads they refine a first-in first-out queue.
  \<open>ConcurrentIndexer_Threads\<close> interleaves the steps of any number of threads: with calls of
  \<open>Next\<close> that do not overlap, no index is handed out twice and none is lost; with calls that
  do, a run of three threads shows an index handed out twice.
  \<open>SoloCall\<close>: the locale \<open>solo_call\<close> of a call whose loop may be sent back by spurious failures,
  and how many of its own steps end it; the ring, the object pool on it and the C pool interpret it.
  \<^item> \<open>PoolItem\<close> (\<open>src/PoolItem.h\<close>), \<open>Pool\<close> (\<open>src/Pool.h\<close>), \<open>PoolInstances\<close>: handles
  that are moved and destroyed, pools over any indexer of the contract, and the histories of
  their clients, for both indexers. \<open>PoolThreads\<close> cuts \<open>Take\<close>, the use of an item and the
  destructor of a handle into their accesses to the pool and interleaves the threads that make
  them: no item is used, reset or handed out by two threads at once. \<open>ConcurrentPool_Threads\<close> does
  so for pools with the concurrent indexer, whose steps on the ring interleave one by one too, with
  the same result if calls of \<open>Take\<close> are not in \<open>Next\<close> at once, and with a run in which they are
  and one item is given to two threads.
  \<^item> \<open>CMem\<close>: the heap of the C code, with \<open>malloc\<close> as a parameter that may fail at any call.
  \<open>MemPool\<close>: the functions on one pool. \<open>MemPool_Correct\<close> holds the invariant of pools and
  held blocks and what each function does to it, \<open>MemPool_Properties\<close> what clients see,
  \<open>MemPool_Threads\<close> the interleaved loops, \<open>MemPool_Progress\<close> how many steps of its own a call
  takes. \<open>MultiPool\<close>, \<open>MultiPool_Correct\<close> and
  \<open>MultiPool_Properties\<close>: the same for multipools and the global one. \<open>MultiPool_Threads\<close>: threads
  in several pools of one multipool at once; a step in one pool leaves the others as they are.
  \<^item> \<open>WorkQueue\<close> (\<open>src/WorkQueue.h\<close>) with the locale \<open>task_queue\<close>, \<open>WorkerPool\<close>
  (\<open>src/WorkerPool.h\<close>): the workers, the submitters and the thread in \<open>Shutdown\<close> as a machine
  whose steps interleave. \<open>WorkerPool_Properties\<close>: the order of tasks, that no wakeup is lost,
  and that \<open>Shutdown\<close> ends. \<open>Futures\<close>: the \<open>Submit\<close> that returns a result, on top of that
  machine, with the promises and what becomes of them, and with tasks that may ask for the thread
  they run in. \<open>WorkerPool_Threads\<close>: the same pool with
  the mutex and the condition variable of the queue used statement by statement, simulated by that
  machine. \<open>PoolBuilder\<close>: the builder and the pool's constructor.
  \<^item> \<open>OrderedSet\<close>: \<open>std::set\<close> and \<open>std::map\<close> with the locale \<open>strict_weak_order\<close>;
  \<open>Topology\<close> (\<open>src/Core.h\<close>, \<open>src/NUMANode.h\<close>); \<open>Processor\<close> and
  \<open>Processor_Correct\<close> (\<open>src/ProcessorLinux.h\<close>, \<open>src/Processor.h\<close>): what
  cores and nodes are found, from any answers of the system calls and from those the manual pages
  promise, and that threads are pinned.
  \<open>ProcessorOperator\<close> (\<open>src/ProcessorOperator.h\<close>): the interface of the processors as the record of
  their methods, and the locale \<open>processor_contract\<close> of what a program may expect of it, which the
  class for Linux interprets.
  \<^item> \<open>WorkerPoolApp\<close> (\<open>examples/WorkerPoolApp.cpp\<close>): the example program of the worker pool, in
  which all of this works together: the main thread finds the cores, builds pools, submits tasks,
  waits for a result and leaves, while the workers pin themselves and run the tasks.
  \<open>WorkerPoolApp_Correct\<close> has its invariant, proved for any processor that keeps the contract, and
  that the program can always end; \<open>WorkerPoolApp_Properties\<close> what it prints on Linux, two runs of
  it on a machine with one core, and how it ends where calls fail. \<open>PinnedPools\<close>: the threads of a
  pool on Linux stay on the cores that \<open>startThread\<close> pinned them to.
  \<^item> \<open>MemPool_Fuzz\<close>, \<open>MemPool_FuzzThreads\<close> and \<open>MemPool_FuzzProgram\<close>
  (\<open>simple_pool/dyn_mem_pool_fuzz.c\<close>): the functions of the fuzz program that use one thread, the
  one that creates 32, and \<open>main\<close>, which calls them on one heap; if \<open>pthread_create\<close> succeeds,
  \<open>malloc\<close> does not fail and calls of
  \<open>pool_mem_acquire\<close> do not overlap the program does not fail, can always end, and leaves no
  block behind. \<open>DataPoolApp\<close> (\<open>examples/DataPoolApp.cpp\<close>): the example of the object pool, with
  what it does and prints.
  \<open>IndexerFuzz\<close> (\<open>fuzz/ConcurrentIndexerFuzzTest.cpp\<close>): the tester threads of the ring and the
  check after them, which passes if calls of \<open>Next\<close> do not overlap and can fail if they do, and
  the calls its two test cases make. The
  locale \<open>thread_program\<close> of \<open>ThreadProgram\<close>, interpreted on both programs with threads, says
  when all threads of a program can be brought to their ends.
  \<^item> This theory: the properties that span the machine description and the worker pool.

  What is assumed.

  \<^item> Memory is sequentially consistent; the memory orders of the sources are not modelled. A
  weak compare-and-exchange may fail spuriously at any time.
  \<^item> In \<open>WorkerPool\<close>, \<open>Futures\<close> and the pools a method that holds a mutex for its whole body is
  one step; that it may be is proved in \<open>MutexIndexer_Threads\<close> and \<open>WorkerPool_Threads\<close>.
  \<^item> The body of a task is one step on the state of the program.
  \<^item> \<open>size_t\<close> has 64 bits, \<open>unsigned int\<close> 32, and assertions are enabled.
  \<^item> \<open>malloc_ok\<close>: \<open>malloc\<close> returns \<open>NULL\<close> or a block that overlaps no live block.
  \<^item> \<open>os_ok\<close>: what the manual pages say of the affinity calls and \<open>getcpu\<close>.
  \<^item> The result of \<open>pthread_create\<close> in the C fuzz program is a parameter; that it is 0 is a
  hypothesis of the property of that program.
  \<^item> One thread calls \<open>Shutdown\<close> of a pool and, later, its destructor; the destruction of a
  \<open>std::promise\<close> that was not set stores \<open>broken_promise\<close>, as the C++ standard says.
  \<^item> The block size of a C pool is not 0, which the code asserts.
  The allocation of vectors, queues and threads in C++ does not fail, the \<open>length_error\<close> of the
  vector of a \<open>ConcurrentIndexer\<close> excepted, and tasks and callbacks do not throw.

  Bounds and fuel.

  \<^item> A loop of the source with a compare-and-exchange is run with the number of its spurious
  failures as an argument, so it ends for every value of it; run alone, a call on a
  \<open>ConcurrentIndexer\<close> takes at most nine steps, twelve with those of the pool around it, and one on a C
  pool at most six, and as many again for each spurious failure, which the progress properties of
  their threads prove.
  \<^item> Loops that may not end are \<open>partial_function (option)\<close>, and that they end is a lemma.
  \<^item> The constructor of \<open>ConcurrentIndexer\<close> makes a ring for the sizes from 1 to \<open>2 ^ 59 - 1\<close>: for
  others \<open>2 * poolSize\<close>, modulo \<open>2 ^ 64\<close>, is more than the \<open>max_size\<close> of a vector of indices
  (\<open>vector_max_size\<close>, the value of the 64-bit \<open>libstdc++\<close>) and \<open>reserve\<close> throws, or it has wrapped around, or is 0. The
  properties of the ring hold for all sizes it can be made for, the wrap-around of the positions included.
  \<^item> The workers of a pool and \<open>Shutdown\<close> have at most \<open>5 * n + 1\<close> steps left when the last
  empty task is submitted to \<open>n\<close> workers.

  Not modelled: \<open>src/ProcessorUnsupported.h\<close>, which does not compile as it is, apart from its
  exception; the tests and the benchmarks; the branch hints and the macros that delete copy
  operations; the pauses of the testers of the C++ fuzz program, and the yields and the output of
  the C one.
\<close>

section \<open>Pools of pinned threads\<close>

lemma aff_cores_online:
  assumes "os_ok env aff online node"
  shows "cores_of (aff s) \<subseteq> cores_of online"
  using aff_online [OF assms] by (auto simp: cores_of_def)

lemma built_on:
  assumes "core_set cores" "tpc \<noteq> 0" "b = WithThreadsPerCore tpc WorkerPoolBuilder"
    "b' = OnCores cores b \<and> cores \<noteq> [] \<or> b' = OnNUMANode (NUMANode i cores) b"
  shows "\<exists>threads. Build b' = Inr (threads, WorkerPool_new (length threads) :: 'b worker_pool) \<and>
    length threads = unat tpc * length cores \<and> set threads = set cores \<and>
    (\<forall>c. count_list threads c = (if c \<in> set cores then unat tpc else 0))"
proof -
  have "Build b' = Inr (WorkerPool_construct tpc cores :: 'b built_pool)"
    using assms(2,4)
    by (auto simp: assms(3) Build_def WithThreadsPerCore_def OnCores_def OnNUMANode_def
        WorkerPoolBuilder_def NUMANode_default_def NUMANode_def nn_Empty_def nn_Cores_def
        pb_Cores_def word_less_1)
  moreover have "0 < unat tpc" using assms(2) by (simp add: unat_gt_0)
  then have "set (buildWorkerPool tpc cores) = set cores"
    by (auto simp: buildWorkerPool_eq)
  ultimately show ?thesis
    by (intro exI [of _ "buildWorkerPool tpc cores"])
      (simp add: WorkerPool_construct_def Let_def build_length build_count [OF assms(1)])
qed

lemma new_Size: "wp_Size (WorkerPool_new n) = n"
  by (simp add: wp_Size_def WorkerPool_new_def)

text \<open>Whatever the threads of a new pool have done, each of them can start or is pinned.\<close>

lemma started_pinned:
  assumes ok: "os_ok env aff online node" and threads: "set threads \<subseteq> cores_of (aff s)"
    and stays: "list_all (submits_staying env) as"
    and run: "fu_exec as (start_pool (ProcessorLinux env) threads (WorkerPool_new (length threads)) t e) = Some q"
    and w: "w < length threads"
  shows "if wp_threads (fu_pool q) ! w = W_Start then \<exists>q'. fu_act (FWork w) q = Some q'
    else FindAvailableCores env (ev_threads (fu_env q) ! w) = [threads ! w]"
proof -
  have "set threads \<subseteq> cores_of online" using threads aff_cores_online [OF ok, of s] by blast
  from pinned_exec [OF ok this pinned_start stays run] w show ?thesis
    by (auto simp: all_pinned_def fu_lift_Some wp_work_def)
qed

text \<open>C28: a pool built on all the cores that were found has exactly the threads asked for on
  each core of the affinity of the thread that builds it, and no others. Once they are started, in
  every interleaving with threads that submit and with \<open>Shutdown\<close>, each thread can take its
  first step or has taken it, and then \<open>startThread\<close> has pinned it: it runs on exactly its core. The
  hypothesis on the tasks is that none of them leaves a thread with another affinity.\<close>

theorem pool_on_all_cores:
  fixes env :: "'s os"
  assumes "os_ok env aff online node" "tpc \<noteq> 0"
  shows "\<exists>threads (p :: ('s app_env, 'r) task worker_pool). Build (OnCores (GetAllAvailableCores env s)
        (WithThreadsPerCore tpc WorkerPoolBuilder)) = Inr (threads, p) \<and>
      wp_Size p = unat tpc * length (GetAllAvailableCores env s) \<and> length threads = wp_Size p \<and>
      (\<forall>c. count_list threads c = (if c \<in> cores_of (aff s) then unat tpc else 0)) \<and>
      (\<forall>t e as q. list_all (submits_staying env) as \<longrightarrow>
         fu_exec as (start_pool (ProcessorLinux env) threads p t e) = Some q \<longrightarrow>
         (\<forall>w < wp_Size p.
            if wp_threads (fu_pool q) ! w = W_Start then \<exists>q'. fu_act (FWork w) q = Some q'
            else FindAvailableCores env (ev_threads (fu_env q) ! w) = [threads ! w]))"
proof -
  let ?cores = "GetAllAvailableCores env s"
  have cores: "core_set ?cores" "set ?cores = cores_of (aff s)"
    using find_cores [of env s] os_mask [OF assms(1)] by (simp_all add: GetAllAvailableCores_def)
  have "cores_of (aff s) \<noteq> {}"
    using os_aff [OF assms(1), of s] mask_zero_iff [of "aff s"] by (auto simp: cores_of_def) (metis core.sel)
  with cores(2) have "?cores \<noteq> []" by auto
  with built_on [OF cores(1) assms(2) refl, where 'b = "('s app_env, 'r) task"] obtain threads where threads:
    "Build (OnCores ?cores (WithThreadsPerCore tpc WorkerPoolBuilder)) =
      Inr (threads, WorkerPool_new (length threads) :: ('s app_env, 'r) task worker_pool)"
    "length threads = unat tpc * length ?cores" "set threads = set ?cores"
    "\<forall>c. count_list threads c = (if c \<in> set ?cores then unat tpc else 0)" by blast
  have "set threads \<subseteq> cores_of (aff s)" using threads(3) cores(2) by simp
  note started = started_pinned [OF assms(1) this]
  show ?thesis
  proof (intro exI conjI)
    show "Build (OnCores ?cores (WithThreadsPerCore tpc WorkerPoolBuilder)) =
      Inr (threads, WorkerPool_new (length threads) :: ('s app_env, 'r) task worker_pool)" by (rule threads(1))
    show "wp_Size (WorkerPool_new (length threads) :: ('s app_env, 'r) task worker_pool) = unat tpc * length ?cores"
      "length threads = wp_Size (WorkerPool_new (length threads) :: ('s app_env, 'r) task worker_pool)"
      using threads(2) by (simp_all add: new_Size)
    show "\<forall>c. count_list threads c = (if c \<in> cores_of (aff s) then unat tpc else 0)"
      using threads(4) cores(2) by simp
  qed (intro allI impI started, simp_all add: new_Size)
qed

text \<open>On the machine with two cores: two threads on each, and the first runs on its core when it has
  started.\<close>

theorem pool_on_all_cores_witness:
  "\<exists>threads p q. Build (OnCores (GetAllAvailableCores sim_os 0)
        (WithThreadsPerCore 2 WorkerPoolBuilder)) = Inr (threads, p :: (cpu_set app_env, nat) task worker_pool) \<and>
     count_list threads (Core 0) = 2 \<and> count_list threads (Core 2) = 2 \<and>
     fu_exec [FWork 0] (start_pool (ProcessorLinux sim_os) threads p 0
       \<lparr>ev_threads = [], ev_out = '''', ev_failed = None\<rparr>) = Some q \<and>
     FindAvailableCores sim_os (ev_threads (fu_env q) ! 0) = [threads ! 0]"
proof -
  let ?e = "\<lparr>ev_threads = [], ev_out = '''', ev_failed = None\<rparr> :: cpu_set app_env"
  from pool_on_all_cores [OF sim_os_ok, of 2 0, where 'r = nat] obtain threads and
    p :: "(cpu_set app_env, nat) task worker_pool" where
    b: "Build (OnCores (GetAllAvailableCores sim_os 0) (WithThreadsPerCore 2 WorkerPoolBuilder)) = Inr (threads, p)"
    "length threads = wp_Size p" and
    count: "\<forall>c. count_list threads c = (if c \<in> cores_of (sim_aff 0) then unat (2 :: 32 word) else 0)" and
    all: "\<forall>t e as q. list_all (submits_staying sim_os) as \<longrightarrow>
      fu_exec as (start_pool (ProcessorLinux sim_os) threads p t e) = Some q \<longrightarrow>
      (\<forall>w < wp_Size p. if wp_threads (fu_pool q) ! w = W_Start then \<exists>q'. fu_act (FWork w) q = Some q'
        else FindAvailableCores sim_os (ev_threads (fu_env q) ! w) = [threads ! w])" by auto
  note run = all [rule_format, of _ 0 ?e]
  have two: "count_list threads (Core 0) = 2" "count_list threads (Core 2) = 2"
    using count by (simp_all add: sim_start sim_cores)
  let ?p = "start_pool (ProcessorLinux sim_os) threads p 0 ?e"
  have pos: "0 < wp_Size p" using b(2) two(1) by (cases threads) auto
  have start: "wp_threads (fu_pool ?p) ! 0 = W_Start"
    using b(1) pos by (auto simp: Build_def WorkerPool_construct_def Let_def start_pool_def wp_Size_def
        WorkerPool_new_def split: if_splits)
  with run [of "[]" ?p 0] pos obtain q where q: "fu_act (FWork 0) ?p = Some q" by auto
  then have "wp_threads (fu_pool q) ! 0 \<noteq> W_Start"
    using start by (auto simp: fu_lift_Some wp_work_def split: if_splits)
  with run [of "[FWork 0]" q 0] q pos b two show ?thesis by (intro exI [of _ threads] exI [of _ p] exI [of _ q]) simp
qed

text \<open>For each node that was found a pool can be built on it: it has the threads asked for on
  each core of the node, and no others, and each of them can start or runs on exactly its core.\<close>

lemma pool_on_found_node:
  fixes env :: "'s os"
  assumes "os_ok env aff online node" "FindAvailableNumaNodes env s = (nodes, s')"
    "n \<in> set nodes" "tpc \<noteq> 0"
  shows "\<exists>threads (p :: ('s app_env, 'r) task worker_pool). Build (OnNUMANode n (WithThreadsPerCore tpc WorkerPoolBuilder)) =
        Inr (threads, p) \<and>
      wp_Size p = unat tpc * length (nn_Cores n) \<and> 0 < wp_Size p \<and>
      (\<forall>c. count_list threads c =
         (if c \<in> cores_of (aff s) \<and> node (GetID c) = nn_GetID n then unat tpc else 0)) \<and>
      (\<forall>t e as q. list_all (submits_staying env) as \<longrightarrow>
         fu_exec as (start_pool (ProcessorLinux env) threads p t e) = Some q \<longrightarrow>
         (\<forall>w < wp_Size p.
            if wp_threads (fu_pool q) ! w = W_Start then \<exists>q'. fu_act (FWork w) q = Some q'
            else FindAvailableCores env (ev_threads (fu_env q) ! w) = [threads ! w]))"
proof -
  have n: "\<not> nn_Empty n" "core_set (nn_Cores n)" "nn_Cores n \<noteq> []"
    "set (nn_Cores n) = {c \<in> cores_of (aff s). node (GetID c) = nn_GetID n}"
    using node_facts [OF assms(1,2,3)] by simp_all
  have "n = NUMANode (nn_GetID n) (nn_Cores n)"
    using n(1) by (simp add: NUMANode_def nn_GetID_def nn_Cores_def nn_Empty_def)
  with built_on [OF n(2) assms(4) refl, of "OnNUMANode n (WithThreadsPerCore tpc WorkerPoolBuilder)" "nn_GetID n",
      where 'b = "('s app_env, 'r) task"] obtain threads where threads:
    "Build (OnNUMANode n (WithThreadsPerCore tpc WorkerPoolBuilder)) =
      Inr (threads, WorkerPool_new (length threads) :: ('s app_env, 'r) task worker_pool)"
    "length threads = unat tpc * length (nn_Cores n)" "set threads = set (nn_Cores n)"
    "\<forall>c. count_list threads c = (if c \<in> set (nn_Cores n) then unat tpc else 0)" by auto
  have "set threads \<subseteq> cores_of (aff s)" using threads(3) n(4) by auto
  note started = started_pinned [OF assms(1) this]
  show ?thesis
  proof (intro exI conjI)
    show "Build (OnNUMANode n (WithThreadsPerCore tpc WorkerPoolBuilder)) =
      Inr (threads, WorkerPool_new (length threads) :: ('s app_env, 'r) task worker_pool)" by (rule threads(1))
    show "wp_Size (WorkerPool_new (length threads) :: ('s app_env, 'r) task worker_pool) = unat tpc * length (nn_Cores n)"
      "0 < wp_Size (WorkerPool_new (length threads) :: ('s app_env, 'r) task worker_pool)"
      using threads(2) n(3) assms(4) by (simp_all add: new_Size unat_gt_0)
    show "\<forall>c. count_list threads c =
        (if c \<in> cores_of (aff s) \<and> node (GetID c) = nn_GetID n then unat tpc else 0)"
      using threads(4) n(4) by simp
  qed (intro allI impI started, simp_all add: new_Size)
qed

end
